(* ===== verification/Prelude.thy ===== *)
theory Prelude
  imports
    Main
    "HOL-Library.Word"
    "HOL-Library.Monad_Syntax"
    "HOL-Library.AList"
    "HOL-Library.Multiset"
begin

unbundle bit_operations_syntax

text \<open>
  What every component theory shares: the machine types of the C++ code, byte reads
  that fail instead of running past a buffer, unsigned 32-bit arithmetic on lengths and
  offsets, a total-correctness predicate for the option monad, and the facts on
  association lists that model \<^verbatim>\<open>std::unordered_map\<close>.

  A C++ operation that could touch memory out of bounds is modelled in the option
  monad: \<open>None\<close> is undefined behaviour, \<open>Some r\<close> a defined result. A theorem that
  such an operation returns \<open>Some\<close> is therefore a memory-safety theorem.
\<close>

section \<open>Machine types\<close>

type_synonym u8 = "8 word"
type_synonym u16 = "16 word"
type_synonym u32 = "32 word"
type_synonym u64 = "64 word"
type_synonym bytes = "8 word list"

declare add_2_eq_Suc [simp del] add_2_eq_Suc' [simp del]

named_theorems machine_simps "unsigned arithmetic on lengths and offsets"
named_theorems ensures_simps "weakest-precondition equations of the option monad"
named_theorems read_simps "in-bounds byte reads"

subsection \<open>Unsigned 32-bit lengths and offsets\<close>

text \<open>
  Lengths and offsets are \<^verbatim>\<open>uint32_t\<close> in the source. They are kept as naturals with
  the wrap-around written out: \<open>add32\<close> and \<open>sub32\<close> are the C++ \<^verbatim>\<open>+\<close> and
  \<^verbatim>\<open>-\<close> on that type.
\<close>

abbreviation U32_SPAN :: nat where
  "U32_SPAN \<equiv> 4294967296"

definition add32 :: "nat \<Rightarrow> nat \<Rightarrow> nat" where
  "add32 a b = (a + b) mod U32_SPAN"

definition sub32 :: "nat \<Rightarrow> nat \<Rightarrow> nat" where
  "sub32 a b = (a + U32_SPAN - b) mod U32_SPAN"

lemma add32_exact [machine_simps]: "a + b < U32_SPAN \<Longrightarrow> add32 a b = a + b"
  by (simp add: add32_def)

lemma sub32_exact [machine_simps]:
  assumes "b \<le> a" "a < U32_SPAN"
  shows "sub32 a b = a - b"
proof -
  have "a + U32_SPAN - b = (a - b) + U32_SPAN" using assms(1) by linarith
  then have "sub32 a b = (a - b) mod U32_SPAN" by (simp only: sub32_def mod_add_self2)
  then show ?thesis using assms(2) by simp
qed

lemma add32_bound: "add32 a b < U32_SPAN"
  by (simp add: add32_def)

lemma sub32_bound: "sub32 a b < U32_SPAN"
  by (simp add: sub32_def)

lemma sub32_wraps: "a < b \<Longrightarrow> b < U32_SPAN \<Longrightarrow> sub32 a b = a + U32_SPAN - b"
  by (simp add: sub32_def)

subsection \<open>Bytes as numbers\<close>

lemma u8_bound [simp]: "unat (b :: u8) < 256"
  using unsigned_less [of b, where 'a = nat] by simp

lemma u8_le [simp]: "unat (b :: u8) \<le> 255"
  using u8_bound [of b] by linarith

lemma u16_bound [simp]: "unat (w :: u16) < 65536"
  using unsigned_less [of w, where 'a = nat] by simp

lemma u16_le [simp]: "unat (w :: u16) \<le> 65535"
  using u16_bound [of w] by linarith

lemma unat_ucast_8_16 [simp]: "unat (ucast (b :: u8) :: u16) = unat b"
  by (simp add: unsigned_ucast_eq take_bit_nat_eq_self_iff order.strict_trans1 [OF u8_le])

lemma unat_be16 [machine_simps]:
  "unat (push_bit 8 (ucast (a :: u8)) OR ucast (b :: u8) :: u16) = 256 * unat a + unat b"
proof -
  let ?x = "push_bit 8 (ucast a) :: u16" and ?y = "ucast b :: u16"
  have disj: "?x AND ?y = 0"
    by (rule bit_word_eqI) (auto simp: bit_simps dest: bit_imp_le_length)
  have "unat ?x = (unat a * 256) mod 65536"
    by (simp add: push_bit_eq_mult unat_word_ariths)
  also have "\<dots> = unat a * 256"
    using u8_bound [of a] by simp
  finally have x: "unat ?x = unat a * 256" .
  have "?x OR ?y = ?x + ?y"
    using word_plus_and_or [of ?x ?y] disj by simp
  then have "unat (?x OR ?y) = (unat ?x + unat ?y) mod 65536"
    by (simp add: unat_word_ariths)
  also have "\<dots> = 256 * unat a + unat b"
  proof -
    have "unat a * 256 + unat b < 65536"
      using u8_le [of a] u8_le [of b] by linarith
    then show ?thesis unfolding x by simp
  qed
  finally show ?thesis .
qed

lemma unat_be24 [machine_simps]:
  "unat (push_bit 16 (ucast (a :: u8)) OR push_bit 8 (ucast (b :: u8)) OR ucast (c :: u8) :: u32) =
     65536 * unat a + 256 * unat b + unat c"
proof -
  let ?x = "push_bit 16 (ucast a) :: u32" and ?y = "push_bit 8 (ucast b) :: u32"
    and ?z = "ucast c :: u32"
  have uc: "unat (ucast (d :: u8) :: u32) = unat d" for d
    by (simp add: unsigned_ucast_eq take_bit_nat_eq_self_iff order.strict_trans1 [OF u8_le])
  have "unat ?x = (unat a * 65536) mod 4294967296" "unat ?y = (unat b * 256) mod 4294967296"
    by (simp_all add: push_bit_eq_mult unat_word_ariths uc)
  then have xy: "unat ?x = unat a * 65536" "unat ?y = unat b * 256"
    using u8_le [of a] u8_le [of b] by simp_all
  have or_add: "v AND w = 0 \<Longrightarrow> v OR w = v + w" for v w :: u32
    using word_plus_and_or [of v w] by simp
  have d1: "?y AND ?z = 0"
    by (rule bit_word_eqI) (auto simp: bit_simps dest: bit_imp_le_length)
  have d2: "?x AND (?y OR ?z) = 0"
    by (rule bit_word_eqI) (auto simp: bit_simps dest: bit_imp_le_length)
  have "?x OR ?y OR ?z = ?x + (?y OR ?z)" by (rule or_add [OF d2])
  also have "\<dots> = ?x + ?y + ?z" by (simp only: or_add [OF d1] add.assoc)
  finally have "unat (?x OR ?y OR ?z) = unat (?x + ?y + ?z)" by (rule arg_cong)
  also have "\<dots> = unat ?x + unat ?y + unat ?z"
  proof -
    have "unat ?x + unat ?y + unat ?z < 4294967296"
      using u8_le [of a] u8_le [of b] u8_le [of c] unfolding xy uc by linarith
    then show ?thesis
      by (simp add: unat_word_ariths mod_add_left_eq)
  qed
  finally show ?thesis by (simp add: xy uc)
qed

subsection \<open>Byte reads\<close>

text \<open>
  \<open>rd8 p i\<close> is the load \<^verbatim>\<open>p[i]\<close>: it is defined only inside the buffer.
\<close>

definition rd8 :: "bytes \<Rightarrow> nat \<Rightarrow> u8 option" where
  "rd8 p i = (if i < length p then Some (p ! i) else None)"

lemma rd8_in [read_simps]: "i < length p \<Longrightarrow> rd8 p i = Some (p ! i)"
  by (simp add: rd8_def)

lemma rd8_eq_None_iff: "rd8 p i = None \<longleftrightarrow> length p \<le> i"
  by (simp add: rd8_def)

lemma rd8_prefix: "rd8 p i = Some b \<Longrightarrow> rd8 (p @ q) i = Some b"
  by (auto simp: rd8_def nth_append split: if_splits)

section \<open>Total correctness in the option monad\<close>

text \<open>
  \<open>ensures m Q\<close>: the computation \<open>m\<close> is defined and its result satisfies \<open>Q\<close>.
  The equations below push it through the constructs of the monad, so that a proof
  about a \<open>do\<close> block is a rewriting into verification conditions.
\<close>

definition ensures :: "'a option \<Rightarrow> ('a \<Rightarrow> bool) \<Rightarrow> bool" where
  "ensures m Q = (case m of None \<Rightarrow> False | Some x \<Rightarrow> Q x)"

lemma ensures_Some [ensures_simps, simp]: "ensures (Some x) Q = Q x"
  by (simp add: ensures_def)

lemma ensures_None [ensures_simps, simp]: "ensures None Q = False"
  by (simp add: ensures_def)

lemma ensures_bind [ensures_simps]:
  "ensures (Option.bind m f) Q = ensures m (\<lambda>x. ensures (f x) Q)"
  by (cases m) simp_all

lemma ensures_if [ensures_simps]:
  "ensures (if b then m else n) Q = (if b then ensures m Q else ensures n Q)"
  by simp

lemma ensures_let [ensures_simps]: "ensures (let x = t in m x) Q = ensures (m t) Q"
  by simp

lemma ensures_rd8 [ensures_simps]: "ensures (rd8 p i) Q \<longleftrightarrow> i < length p \<and> Q (p ! i)"
  by (simp add: rd8_def)

lemma ensures_case_option [ensures_simps]:
  "ensures (case x of None \<Rightarrow> m | Some y \<Rightarrow> f y) Q =
     (case x of None \<Rightarrow> ensures m Q | Some y \<Rightarrow> ensures (f y) Q)"
  by (cases x) simp_all

lemma ensures_map_option [ensures_simps]:
  "ensures (map_option f m) Q = ensures m (\<lambda>x. Q (f x))"
  by (cases m) simp_all

lemma ensures_iff: "ensures m Q \<longleftrightarrow> (\<exists>x. m = Some x \<and> Q x)"
  by (cases m) simp_all

lemma ensuresD: "ensures m Q \<Longrightarrow> m = Some x \<Longrightarrow> Q x"
  by simp

lemma ensuresI: "m = Some x \<Longrightarrow> Q x \<Longrightarrow> ensures m Q"
  by simp

lemma ensures_defined: "ensures m Q \<Longrightarrow> m \<noteq> None"
  by (cases m) simp_all

lemma ensures_mono: "ensures m P \<Longrightarrow> (\<And>x. m = Some x \<Longrightarrow> P x \<Longrightarrow> Q x) \<Longrightarrow> ensures m Q"
  by (cases m) simp_all

lemma ensures_conj: "ensures m (\<lambda>x. P x \<and> Q x) \<longleftrightarrow> ensures m P \<and> ensures m Q"
  by (cases m) simp_all

text \<open>A state-threading loop \<^verbatim>\<open>for (x : xs) s = f(x, s)\<close> in the monad.\<close>

fun mfold :: "('x \<Rightarrow> 's \<Rightarrow> 's option) \<Rightarrow> 'x list \<Rightarrow> 's \<Rightarrow> 's option" where
  "mfold f [] s = Some s"
| "mfold f (x # xs) s = Option.bind (f x s) (mfold f xs)"

lemma mfold_append: "mfold f (xs @ ys) s = Option.bind (mfold f xs s) (mfold f ys)"
proof (induction xs arbitrary: s)
  case (Cons x xs)
  then show ?case by (cases "f x s") simp_all
qed simp

text \<open>The loop rule: an invariant that each iteration establishes for the next.\<close>

lemma ensures_mfold:
  assumes "I s" "\<And>x t. x \<in> set xs \<Longrightarrow> I t \<Longrightarrow> ensures (f x t) I"
  shows "ensures (mfold f xs s) I"
  using assms
proof (induction xs arbitrary: s)
  case Nil
  then show ?case by simp
next
  case (Cons x xs)
  then obtain t where "f x s = Some t" "I t" by (fastforce simp: ensures_iff)
  moreover have "ensures (mfold f xs t) I"
    using \<open>I t\<close> by (rule Cons.IH) (simp add: Cons.prems(2))
  ultimately show ?case by simp
qed

section \<open>Hash tables\<close>

text \<open>
  A \<^verbatim>\<open>std::unordered_map\<close> is an association list with distinct keys: \<open>map_of\<close> is
  \<^verbatim>\<open>find\<close>, \<open>AList.update\<close> is insertion or assignment, \<open>AList.delete\<close> is
  \<^verbatim>\<open>erase\<close> and \<open>length\<close> is \<^verbatim>\<open>size\<close>. The order in which the real container
  is traversed is a parameter of the operations that traverse it.
\<close>

lemma length_update_present:
  "map_of al k \<noteq> None \<Longrightarrow> length (AList.update k v al) = length al"
  by (induction al) auto

lemma length_update_absent:
  "map_of al k = None \<Longrightarrow> length (AList.update k v al) = Suc (length al)"
  by (induction al) auto

lemma length_delete_le [simp]: "length (AList.delete k al) \<le> length al"
  by (simp add: AList.delete_eq)

lemma length_delete_present:
  "map_of al k \<noteq> None \<Longrightarrow> length (AList.delete k al) < length al"
  by (induction al) (auto simp: less_Suc_eq_le)

lemma set_delete_iff: "(k, v) \<in> set (AList.delete k' al) \<longleftrightarrow> k \<noteq> k' \<and> (k, v) \<in> set al"
  by (auto simp: AList.delete_eq)

lemma map_of_delete_iff: "map_of (AList.delete k' al) k = (if k = k' then None else map_of al k)"
  by (simp add: AList.delete_conv')

lemma map_of_update_iff: "map_of (AList.update k' v al) k = (if k = k' then Some v else map_of al k)"
  by (simp add: AList.update_conv')

lemma distinct_fst_Some_iff:
  "distinct (map fst al) \<Longrightarrow> map_of al k = Some v \<longleftrightarrow> (k, v) \<in> set al"
  by simp

end
