(* ===== verification/Dissect.thy ===== *)
theory Dissect
  imports Prelude
begin

unbundle bit_operations_syntax

text \<open>
  Layer 3 and layer 4 dissection and the flow key: the anonymous namespace of
  \<^verbatim>\<open>src/packet.cpp\<close> and the \<^verbatim>\<open>FlowView\<close> of \<^verbatim>\<open>include/packet.hpp\<close>. A pointer into
  the packet is an offset into its buffer; an output parameter is a component of the
  result. The lemmas show that no read leaves the buffer whatever bytes arrive, that the
  payload handed on lies inside the packet, and that the key is the same for both
  directions of a connection.
\<close>

section \<open>Data\<close>

record FlowView =
  fv_ip_version :: u8
  fv_ip_proto :: u8
  fv_src_ip :: "u8 list"
  fv_dst_ip :: "u8 list"
  fv_src_port :: u16
  fv_dst_port :: u16
  fv_payload :: "nat option"
  fv_payload_len :: nat
  fv_tcp_flags :: u8
  fv_key :: u32

definition FlowView0 :: FlowView where
  "FlowView0 = \<lparr>fv_ip_version = 0, fv_ip_proto = 0, fv_src_ip = replicate 16 0,
     fv_dst_ip = replicate 16 0, fv_src_port = 0, fv_dst_port = 0, fv_payload = None,
     fv_payload_len = 0, fv_tcp_flags = 0, fv_key = 0\<rparr>"

text \<open>
  What a dissection step hands back: the flow record as mutated so far and, when the C++
  function returns true, the payload's offset and length.
\<close>

type_synonym dissected = "FlowView \<times> (nat \<times> nat) option"

section \<open>Operations\<close>

definition be16 :: "bytes \<Rightarrow> nat \<Rightarrow> u16 option" where
  "be16 p i = do {
     a \<leftarrow> rd8 p i;
     b \<leftarrow> rd8 p (i + 1);
     Some (push_bit 8 (ucast a) OR ucast b)
   }"

definition memcpy_into :: "u8 list \<Rightarrow> bytes \<Rightarrow> nat \<Rightarrow> nat \<Rightarrow> u8 list option" where
  "memcpy_into dst p i n =
     (if i + n \<le> length p \<and> n \<le> length dst then Some (take n (drop i p) @ drop n dst) else None)"

definition kProtoTcp :: u8 where
  "kProtoTcp = 6"

definition kProtoUdp :: u8 where
  "kProtoUdp = 17"

definition parseL4 :: "u8 \<Rightarrow> bytes \<Rightarrow> nat \<Rightarrow> nat \<Rightarrow> FlowView \<Rightarrow> dissected option" where
  "parseL4 proto p l4 l4_len flow0 =
     (let flow = flow0\<lparr>fv_ip_proto := proto\<rparr> in
      if proto = kProtoTcp then
        if l4_len < 20 then Some (flow, None)
        else do {
          sp \<leftarrow> be16 p l4;
          dp \<leftarrow> be16 p (l4 + 2);
          fl \<leftarrow> rd8 p (l4 + 13);
          d \<leftarrow> rd8 p (l4 + 12);
          let flow' = flow\<lparr>fv_src_port := sp, fv_dst_port := dp, fv_tcp_flags := fl\<rparr>;
          let data_off = unat (drop_bit 4 d) * 4;
          if data_off < 20 \<or> data_off > l4_len then Some (flow', None)
          else Some (flow', Some (l4 + data_off, sub32 l4_len data_off))
        }
      else if proto = kProtoUdp then
        if l4_len < 8 then Some (flow, None)
        else do {
          sp \<leftarrow> be16 p l4;
          dp \<leftarrow> be16 p (l4 + 2);
          ul \<leftarrow> be16 p (l4 + 4);
          let flow' = flow\<lparr>fv_src_port := sp, fv_dst_port := dp\<rparr>;
          let plen = sub32 l4_len 8;
          let plen' = (if 8 \<le> unat ul \<and> unat ul - 8 \<le> plen then unat ul - 8 else plen);
          Some (flow', Some (l4 + 8, plen'))
        }
      else Some (flow, None))"

definition parseIPv4 :: "bytes \<Rightarrow> nat \<Rightarrow> FlowView \<Rightarrow> dissected option" where
  "parseIPv4 p len flow0 =
     (if len < 20 then Some (flow0, None)
      else do {
        let flow = flow0\<lparr>fv_ip_version := 4\<rparr>;
        b0 \<leftarrow> rd8 p 0;
        let ihl = unat (b0 AND 0x0f) * 4;
        if ihl < 20 \<or> ihl > len then Some (flow, None)
        else do {
          frag \<leftarrow> be16 p 6;
          if frag AND 0x1fff \<noteq> 0 then Some (flow, None)
          else do {
            src \<leftarrow> memcpy_into (fv_src_ip flow) p 12 4;
            dst \<leftarrow> memcpy_into (fv_dst_ip flow) p 16 4;
            let flow' = flow\<lparr>fv_src_ip := src, fv_dst_ip := dst\<rparr>;
            tl \<leftarrow> be16 p 2;
            let l3_len = (if ihl \<le> unat tl \<and> unat tl \<le> len then unat tl else len);
            proto \<leftarrow> rd8 p 9;
            parseL4 proto p ihl (sub32 l3_len ihl) flow'
          }
        }
      })"

definition kV6HopByHop :: u8 where
  "kV6HopByHop = 0"

definition kV6Routing :: u8 where
  "kV6Routing = 43"

definition kV6Fragment :: u8 where
  "kV6Fragment = 44"

definition kV6DestOpts :: u8 where
  "kV6DestOpts = 60"

definition kV6Mobility :: u8 where
  "kV6Mobility = 135"

definition kMaxV6ExtHeaders :: nat where
  "kMaxV6ExtHeaders = 8"

text \<open>
  The \<^verbatim>\<open>for\<close> loop of \<^verbatim>\<open>parseIPv6\<close>; the first argument counts the iterations
  that are left.
\<close>

fun v6_walk :: "nat \<Rightarrow> bytes \<Rightarrow> nat \<Rightarrow> FlowView \<Rightarrow> u8 \<Rightarrow> nat \<Rightarrow> dissected option" where
  "v6_walk 0 p l3_len flow nxt off = Some (flow, None)"
| "v6_walk (Suc n) p l3_len flow nxt off =
     (if nxt = kProtoTcp \<or> nxt = kProtoUdp then parseL4 nxt p off (sub32 l3_len off) flow
      else if nxt = kV6HopByHop \<or> nxt = kV6Routing \<or> nxt = kV6DestOpts \<or> nxt = kV6Mobility then
        if l3_len < add32 off 2 then Some (flow, None)
        else do {
          nxt' \<leftarrow> rd8 p off;
          ext_len \<leftarrow> rd8 p (off + 1);
          let off' = add32 off ((unat ext_len + 1) * 8);
          if off' > l3_len then Some (flow, None)
          else v6_walk n p l3_len flow nxt' off'
        }
      else if nxt = kV6Fragment then
        if l3_len < add32 off 8 then Some (flow, None)
        else do {
          frag \<leftarrow> be16 p (off + 2);
          if frag AND 0xfff8 \<noteq> 0 then Some (flow, None)
          else do {
            nxt' \<leftarrow> rd8 p off;
            v6_walk n p l3_len flow nxt' (add32 off 8)
          }
        }
      else Some (flow, None))"

definition parseIPv6 :: "bytes \<Rightarrow> nat \<Rightarrow> FlowView \<Rightarrow> dissected option" where
  "parseIPv6 p len flow0 =
     (if len < 40 then Some (flow0, None)
      else do {
        let flow = flow0\<lparr>fv_ip_version := 6\<rparr>;
        plen \<leftarrow> be16 p 4;
        src \<leftarrow> memcpy_into (fv_src_ip flow) p 8 16;
        dst \<leftarrow> memcpy_into (fv_dst_ip flow) p 24 16;
        let flow' = flow\<lparr>fv_src_ip := src, fv_dst_ip := dst\<rparr>;
        let l3_len = (if add32 40 (unat plen) \<le> len then add32 40 (unat plen) else len);
        nxt \<leftarrow> rd8 p 6;
        v6_walk kMaxV6ExtHeaders p l3_len flow' nxt 40
      })"

definition endpointHash :: "u8 list \<Rightarrow> u16 \<Rightarrow> u32" where
  "endpointHash ip port =
     (let h = foldl (\<lambda>h b. h * 131 + ucast b) (0 :: u64) ip;
          h' = h * 131 + ucast port
      in ucast h')"

definition routeKey :: "FlowView \<Rightarrow> u32" where
  "routeKey f =
     (let a = endpointHash (fv_src_ip f) (fv_src_port f);
          b = endpointHash (fv_dst_ip f) (fv_dst_port f);
          lo = (if a < b then a else b);
          hi = (if a < b then b else a);
          h0 = ucast (fv_ip_proto f) :: u64;
          h1 = h0 * 1000003 + ucast lo;
          h2 = h1 * 1000003 + ucast hi
      in ucast h2)"

definition parseFlow :: "bytes option \<Rightarrow> nat \<Rightarrow> dissected option" where
  "parseFlow data len =
     (let flow = FlowView0 in
      case data of
        None \<Rightarrow> Some (flow, None)
      | Some p \<Rightarrow>
          if len < 1 then Some (flow, None)
          else do {
            b0 \<leftarrow> rd8 p 0;
            let version = drop_bit 4 b0;
            if version = 4 then parseIPv4 p len flow
            else if version = 6 then parseIPv6 p len flow
            else Some (flow, None)
          })"

text \<open>
  The dissection half of \<^verbatim>\<open>Packet::flow_view\<close>: the Boolean is its return value, the
  record is its output parameter.
\<close>

definition dissect :: "bytes option \<Rightarrow> nat \<Rightarrow> (bool \<times> FlowView) option" where
  "dissect data len = do {
     (flow, r) \<leftarrow> parseFlow data len;
     case r of
       None \<Rightarrow> Some (False, flow)
     | Some (payload, payload_len) \<Rightarrow>
         (let flow' = flow\<lparr>fv_payload := Some payload, fv_payload_len := payload_len\<rparr>
          in Some (True, flow'\<lparr>fv_key := routeKey flow'\<rparr>))
   }"

section \<open>Memory safety and bounds of the dissection\<close>

lemma ensures_be16 [ensures_simps]:
  "ensures (be16 p i) Q \<longleftrightarrow>
     Suc i < length p \<and> Q (push_bit 8 (ucast (p ! i)) OR ucast (p ! Suc i))"
  by (auto simp: be16_def rd8_def)

lemma be16_in [read_simps]:
  "Suc i < length p \<Longrightarrow> be16 p i = Some (push_bit 8 (ucast (p ! i)) OR ucast (p ! Suc i))"
  by (simp add: be16_def rd8_def)

lemma ensures_memcpy_into [ensures_simps]:
  "ensures (memcpy_into dst p i n) Q \<longleftrightarrow>
     i + n \<le> length p \<and> n \<le> length dst \<and> Q (take n (drop i p) @ drop n dst)"
  by (auto simp: memcpy_into_def)

text \<open>The result of a dissection step points inside the first \<open>len\<close> bytes.\<close>

definition payload_within :: "nat \<Rightarrow> dissected \<Rightarrow> bool" where
  "payload_within len d = (case snd d of None \<Rightarrow> True | Some (off, n) \<Rightarrow> off + n \<le> len)"

lemma payload_within_simps [simp]:
  "payload_within len (f, None)"
  "payload_within len (f, Some (off, n)) \<longleftrightarrow> off + n \<le> len"
  by (simp_all add: payload_within_def)

lemma parseL4_safe:
  assumes "l4 + l4_len \<le> len" "len \<le> length p" "len < U32_SPAN"
  shows "ensures (parseL4 proto p l4 l4_len flow) (payload_within len)"
proof -
  have "l4_len < U32_SPAN" using assms by linarith
  then have sub: "b \<le> l4_len \<Longrightarrow> sub32 l4_len b = l4_len - b" for b
    by (simp add: sub32_exact)
  show ?thesis
    using assms by (auto simp: parseL4_def ensures_simps Let_def sub)
qed

lemma parseIPv4_safe:
  assumes "len \<le> length p" "len < U32_SPAN"
    "length (fv_src_ip flow) = 16" "length (fv_dst_ip flow) = 16"
  shows "ensures (parseIPv4 p len flow) (payload_within len)"
  using assms
  by (auto simp: parseIPv4_def ensures_simps Let_def sub32_exact intro!: parseL4_safe)

text \<open>The three kinds of next-header value the walk distinguishes.\<close>

lemma v6_next_cases:
  obtains (l4) "nxt = kProtoTcp \<or> nxt = kProtoUdp"
    | (ext) "nxt \<noteq> kProtoTcp" "nxt \<noteq> kProtoUdp"
        "nxt = kV6HopByHop \<or> nxt = kV6Routing \<or> nxt = kV6DestOpts \<or> nxt = kV6Mobility"
    | (other) "nxt \<noteq> kProtoTcp" "nxt \<noteq> kProtoUdp"
        "\<not> (nxt = kV6HopByHop \<or> nxt = kV6Routing \<or> nxt = kV6DestOpts \<or> nxt = kV6Mobility)"
  by blast

lemma v6_walk_safe:
  assumes "off \<le> l3_len" "l3_len \<le> len" "len \<le> length p" "len < U32_SPAN - 8"
  shows "ensures (v6_walk n p l3_len flow nxt off) (payload_within len)"
  using assms
proof (induction n arbitrary: nxt off)
  case 0
  then show ?case by simp
next
  case (Suc n)
  have add: "k \<le> 8 \<Longrightarrow> add32 off k = off + k" for k
    using Suc.prems by (simp add: add32_exact)
  show ?case
  proof (cases rule: v6_next_cases [of nxt])
    case l4
    have "ensures (parseL4 nxt p off (sub32 l3_len off) flow) (payload_within len)"
      using Suc.prems by (intro parseL4_safe) (simp_all add: sub32_exact)
    with l4 show ?thesis by simp
  next
    case ext
    have "ensures (v6_walk n p l3_len flow a b) (payload_within len)" if "b \<le> l3_len" for a b
      using Suc.prems that by (intro Suc.IH) auto
    with ext Suc.prems show ?thesis
      by (simp add: ensures_simps Let_def add)
  next
    case other
    have "ensures (v6_walk n p l3_len flow a b) (payload_within len)" if "b \<le> l3_len" for a b
      using Suc.prems that by (intro Suc.IH) auto
    with other Suc.prems show ?thesis
      by (simp add: ensures_simps Let_def add)
  qed
qed

lemma parseIPv6_safe:
  assumes "len \<le> length p" "len < U32_SPAN - 8"
    "length (fv_src_ip flow) = 16" "length (fv_dst_ip flow) = 16"
  shows "ensures (parseIPv6 p len flow) (payload_within len)"
proof -
  have add: "add32 40 (unat (w :: u16)) = 40 + unat w" for w
    using u16_le [of w] by (intro add32_exact) linarith
  show ?thesis
    using assms
    by (auto simp: parseIPv6_def ensures_simps Let_def add intro!: v6_walk_safe)
qed

lemma parseFlow_safe:
  assumes "\<And>p. data = Some p \<Longrightarrow> len \<le> length p" "len < U32_SPAN - 8"
  shows "ensures (parseFlow data len) (payload_within len)"
proof (cases data)
  case None
  then show ?thesis by (simp add: parseFlow_def)
next
  case (Some p)
  with assms have "len \<le> length p" by simp
  with Some assms(2) show ?thesis
    by (auto simp: parseFlow_def ensures_simps Let_def FlowView0_def
        intro!: parseIPv4_safe parseIPv6_safe)
qed

lemma dissect_safe:
  assumes "\<And>p. data = Some p \<Longrightarrow> len \<le> length p" "len < U32_SPAN - 8"
  shows "ensures (dissect data len)
    (\<lambda>(ok, f). ok \<longrightarrow> (\<exists>off. fv_payload f = Some off \<and> off + fv_payload_len f \<le> len) \<and>
                   fv_key f = routeKey f)"
proof -
  have "ensures (parseFlow data len) (payload_within len)"
    using assms by (rule parseFlow_safe)
  then obtain f r where r: "parseFlow data len = Some (f, r)" "payload_within len (f, r)"
    by (auto simp: ensures_iff)
  then show ?thesis
    by (cases r) (auto simp: dissect_def Let_def routeKey_def)
qed

section \<open>The shape of a dissected flow\<close>

text \<open>
  What a successful dissection guarantees of the flow record: only TCP and UDP, only
  IP versions 4 and 6, sixteen address bytes on either side.
\<close>

definition flow_shape :: "u8 \<Rightarrow> dissected \<Rightarrow> bool" where
  "flow_shape ver d \<longleftrightarrow>
     length (fv_src_ip (fst d)) = 16 \<and> length (fv_dst_ip (fst d)) = 16 \<and>
     (snd d \<noteq> None \<longrightarrow>
        fv_ip_version (fst d) = ver \<and> fv_ip_proto (fst d) \<in> {kProtoTcp, kProtoUdp})"

lemma parseL4_shape:
  assumes "parseL4 proto p l4 l4_len flow = Some d"
    "length (fv_src_ip flow) = 16" "length (fv_dst_ip flow) = 16" "fv_ip_version flow = ver"
  shows "flow_shape ver d"
  using assms
  by (auto simp: parseL4_def flow_shape_def Let_def split: if_splits Option.bind_splits)

lemma parseIPv4_shape:
  assumes "parseIPv4 p len flow = Some d"
    "length (fv_src_ip flow) = 16" "length (fv_dst_ip flow) = 16"
  shows "flow_shape 4 d"
  using assms
  by (auto simp: parseIPv4_def memcpy_into_def Let_def flow_shape_def
      split: if_splits Option.bind_splits dest!: parseL4_shape [where ver = 4])

lemma v6_walk_shape:
  assumes "v6_walk n p l3_len flow nxt off = Some d"
    "length (fv_src_ip flow) = 16" "length (fv_dst_ip flow) = 16" "fv_ip_version flow = ver"
  shows "flow_shape ver d"
  using assms
proof (induction n arbitrary: nxt off)
  case 0
  then show ?case by (auto simp: flow_shape_def)
next
  case (Suc n)
  have skip: "flow_shape ver (flow, None)"
    using Suc.prems by (simp add: flow_shape_def)
  have rec: "v6_walk n p l3_len flow a b = Some d \<Longrightarrow> flow_shape ver d" for a b
    using Suc.prems(2-4) by (rule Suc.IH [rotated])
  have l4: "parseL4 a p b k flow = Some d \<Longrightarrow> flow_shape ver d" for a b k
    using Suc.prems(2-4) by (rule parseL4_shape [rotated])
  from Suc.prems(1) show ?case
    using skip by (auto simp: Let_def split: if_splits Option.bind_splits intro: rec l4)
qed

lemma parseIPv6_shape:
  assumes "parseIPv6 p len flow = Some d"
    "length (fv_src_ip flow) = 16" "length (fv_dst_ip flow) = 16"
  shows "flow_shape 6 d"
  using assms
  by (auto simp: parseIPv6_def memcpy_into_def Let_def flow_shape_def
      split: if_splits Option.bind_splits dest!: v6_walk_shape [where ver = 6])

lemma parseFlow_shape:
  assumes "parseFlow data len = Some d"
  shows "flow_shape 4 d \<or> flow_shape 6 d"
  using assms
  by (auto simp: parseFlow_def Let_def FlowView0_def flow_shape_def
      split: option.splits if_splits Option.bind_splits
      dest!: parseIPv4_shape parseIPv6_shape)

section \<open>The flow key\<close>

text \<open>The flow as the other endpoint sends it.\<close>

definition reverse_flow :: "FlowView \<Rightarrow> FlowView" where
  "reverse_flow f = f\<lparr>fv_src_ip := fv_dst_ip f, fv_dst_ip := fv_src_ip f,
     fv_src_port := fv_dst_port f, fv_dst_port := fv_src_port f\<rparr>"

lemma lo_hi_min_max:
  fixes a b :: u32
  shows "(if a < b then a else b) = min a b" "(if a < b then b else a) = max a b"
  by (auto simp: min_def max_def)

lemma routeKey_reverse: "routeKey (reverse_flow f) = routeKey f"
  unfolding routeKey_def Let_def lo_hi_min_max
  by (simp add: reverse_flow_def min.commute max.commute)

text \<open>The key depends on the 5-tuple alone, not on flags, payload or IP version.\<close>

lemma routeKey_cong:
  assumes "fv_ip_proto f = fv_ip_proto g" "fv_src_ip f = fv_src_ip g" "fv_dst_ip f = fv_dst_ip g"
    "fv_src_port f = fv_src_port g" "fv_dst_port f = fv_dst_port g"
  shows "routeKey f = routeKey g"
  using assms by (simp add: routeKey_def)

text \<open>The hash of an endpoint weights neighbouring
  address bytes by 131, and a byte can be larger, so that two hosts of one network with the
  same port have the same hash.
\<close>

lemma endpointHash_collision:
  "endpointHash [10, 0, 1, 5, 0, 0, 0, 0, 0, 0, 0, 0, 0, 0, 0, 0] port =
   endpointHash [10, 0, 0, 136, 0, 0, 0, 0, 0, 0, 0, 0, 0, 0, 0, 0] port"
  by (simp add: endpointHash_def)

text \<open>
  C40. The key does not determine the connection: two hosts of one network that use the same
  port for the same server have the same flow key.
\<close>

lemma routeKey_collision:
  "routeKey (f\<lparr>fv_src_ip := [10, 0, 1, 5, 0, 0, 0, 0, 0, 0, 0, 0, 0, 0, 0, 0]\<rparr>) =
   routeKey (f\<lparr>fv_src_ip := [10, 0, 0, 136, 0, 0, 0, 0, 0, 0, 0, 0, 0, 0, 0, 0]\<rparr>)"
  by (simp add: routeKey_def endpointHash_collision)

text \<open>A packet that is rejected late leaves the fields that were filled before.\<close>

lemma failed_dissection_leaves_fields:
  "\<exists>f. dissect (Some [0x45, 0, 0, 20, 0, 0, 0, 0, 64, 1, 0, 0, 10, 0, 0, 1, 10, 0, 0, 2]) 20 =
     Some (False, f) \<and> fv_ip_version f = 4"
  by (simp add: dissect_def parseFlow_def parseIPv4_def rd8_def be16_def memcpy_into_def parseL4_def
      FlowView0_def Let_def kProtoTcp_def kProtoUdp_def sub32_def)

end
