(* ===== verification/Packet_Object.thy ===== *)
theory Packet_Object
  imports Dissect
begin

text \<open>
  The \<^verbatim>\<open>Packet\<close> class of \<^verbatim>\<open>include/packet.hpp\<close> with its out-of-line members in
  \<^verbatim>\<open>src/packet.cpp\<close>: a packet is a view over the receive buffer, an owner of its
  bytes, or a shell that only carries the id a verdict needs. A C++ move returns the new
  object together with the husk it leaves behind.
\<close>

section \<open>Data\<close>

datatype Verdict = ALLOW | BLOCK

text \<open>
  The enumerators are ordered as the C++ enum numbers them, so that the larger of two
  verdicts is the stricter one.
\<close>

instantiation Verdict :: linorder
begin

definition less_eq_Verdict :: "Verdict \<Rightarrow> Verdict \<Rightarrow> bool" where
  "less_eq_Verdict a b \<longleftrightarrow> a = ALLOW \<or> b = BLOCK"

definition less_Verdict :: "Verdict \<Rightarrow> Verdict \<Rightarrow> bool" where
  "less_Verdict a b \<longleftrightarrow> a = ALLOW \<and> b = BLOCK"

instance
proof
  fix a b c :: Verdict
  show "a < b \<longleftrightarrow> a \<le> b \<and> \<not> b \<le> a"
    by (cases a; cases b) (simp_all add: less_eq_Verdict_def less_Verdict_def)
  show "a \<le> a"
    by (cases a) (simp_all add: less_eq_Verdict_def)
  show "a \<le> b \<Longrightarrow> b \<le> c \<Longrightarrow> a \<le> c"
    by (cases a; cases b; cases c) (simp_all add: less_eq_Verdict_def)
  show "a \<le> b \<Longrightarrow> b \<le> a \<Longrightarrow> a = b"
    by (cases a; cases b) (simp_all add: less_eq_Verdict_def)
  show "a \<le> b \<or> b \<le> a"
    by (cases a; cases b) (simp_all add: less_eq_Verdict_def)
qed

end

text \<open>
  \<open>pk_view\<close> is the memory the borrowed pointer designates, which the next receive
  overwrites; \<open>pk_owned\<close> is the packet's own heap block.
\<close>

record Packet =
  pk_view :: "bytes option"
  pk_owned :: "bytes option"
  pk_len :: nat
  pk_id :: u32
  pk_verdict :: Verdict
  pk_pending :: bool

section \<open>Operations\<close>

definition Packet0 :: Packet where
  "Packet0 = \<lparr>pk_view = None, pk_owned = None, pk_len = 0, pk_id = 0, pk_verdict = ALLOW,
     pk_pending = False\<rparr>"

definition Packet_of :: "bytes option \<Rightarrow> nat \<Rightarrow> u32 \<Rightarrow> Packet" where
  "Packet_of data len ident = \<lparr>pk_view = data, pk_owned = None, pk_len = len, pk_id = ident,
     pk_verdict = ALLOW, pk_pending = True\<rparr>"

definition packet_clear :: "Packet \<Rightarrow> Packet" where
  "packet_clear p = p\<lparr>pk_view := None, pk_len := 0, pk_id := 0, pk_verdict := ALLOW,
     pk_pending := False\<rparr>"

text \<open>
  The move constructor: the new packet and what is left in the source, whose unique
  pointer has been emptied before \<^verbatim>\<open>clear()\<close> runs.
\<close>

definition move_packet :: "Packet \<Rightarrow> Packet \<times> Packet" where
  "move_packet o1 =
     (\<lparr>pk_view = pk_view o1, pk_owned = pk_owned o1, pk_len = pk_len o1, pk_id = pk_id o1,
       pk_verdict = pk_verdict o1, pk_pending = pk_pending o1\<rparr>,
      packet_clear (o1\<lparr>pk_owned := None\<rparr>))"

text \<open>
  Move assignment between two distinct objects, and the self-assignment the guard
  \<^verbatim>\<open>this != &o\<close> turns into a no-op.
\<close>

definition assign_packet :: "bool \<Rightarrow> Packet \<Rightarrow> Packet \<Rightarrow> Packet \<times> Packet" where
  "assign_packet same this o1 =
     (if same then (this, o1)
      else (this\<lparr>pk_view := pk_view o1, pk_owned := pk_owned o1, pk_len := pk_len o1,
              pk_id := pk_id o1, pk_verdict := pk_verdict o1, pk_pending := pk_pending o1\<rparr>,
            packet_clear (o1\<lparr>pk_owned := None\<rparr>)))"

definition packet_data :: "Packet \<Rightarrow> bytes option" where
  "packet_data p = (case pk_view p of Some v \<Rightarrow> Some v | None \<Rightarrow> pk_owned p)"

definition has_bytes :: "Packet \<Rightarrow> bool" where
  "has_bytes p \<longleftrightarrow> packet_data p \<noteq> None"

definition is_view :: "Packet \<Rightarrow> bool" where
  "is_view p \<longleftrightarrow> pk_view p \<noteq> None"

definition materialize :: "Packet \<Rightarrow> Packet option" where
  "materialize p =
     (case pk_view p of
        None \<Rightarrow> Some p
      | Some v \<Rightarrow>
          if pk_len p > 0 then
            (if pk_len p \<le> length v
             then Some (p\<lparr>pk_owned := Some (take (pk_len p) v), pk_view := None\<rparr>)
             else None)
          else Some (p\<lparr>pk_view := None\<rparr>))"

definition release_bytes :: "Packet \<Rightarrow> Packet" where
  "release_bytes p = p\<lparr>pk_owned := None, pk_view := None\<rparr>"

definition set_verdict :: "Packet \<Rightarrow> Verdict \<Rightarrow> Packet" where
  "set_verdict p v = p\<lparr>pk_verdict := v\<rparr>"

definition clear_pending :: "Packet \<Rightarrow> Packet" where
  "clear_pending p = p\<lparr>pk_pending := False\<rparr>"

definition flow_view :: "Packet \<Rightarrow> (bool \<times> FlowView) option" where
  "flow_view p = dissect (packet_data p) (pk_len p)"

definition flow_key :: "Packet \<Rightarrow> u32 option" where
  "flow_key p = do {
     (ok, f) \<leftarrow> flow_view p;
     Some (if ok then fv_key f else 0)
   }"

section \<open>Reads stay inside the announced length\<close>

text \<open>
  A defined dissection is unchanged by whatever memory follows the buffer. Together
  with the safety lemma, applied to the first \<open>len\<close> bytes alone, this says that
  no byte past \<open>len\<close> is ever looked at.
\<close>

lemma be16_prefix: "be16 p i = Some w \<Longrightarrow> be16 (p @ q) i = Some w"
  by (auto simp: be16_def rd8_prefix split: Option.bind_splits)

lemma memcpy_prefix: "memcpy_into d p i n = Some w \<Longrightarrow> memcpy_into d (p @ q) i n = Some w"
  by (auto simp: memcpy_into_def split: if_splits)

lemmas read_prefix = rd8_prefix be16_prefix memcpy_prefix

lemma parseL4_prefix:
  "parseL4 proto p l4 n flow = Some d \<Longrightarrow> parseL4 proto (p @ q) l4 n flow = Some d"
  by (auto simp: parseL4_def Let_def read_prefix split: if_splits Option.bind_splits)

lemma parseIPv4_prefix:
  "parseIPv4 p len flow = Some d \<Longrightarrow> parseIPv4 (p @ q) len flow = Some d"
  by (auto simp: parseIPv4_def Let_def read_prefix parseL4_prefix
      split: if_splits Option.bind_splits)

lemma v6_walk_prefix:
  "v6_walk n p l flow nxt off = Some d \<Longrightarrow> v6_walk n (p @ q) l flow nxt off = Some d"
proof (induction n arbitrary: nxt off)
  case 0
  then show ?case by simp
next
  case (Suc n)
  show ?case
  proof (cases rule: v6_next_cases [of nxt])
    case l4
    with Suc.prems show ?thesis by (auto intro: parseL4_prefix)
  next
    case ext
    with Suc.prems show ?thesis
      by (auto simp: Let_def rd8_prefix intro: Suc.IH split: if_splits Option.bind_splits)
  next
    case other
    with Suc.prems show ?thesis
      by (auto simp: Let_def read_prefix intro: Suc.IH split: if_splits Option.bind_splits)
  qed
qed

lemma parseIPv6_prefix:
  "parseIPv6 p len flow = Some d \<Longrightarrow> parseIPv6 (p @ q) len flow = Some d"
  by (auto simp: parseIPv6_def Let_def read_prefix v6_walk_prefix
      split: if_splits Option.bind_splits)

lemma parseFlow_prefix:
  "parseFlow (Some p) len = Some d \<Longrightarrow> parseFlow (Some (p @ q)) len = Some d"
  by (auto simp: parseFlow_def Let_def read_prefix parseIPv4_prefix parseIPv6_prefix
      split: if_splits Option.bind_splits)

lemma dissect_take:
  assumes "len \<le> length p" "len < U32_SPAN - 8"
  shows "dissect (Some (take len p)) len = dissect (Some p) len"
proof -
  have "ensures (parseFlow (Some (take len p)) len) (payload_within len)"
    using assms by (intro parseFlow_safe) auto
  then obtain d where "parseFlow (Some (take len p)) len = Some d"
    by (auto simp: ensures_iff)
  moreover from parseFlow_prefix [OF this, of "drop len p"]
  have "parseFlow (Some p) len = Some d" by simp
  ultimately show ?thesis by (simp add: dissect_def)
qed

section \<open>The packet's life cycle\<close>

text \<open>
  The class invariant: at most one of the two pointers is live, and a live one covers
  the announced length.
\<close>

definition packet_wf :: "Packet \<Rightarrow> bool" where
  "packet_wf p \<longleftrightarrow>
     (pk_view p = None \<or> pk_owned p = None) \<and>
     (\<forall>b. packet_data p = Some b \<longrightarrow> pk_len p \<le> length b) \<and>
     pk_len p < U32_SPAN - 8"

lemmas packet_defs = Packet0_def Packet_of_def packet_clear_def move_packet_def
  assign_packet_def packet_data_def has_bytes_def is_view_def release_bytes_def
  set_verdict_def clear_pending_def

lemma packet_wf_of:
  "(\<And>b. data = Some b \<Longrightarrow> len \<le> length b) \<Longrightarrow> len < U32_SPAN - 8 \<Longrightarrow>
   packet_wf (Packet_of data len ident)"
  by (auto simp: packet_wf_def packet_defs split: option.splits)

lemma packet_wf_ops:
  assumes "packet_wf p"
  shows "packet_wf (release_bytes p)" "packet_wf (set_verdict p v)" "packet_wf (clear_pending p)"
    "packet_wf (fst (move_packet p))" "packet_wf (snd (move_packet p))"
  using assms by (auto simp: packet_wf_def packet_defs split: option.splits)

text \<open>
  C27. Materialising a packet copies its bytes: the result is not a view, is well formed, owes the
  same verdict for the same id, and dissects to the same flow.
\<close>

lemma materialize_ensures:
  assumes "packet_wf p"
  shows "ensures (materialize p) (\<lambda>q. packet_wf q \<and> \<not> is_view q \<and>
    pk_id q = pk_id p \<and> pk_len q = pk_len p \<and> pk_pending q = pk_pending p \<and>
    pk_verdict q = pk_verdict p \<and> flow_view q = flow_view p)"
proof (cases "pk_view p")
  case None
  with assms show ?thesis by (simp add: materialize_def is_view_def)
next
  case (Some v)
  with assms have wf: "pk_owned p = None" "pk_len p \<le> length v" "pk_len p < U32_SPAN - 8"
    by (auto simp: packet_wf_def packet_data_def)
  show ?thesis
  proof (cases "pk_len p > 0")
    case True
    with Some wf show ?thesis
      by (simp add: materialize_def packet_wf_def is_view_def flow_view_def packet_data_def
          dissect_take)
  next
    case False
    with Some wf show ?thesis
      by (simp add: materialize_def packet_wf_def is_view_def flow_view_def packet_data_def
          dissect_def parseFlow_def)
  qed
qed

lemma materialize_idempotent:
  "packet_wf p \<Longrightarrow> Option.bind (materialize p) materialize = materialize p"
  by (auto simp: materialize_def split: option.splits)

text \<open>A move transfers the debt of a verdict: the new packet has it, the husk never.\<close>

lemma move_packet_pending:
  "pk_pending (fst (move_packet p)) = pk_pending p \<and> pk_id (fst (move_packet p)) = pk_id p \<and>
   \<not> pk_pending (snd (move_packet p)) \<and> \<not> has_bytes (snd (move_packet p)) \<and>
   fst (move_packet p) = p"
  by (simp add: packet_defs)

lemma flow_view_safe:
  assumes "packet_wf p"
  shows "ensures (flow_view p) (\<lambda>(ok, f). ok \<longrightarrow>
    (\<exists>off. fv_payload f = Some off \<and> off + fv_payload_len f \<le> pk_len p) \<and>
    fv_key f = routeKey f)"
  unfolding flow_view_def using assms by (intro dissect_safe) (auto simp: packet_wf_def)

lemma flow_view_shell:
  "\<not> has_bytes p \<Longrightarrow> flow_view p = Some (False, FlowView0)"
  by (simp add: flow_view_def has_bytes_def dissect_def parseFlow_def)

end
