(* ===== verification/NF_Queue.thy ===== *)
theory NF_Queue
  imports Packet_Object
begin

unbundle bit_operations_syntax

text \<open>
  The \<^verbatim>\<open>NFQueue\<close> class of \<^verbatim>\<open>include/NFQueue.hpp\<close> and \<^verbatim>\<open>src/NFQueue.cpp\<close>: binding a
  queue, one turn of the receive loop, the per-packet path and the verdict.

  The kernel and libnetfilter_queue are outside the repository. The answers of their
  calls are parameters: \<open>kernel\<close> for the calls with a fixed answer, \<open>turn\<close> for what one
  pass through \<^verbatim>\<open>poll\<close> and \<^verbatim>\<open>recv\<close> brings in. What the class tells the kernel is
  recorded: the setup calls in order, and \<open>nq_log\<close>, the verdicts in order.
\<close>

section \<open>Data\<close>

datatype Event = Packets | Idle | Stop | Error

datatype nf_verdict = NF_DROP | NF_ACCEPT

text \<open>The calls of the constructor and the destructor that acquire or release.\<close>

datatype nfq_call =
    Nfq_open
  | Nfq_bind_pf
  | Nfq_create_queue u16
  | Nfq_set_mode nat
  | Nfq_set_queue_maxlen u32
  | So_rcvbufforce int
  | So_rcvbuf int
  | Netlink_no_enobufs
  | Nfq_destroy_queue
  | Nfq_close

record system_error =
  se_code :: int
  se_what :: string

record kernel =
  k_open :: bool
  k_bind_pf :: int
  k_create_queue :: bool
  k_set_mode :: int
  k_rcvbufforce :: int
  k_errno :: "nfq_call \<Rightarrow> int"
  k_set_verdict :: "(u32 \<times> nf_verdict) list \<Rightarrow> u32 \<Rightarrow> nf_verdict \<Rightarrow> int"
  k_strerror :: "int \<Rightarrow> string"

record NFQueue =
  nq_h :: bool
  nq_qh :: bool
  nq_buf :: nat
  nq_queue_num :: u16
  nq_stop_fd :: int
  nq_received :: u64
  nq_verdicted :: u64
  nq_undecided :: u64
  nq_err_errno :: int
  nq_err_what :: "string option"
  nq_log :: "(u32 \<times> nf_verdict) list"

text \<open>
  One message of the buffer as \<^verbatim>\<open>nfq_get_msg_packet_hdr\<close> and \<^verbatim>\<open>nfq_get_payload\<close> present
  it: the id field as it is loaded, and the payload pointer with the returned length.
\<close>

record nfq_data =
  nd_packet_id :: "u32 option"
  nd_payload :: "bytes option"
  nd_len :: int

text \<open>
  What one turn brings: the results of \<^verbatim>\<open>poll\<close> and \<^verbatim>\<open>recv\<close>, the messages in the
  buffer with the time at which each is handled, and the time at the end of the turn.
\<close>

record turn =
  t_poll :: int
  t_poll_errno :: int
  t_revents :: u16
  t_stop_revents :: u16
  t_recv :: int
  t_recv_errno :: int
  t_msgs :: "(int \<times> nfq_data) list"
  t_now :: int

section \<open>Constants\<close>

definition kRecvBuf :: nat where
  "kRecvBuf = 0xffff + 4096"

abbreviation (input) POLLIN :: u16 where "POLLIN \<equiv> 0x0001"
abbreviation (input) POLLERR :: u16 where "POLLERR \<equiv> 0x0008"
abbreviation (input) POLLHUP :: u16 where "POLLHUP \<equiv> 0x0010"
abbreviation (input) POLLNVAL :: u16 where "POLLNVAL \<equiv> 0x0020"
abbreviation (input) EINTR :: int where "EINTR \<equiv> 4"
abbreviation (input) EIO :: int where "EIO \<equiv> 5"
abbreviation (input) EAGAIN :: int where "EAGAIN \<equiv> 11"
abbreviation (input) ENOBUFS :: int where "ENOBUFS \<equiv> 105"

section \<open>Setup\<close>

definition fresh_queue :: "u16 \<Rightarrow> int \<Rightarrow> NFQueue" where
  "fresh_queue queueNum stopFd = \<lparr>nq_h = False, nq_qh = False, nq_buf = kRecvBuf,
     nq_queue_num = queueNum, nq_stop_fd = stopFd, nq_received = 0, nq_verdicted = 0,
     nq_undecided = 0, nq_err_errno = 0, nq_err_what = None, nq_log = []\<rparr>"

text \<open>
  \<^verbatim>\<open>bail\<close>: save the errno that the last call left, undo what succeeded, then throw.
\<close>

definition bail ::
    "kernel \<Rightarrow> bool \<Rightarrow> string \<Rightarrow> nfq_call list \<Rightarrow> (system_error + NFQueue) \<times> nfq_call list" where
  "bail K qh what calls =
     (Inl \<lparr>se_code = k_errno K (last calls), se_what = what\<rparr>,
      calls @ (if qh then [Nfq_destroy_queue] else []) @ [Nfq_close])"

definition new_NFQueue ::
    "kernel \<Rightarrow> u16 \<Rightarrow> int \<Rightarrow> u32 \<Rightarrow> int \<Rightarrow> (system_error + NFQueue) \<times> nfq_call list" where
  "new_NFQueue K queueNum stopFd queueMaxLen recvBufBytes =
     (let q0 = fresh_queue queueNum stopFd in
      if \<not> k_open K
      then (Inl \<lparr>se_code = k_errno K Nfq_open, se_what = ''nfq_open''\<rparr>, [Nfq_open])
      else if k_bind_pf K < 0
      then bail K False ''nfq_bind_pf'' [Nfq_open, Nfq_bind_pf]
      else if \<not> k_create_queue K
      then bail K False ''nfq_create_queue'' [Nfq_open, Nfq_bind_pf, Nfq_create_queue queueNum]
      else if k_set_mode K < 0
      then bail K True ''nfq_set_mode''
             [Nfq_open, Nfq_bind_pf, Nfq_create_queue queueNum, Nfq_set_mode 0xffff]
      else (Inr (q0\<lparr>nq_h := True, nq_qh := True\<rparr>),
            [Nfq_open, Nfq_bind_pf, Nfq_create_queue queueNum, Nfq_set_mode 0xffff,
             Nfq_set_queue_maxlen queueMaxLen, So_rcvbufforce recvBufBytes] @
            (if k_rcvbufforce K < 0 then [So_rcvbuf recvBufBytes] else []) @
            [Netlink_no_enobufs]))"

definition delete_NFQueue :: "NFQueue \<Rightarrow> nfq_call list" where
  "delete_NFQueue q =
     (if nq_qh q then [Nfq_destroy_queue] else []) @ (if nq_h q then [Nfq_close] else [])"

section \<open>Errors\<close>

definition record_error :: "string \<Rightarrow> int \<Rightarrow> NFQueue \<Rightarrow> NFQueue" where
  "record_error what err q =
     q\<lparr>nq_err_what := Some what, nq_err_errno := (if err \<noteq> 0 then err else EIO)\<rparr>"

definition failed :: "NFQueue \<Rightarrow> bool" where
  "failed q \<longleftrightarrow> nq_err_errno q \<noteq> 0"

definition error_text :: "kernel \<Rightarrow> NFQueue \<Rightarrow> string" where
  "error_text K q =
     (if nq_err_errno q = 0 then []
      else (case nq_err_what q of Some w \<Rightarrow> w | None \<Rightarrow> ''nfqueue'') @ '': '' @
           k_strerror K (nq_err_errno q))"

section \<open>Verdicts\<close>

definition nf_of :: "Verdict \<Rightarrow> nf_verdict" where
  "nf_of v = (if v = BLOCK then NF_DROP else NF_ACCEPT)"

text \<open>The packet is passed by reference, so its state afterwards is returned too.\<close>

definition submit :: "kernel \<Rightarrow> Packet \<Rightarrow> Verdict \<Rightarrow> NFQueue \<Rightarrow> Packet \<times> NFQueue" where
  "submit K pkt v q =
     (if \<not> pk_pending pkt then (pkt, q)
      else
        let pkt' = clear_pending (release_bytes (set_verdict pkt v));
            rc = k_set_verdict K (nq_log q) (pk_id pkt') (nf_of v);
            q' = q\<lparr>nq_log := nq_log q @ [(pk_id pkt', nf_of v)]\<rparr>
        in (pkt', if rc \<ge> 0 then q'\<lparr>nq_verdicted := nq_verdicted q' + 1\<rparr> else q'))"

definition packets_received :: "NFQueue \<Rightarrow> u64" where
  "packets_received q = nq_received q"

definition verdicts_issued :: "NFQueue \<Rightarrow> u64" where
  "verdicts_issued q = nq_verdicted q"

definition packets_undecided :: "NFQueue \<Rightarrow> u64" where
  "packets_undecided q = nq_undecided q"

definition queue_num :: "NFQueue \<Rightarrow> u16" where
  "queue_num q = nq_queue_num q"

definition outstanding :: "NFQueue \<Rightarrow> u64" where
  "outstanding q = nq_received q - nq_verdicted q"

section \<open>The per-packet path\<close>

text \<open>Byte order of a 32-bit field on a little-endian machine.\<close>

definition ntohl :: "u32 \<Rightarrow> u32" where
  "ntohl w =
     push_bit 24 (take_bit 8 w) OR push_bit 16 (take_bit 8 (drop_bit 8 w)) OR
     push_bit 8 (take_bit 8 (drop_bit 16 w)) OR take_bit 8 (drop_bit 24 w)"

definition message_packet :: "nfq_data \<Rightarrow> Packet" where
  "message_packet nfa =
     (let ident = (case nd_packet_id nfa of Some w \<Rightarrow> ntohl w | None \<Rightarrow> 0)
      in if nd_len nfa > 0 \<and> nd_payload nfa \<noteq> None
         then Packet_of (nd_payload nfa) (nat (nd_len nfa)) ident
         else Packet_of None 0 ident)"

text \<open>
  The callback takes the packet by reference; what it leaves in it is its first result.
  A callback that throws is one that returns in the middle, so the same type covers it.
\<close>

type_synonym 'x callback = "Packet \<Rightarrow> NFQueue \<times> 'x \<Rightarrow> (Packet \<times> NFQueue \<times> 'x) option"

definition handle ::
    "kernel \<Rightarrow> 'x callback \<Rightarrow> nfq_data \<Rightarrow> NFQueue \<times> 'x \<Rightarrow> (NFQueue \<times> 'x) option" where
  "handle K cb nfa s = do {
     let (q, x) = s;
     (pkt, q', x') \<leftarrow> cb (message_packet nfa) (q\<lparr>nq_received := nq_received q + 1\<rparr>, x);
     Some (if pk_pending pkt
           then (snd (submit K pkt ALLOW (q'\<lparr>nq_undecided := nq_undecided q' + 1\<rparr>)), x')
           else (q', x'))
   }"

section \<open>One turn of the loop\<close>

definition run_once ::
    "kernel \<Rightarrow> (int \<Rightarrow> 'x callback) \<Rightarrow> turn \<Rightarrow> NFQueue \<times> 'x \<Rightarrow> (Event \<times> NFQueue \<times> 'x) option" where
  "run_once K cb t s =
     (let (q, x) = s;
          nfds = (if nq_stop_fd q \<ge> 0 then 2 else 1 :: nat)
      in
      if t_poll t < 0 then
        (if t_poll_errno t = EINTR then Some (Idle, q, x)
         else Some (Error, record_error ''poll'' (t_poll_errno t) q, x))
      else if t_poll t = 0 then Some (Idle, q, x)
      else if nfds = 2 \<and> t_stop_revents t \<noteq> 0 then Some (Stop, q, x)
      else if t_revents t AND POLLIN = 0 then
        (if t_revents t AND (POLLERR OR POLLHUP OR POLLNVAL) \<noteq> 0
         then Some (Error, record_error ''poll: netlink socket error'' EIO q, x)
         else Some (Idle, q, x))
      else if t_recv t < 0 then
        (if t_recv_errno t \<in> {ENOBUFS, EINTR, EAGAIN} then Some (Idle, q, x)
         else Some (Error, record_error ''recv'' (t_recv_errno t) q, x))
      else if t_recv t = 0 then Some (Idle, q, x)
      else do {
        (q', x') \<leftarrow> mfold (\<lambda>(now, nfa). handle K (cb now) nfa) (t_msgs t) (q, x);
        Some (Packets, q', x')
      })"

section \<open>Setup releases what it acquired\<close>

definition holds_handle :: "nfq_call list \<Rightarrow> bool" where
  "holds_handle cs \<longleftrightarrow> Nfq_open \<in> set cs \<and> Nfq_close \<notin> set cs"

text \<open>
  The steps of setup that must succeed, in order, each with the kernel's answer; the names by
  which the calls are known; and what gives back what a call acquired.
\<close>

definition setup_steps :: "kernel \<Rightarrow> u16 \<Rightarrow> (nfq_call \<times> bool) list" where
  "setup_steps K queueNum =
     [(Nfq_open, k_open K), (Nfq_bind_pf, k_bind_pf K \<ge> 0),
      (Nfq_create_queue queueNum, k_create_queue K), (Nfq_set_mode 0xffff, k_set_mode K \<ge> 0)]"

fun call_name :: "nfq_call \<Rightarrow> string" where
  "call_name Nfq_open = ''nfq_open''"
| "call_name Nfq_bind_pf = ''nfq_bind_pf''"
| "call_name (Nfq_create_queue n) = ''nfq_create_queue''"
| "call_name (Nfq_set_mode n) = ''nfq_set_mode''"
| "call_name (Nfq_set_queue_maxlen n) = ''nfq_set_queue_maxlen''"
| "call_name (So_rcvbufforce n) = ''setsockopt''"
| "call_name (So_rcvbuf n) = ''setsockopt''"
| "call_name Netlink_no_enobufs = ''setsockopt''"
| "call_name Nfq_destroy_queue = ''nfq_destroy_queue''"
| "call_name Nfq_close = ''nfq_close''"

fun release :: "nfq_call \<Rightarrow> nfq_call list" where
  "release Nfq_open = [Nfq_close]"
| "release (Nfq_create_queue n) = [Nfq_destroy_queue]"
| "release _ = []"

text \<open>The first step that fails: \<open>pre\<close> are the calls that succeeded before it.\<close>

definition fails_at :: "(nfq_call \<times> bool) list \<Rightarrow> nfq_call list \<Rightarrow> nfq_call \<Rightarrow> bool" where
  "fails_at steps pre c \<longleftrightarrow> (\<exists>rest. steps = map (\<lambda>d. (d, True)) pre @ (c, False) # rest)"

lemma fails_at_Nil [simp]: "\<not> fails_at [] pre c"
  by (simp add: fails_at_def)

lemma fails_at_Cons [simp]:
  "fails_at ((d, ok) # steps) pre c \<longleftrightarrow>
     (if ok then (\<exists>ds. pre = d # ds \<and> fails_at steps ds c) else pre = [] \<and> c = d)"
  by (auto simp: fails_at_def Cons_eq_append_conv map_eq_Cons_conv)

lemma new_NFQueue_error:
  assumes "new_NFQueue K qn fd ml rb = (Inl e, calls)"
  shows "\<exists>pre c. fails_at (setup_steps K qn) pre c \<and>
    se_what e = call_name c \<and> se_code e = k_errno K c \<and>
    calls = pre @ [c] @ concat (map release (rev pre))"
  using assms
  by (auto simp: new_NFQueue_def Let_def bail_def setup_steps_def split: if_splits)

text \<open>
  C36. When the constructor of the queue fails, it fails at the first setup call the kernel
  refuses: the exception carries that call's name and the errno it left, the calls made are
  those up to it, and then whatever had been acquired has been given back, in reverse order, and
  nothing else.
\<close>

lemma new_NFQueue_failure:
  assumes "new_NFQueue K qn fd ml rb = (Inl e, calls)"
  shows "\<exists>pre c. fails_at (setup_steps K qn) pre c \<and>
    se_what e = call_name c \<and> se_code e = k_errno K c \<and>
    calls = pre @ [c] @ concat (map release (rev pre))"
  using new_NFQueue_error [OF assms] .

lemma new_NFQueue_success:
  assumes "new_NFQueue K qn fd ml rb = (Inr q, calls)"
  shows "holds_handle calls \<and> nq_queue_num q = qn \<and> nq_stop_fd q = fd \<and> nq_log q = [] \<and>
    \<not> failed q \<and> Nfq_create_queue qn \<in> set calls \<and> Nfq_set_mode 0xffff \<in> set calls \<and>
    delete_NFQueue q = [Nfq_destroy_queue, Nfq_close]"
  using assms
  by (auto simp: new_NFQueue_def Let_def bail_def holds_handle_def fresh_queue_def failed_def
      delete_NFQueue_def split: if_splits)

lemma new_NFQueue_iff:
  "(\<exists>q calls. new_NFQueue K qn fd ml rb = (Inr q, calls)) \<longleftrightarrow>
   k_open K \<and> k_bind_pf K \<ge> 0 \<and> k_create_queue K \<and> k_set_mode K \<ge> 0"
  by (auto simp: new_NFQueue_def Let_def bail_def)

section \<open>Verdicts are given once\<close>

lemma submit_husk: "\<not> pk_pending pkt \<Longrightarrow> submit K pkt v q = (pkt, q)"
  by (simp add: submit_def)

lemma submit_pending:
  assumes "pk_pending pkt"
  shows "nq_log (snd (submit K pkt v q)) = nq_log q @ [(pk_id pkt, nf_of v)] \<and>
    \<not> pk_pending (fst (submit K pkt v q)) \<and> \<not> has_bytes (fst (submit K pkt v q))"
  using assms by (simp add: submit_def Let_def packet_defs)

text \<open>
  A packet that has been submitted is inert: submitting it again, with any verdict and to any
  queue, does nothing.
\<close>

lemma submit_twice: "submit K (fst (submit K pkt v q)) v' q' = (fst (submit K pkt v q), q')"
  by (simp add: submit_def Let_def packet_defs)

lemma submit_fields:
  "nq_received (snd (submit K pkt v q)) = nq_received q"
  "nq_undecided (snd (submit K pkt v q)) = nq_undecided q"
  "nq_err_errno (snd (submit K pkt v q)) = nq_err_errno q"
  "nq_stop_fd (snd (submit K pkt v q)) = nq_stop_fd q"
  "nq_queue_num (snd (submit K pkt v q)) = nq_queue_num q"
  by (simp_all add: submit_def Let_def)

text \<open>Two packets with different id fields get different ids.\<close>

lemma bit_ntohl:
  "bit (ntohl w) n \<longleftrightarrow> n < 32 \<and>
     bit w (if n < 8 then 24 + n else if n < 16 then 8 + n else if n < 24 then n - 8 else n - 24)"
  unfolding ntohl_def by (auto simp: bit_simps dest: bit_imp_le_length)

lemma ntohl_ntohl: "ntohl (ntohl w) = w"
  by (rule bit_word_eqI) (auto simp: bit_ntohl)

lemma ntohl_inj: "ntohl v = ntohl w \<longleftrightarrow> v = w"
  by (metis ntohl_ntohl)

end
