(* ===== verification/Client_Hello.thy ===== *)
theory Client_Hello
  imports Prelude
begin

unbundle bit_operations_syntax

text \<open>
  The TLS side of \<^verbatim>\<open>src/hostname_extractor.cpp\<close>: stripping the record layer
  (\<^verbatim>\<open>collectHandshake\<close>), parsing the ClientHello (\<^verbatim>\<open>parseClientHello\<close>) and their
  composition \<^verbatim>\<open>extractHostname\<close>. The loops are option-valued partial functions, so a
  defined result means both that no read left its buffer and that the loop ended.
\<close>

section \<open>Data\<close>

text \<open>
  The enumerators of \<^verbatim>\<open>HostnameResult\<close>; the output parameters that are only
  meaningful on \<open>Found\<close> are its argument.
\<close>

datatype 'a HostnameResult = Found 'a | NotFound | NeedMore

text \<open>
  A found host name: the buffer the C++ pointer \<^verbatim>\<open>host\<close> points into, its offset there
  and \<^verbatim>\<open>host_len\<close>.
\<close>

type_synonym span = "bytes \<times> nat \<times> nat"

section \<open>Operations\<close>

definition opensTlsHandshake :: "bytes \<Rightarrow> nat \<Rightarrow> bool option" where
  "opensTlsHandshake payload len =
     (if len \<ge> 2 then do {
        a \<leftarrow> rd8 payload 0;
        if a = 0x16 then do { b \<leftarrow> rd8 payload 1; Some (b = 0x03) } else Some False
      }
      else Some False)"

definition rd16 :: "bytes \<Rightarrow> nat \<Rightarrow> u16 option" where
  "rd16 q i = do {
     a \<leftarrow> rd8 q i;
     b \<leftarrow> rd8 q (i + 1);
     Some (push_bit 8 (ucast a) OR ucast b)
   }"

text \<open>The three-byte handshake length, written out twice in \<^verbatim>\<open>collectHandshake\<close>.\<close>

definition rd24 :: "bytes \<Rightarrow> nat \<Rightarrow> u32 option" where
  "rd24 q i = do {
     a \<leftarrow> rd8 q i;
     b \<leftarrow> rd8 q (i + 1);
     c \<leftarrow> rd8 q (i + 2);
     Some (push_bit 16 (ucast a) OR push_bit 8 (ucast b) OR ucast c)
   }"

text \<open>The bytes \<^verbatim>\<open>[q + i, q + i + n)\<close>, as an iterator range copies them.\<close>

definition byte_slice :: "bytes \<Rightarrow> nat \<Rightarrow> nat \<Rightarrow> bytes option" where
  "byte_slice q i n = (if i + n \<le> length q then Some (take n (drop i q)) else None)"

text \<open>
  The fast path: \<open>Some None\<close> falls through to the fragmented path.
\<close>

definition collect_fast :: "bytes \<Rightarrow> nat \<Rightarrow> nat \<Rightarrow> (bytes \<times> nat) HostnameResult option option" where
  "collect_fast p len rec0 =
     (if rec0 \<ge> 4 \<and> len \<ge> 9 then do {
        t \<leftarrow> rd8 p 5;
        if t \<noteq> 0x01 then Some (Some NotFound)
        else do {
          ml \<leftarrow> rd24 p 6;
          let msg_len = unat ml;
          if msg_len < 34 \<or> msg_len > 65535 then Some (Some NotFound)
          else do {
            let want = add32 4 msg_len;
            if want \<le> rec0 then
              if len < add32 5 want then Some (Some NeedMore)
              else Some (Some (Found (drop 5 p, want)))
            else Some None
          }
        }
      }
      else Some None)"

text \<open>
  Once four bytes of the message have been joined, its length is known. \<open>None\<close> inside
  is the \<^verbatim>\<open>NotFound\<close> return.
\<close>

definition header_want :: "bytes \<Rightarrow> nat \<Rightarrow> nat option option" where
  "header_want scratch want =
     (if want = 0 \<and> length scratch \<ge> 4 then do {
        t \<leftarrow> rd8 scratch 0;
        if t \<noteq> 0x01 then Some None
        else do {
          ml \<leftarrow> rd24 scratch 1;
          let msg_len = unat ml;
          if msg_len < 34 \<or> msg_len > 65535 then Some None
          else Some (Some (add32 4 msg_len))
        }
      }
      else Some (Some want))"

text \<open>
  One turn of the joining loop, up to the new cursor: the record at \<open>off\<close> is still
  incomplete, is not a handshake record, or yields its payload and the next offset.
\<close>

definition record_step :: "bytes \<Rightarrow> nat \<Rightarrow> nat \<Rightarrow> (bytes \<times> nat) HostnameResult option" where
  "record_step p len off =
     (if sub32 len off < 5 then Some NeedMore
      else do {
        c \<leftarrow> rd8 p off;
        v \<leftarrow> (if c \<noteq> 0x16 then Some c else rd8 p (off + 1));
        if c \<noteq> 0x16 \<or> v \<noteq> 0x03 then Some NotFound
        else do {
          rlw \<leftarrow> rd16 p (off + 3);
          let rl = unat rlw;
          if rl = 0 \<or> rl > 16384 then Some NotFound
          else if sub32 (sub32 len off) 5 < rl then Some NeedMore
          else do {
            chunk \<leftarrow> byte_slice p (off + 5) rl;
            Some (Found (chunk, add32 off (5 + rl)))
          }
        }
      })"

partial_function (option) collect_loop ::
    "bytes \<Rightarrow> nat \<Rightarrow> bytes \<Rightarrow> nat \<Rightarrow> nat \<Rightarrow> (bytes \<times> nat) HostnameResult option" where
  "collect_loop p len scratch off want =
     (if \<not> (want = 0 \<or> length scratch < want) then Some (Found (scratch, want))
      else do {
        r \<leftarrow> record_step p len off;
        case r of
          NeedMore \<Rightarrow> Some NeedMore
        | NotFound \<Rightarrow> Some NotFound
        | Found (chunk, off') \<Rightarrow> do {
            let scratch' = scratch @ chunk;
            hw \<leftarrow> header_want scratch' want;
            case hw of
              None \<Rightarrow> Some NotFound
            | Some want' \<Rightarrow>
                if off' \<ge> len \<and> (want' = 0 \<or> length scratch' < want') then Some NeedMore
                else collect_loop p len scratch' off' want'
          }
      })"

definition collectHandshake :: "bytes \<Rightarrow> nat \<Rightarrow> (bytes \<times> nat) HostnameResult option" where
  "collectHandshake p len =
     (if len < 1 then Some NeedMore
      else do {
        b0 \<leftarrow> rd8 p 0;
        if b0 \<noteq> 0x16 then Some NotFound
        else do {
          b1 \<leftarrow> (if len \<ge> 2 then rd8 p 1 else Some 0x03);
          if len \<ge> 2 \<and> b1 \<noteq> 0x03 then Some NotFound
          else if len < 5 then Some NeedMore
          else do {
            r0 \<leftarrow> rd16 p 3;
            let rec0 = unat r0;
            if rec0 = 0 \<or> rec0 > 16384 then Some NotFound
            else do {
              fast \<leftarrow> collect_fast p len rec0;
              case fast of
                Some r \<Rightarrow> Some r
              | None \<Rightarrow> collect_loop p len [] 0 0
            }
          }
        }
      })"

partial_function (option) name_walk ::
    "bytes \<Rightarrow> nat \<Rightarrow> nat \<Rightarrow> (nat \<times> nat) HostnameResult option" where
  "name_walk p list_end q =
     (if \<not> (add32 q 3 \<le> list_end) then Some NotFound
      else do {
        name_type \<leftarrow> rd8 p q;
        nl \<leftarrow> rd16 p (q + 1);
        let name_len = unat nl;
        let q' = add32 q 3;
        if add32 q' name_len > list_end then Some NotFound
        else if name_type = 0x00 then Some (Found (q', name_len))
        else name_walk p list_end (add32 q' name_len)
      })"

definition server_names :: "bytes \<Rightarrow> nat \<Rightarrow> nat \<Rightarrow> (nat \<times> nat) HostnameResult option" where
  "server_names p o1 elen =
     (let q = o1; list_end = add32 o1 elen in
      if add32 q 2 > list_end then Some NotFound
      else do {
        ll \<leftarrow> rd16 p q;
        let named = add32 (add32 q 2) (unat ll);
        let q' = add32 q 2;
        let list_end' = (if named < list_end then named else list_end);
        name_walk p list_end' q'
      })"

partial_function (option) ext_walk ::
    "bytes \<Rightarrow> nat \<Rightarrow> nat \<Rightarrow> (nat \<times> nat) HostnameResult option" where
  "ext_walk p ext_end o1 =
     (if \<not> (add32 o1 4 \<le> ext_end) then Some NotFound
      else do {
        etype \<leftarrow> rd16 p o1;
        elen \<leftarrow> rd16 p (o1 + 2);
        let o2 = add32 o1 4;
        if add32 o2 (unat elen) > ext_end then Some NotFound
        else if etype = 0x0000 then server_names p o2 (unat elen)
        else ext_walk p ext_end (add32 o2 (unat elen))
      })"

text \<open>
  \<^verbatim>\<open>parseClientHello\<close> in the order of its body: each stage checks that its length
  field is there, reads it and moves the cursor past the field.
\<close>

definition hello_extensions :: "bytes \<Rightarrow> nat \<Rightarrow> nat \<Rightarrow> (nat \<times> nat) HostnameResult option" where
  "hello_extensions p body_end o5 =
     (if \<not> add32 o5 2 \<le> body_end then Some NotFound
      else do {
        el \<leftarrow> rd16 p o5;
        let ext_end = add32 (add32 o5 2) (unat el);
        let o6 = add32 o5 2;
        let ext_end' = (if ext_end > body_end then body_end else ext_end);
        ext_walk p ext_end' o6
      })"

definition hello_compression :: "bytes \<Rightarrow> nat \<Rightarrow> nat \<Rightarrow> (nat \<times> nat) HostnameResult option" where
  "hello_compression p body_end o4 =
     (if \<not> add32 o4 1 \<le> body_end then Some NotFound
      else do {
        cm \<leftarrow> rd8 p o4;
        hello_extensions p body_end (add32 o4 (add32 1 (unat cm)))
      })"

definition hello_ciphers :: "bytes \<Rightarrow> nat \<Rightarrow> nat \<Rightarrow> (nat \<times> nat) HostnameResult option" where
  "hello_ciphers p body_end o3 =
     (if \<not> add32 o3 2 \<le> body_end then Some NotFound
      else do {
        cs \<leftarrow> rd16 p o3;
        hello_compression p body_end (add32 o3 (add32 2 (unat cs)))
      })"

definition parseClientHello :: "bytes \<Rightarrow> nat \<Rightarrow> (nat \<times> nat) HostnameResult option" where
  "parseClientHello p len =
     (if len < 4 then Some NotFound
      else do {
        t \<leftarrow> rd8 p 0;
        if t \<noteq> 0x01 then Some NotFound
        else do {
          let body_end = len;
          let o1 = 4;
          if \<not> add32 o1 (2 + 32 + 1) \<le> body_end then Some NotFound
          else do {
            let o2 = add32 o1 (2 + 32);
            sl \<leftarrow> rd8 p o2;
            hello_ciphers p body_end (add32 o2 (add32 1 (unat sl)))
          }
        }
      })"

definition extractHostname :: "bytes \<Rightarrow> nat \<Rightarrow> span HostnameResult option" where
  "extractHostname tls_data len = do {
     r \<leftarrow> collectHandshake tls_data len;
     case r of
       Found (hs, hs_len) \<Rightarrow> do {
         r' \<leftarrow> parseClientHello hs hs_len;
         case r' of
           Found (host, host_len) \<Rightarrow> Some (Found (hs, host, host_len))
         | NotFound \<Rightarrow> Some NotFound
         | NeedMore \<Rightarrow> Some NeedMore
       }
     | NotFound \<Rightarrow> Some NotFound
     | NeedMore \<Rightarrow> Some NeedMore
   }"

end
