(* ===== verification/Extractor.thy ===== *)
theory Extractor
  imports Packet_Object Client_Hello
begin

unbundle bit_operations_syntax

text \<open>
  \<^verbatim>\<open>TcpTlsHostnameExtractor\<close> of \<^verbatim>\<open>include/hostname_extractor.hpp\<close> and
  \<^verbatim>\<open>src/hostname_extractor.cpp\<close>: the flow table, the ring of blocked flows, the packet
  path \<^verbatim>\<open>feed\<close>, the idle sweep and the shutdown flush. This theory holds the model;
  its invariants are in the theories that import it.

  PcapPlusPlus is not part of the repository. Its reassembler is a parameter: an opaque
  state and, for each call the extractor makes, the new state and the callbacks the
  library fires from inside that call, in order. The callbacks return nothing and never
  call back into the library (closes are deferred for that reason), so a call and its
  callbacks are a list of events the handlers are run over. Also parameters are the
  policy callback and the order in which the standard library traverses the flow table.
\<close>

section \<open>Data\<close>

record Decided =
  dc_pkt :: Packet
  dc_verdict :: Verdict

datatype State = Wait | Block

record Conn =
  cn_state :: State
  cn_held :: "Packet list"
  cn_stream :: bytes
  cn_pcpp_key :: u32
  cn_pcpp_closed :: bool
  cn_last :: int

definition Conn0 :: Conn where
  "Conn0 = \<lparr>cn_state = Wait, cn_held = [], cn_stream = [], cn_pcpp_key = 0,
     cn_pcpp_closed = False, cn_last = 0\<rparr>"

text \<open>
  The callbacks of the reassembler with the data they carry: the connection's key, and
  for a message the side it came from and its bytes.
\<close>

datatype pcpp_event =
    ConnectionStart u32
  | MessageReady int u32 bytes
  | ConnectionEnd

text \<open>What the extractor is given from outside.\<close>

record 'r world =
  w_reassemble :: "'r \<Rightarrow> bytes \<Rightarrow> 'r \<times> pcpp_event list"
  w_close :: "'r \<Rightarrow> u32 \<Rightarrow> 'r \<times> pcpp_event list"
  w_purge :: "'r \<Rightarrow> 'r \<times> pcpp_event list"
  w_traverse :: "u32 list \<Rightarrow> u32 list"
  w_decide :: "string option \<Rightarrow> Verdict"

text \<open>
  The members of the extractor. \<open>x_asked\<close> records the calls of the policy callback,
  whose output the worker prints; times are in nanoseconds of the steady clock. The
  scratch buffer is cleared before each use and so carries nothing between calls.
\<close>

record 'r extractor =
  x_reassembly :: 'r
  x_to_close :: "u32 list"
  x_conns :: "(u32 \<times> Conn) list"
  x_current_key :: u32
  x_feeding :: bool
  x_max_flows :: nat
  x_max_blocked :: nat
  x_block_ring :: "u32 list"
  x_block_next :: nat
  x_lastSweep :: int
  x_flows :: nat
  x_blocked :: nat
  x_dropped_at_cap :: u64
  x_decided :: "Decided list"
  x_asked :: "string option list"

section \<open>Constants\<close>

definition kMaxPacketsPerConn :: nat where
  "kMaxPacketsPerConn = 32"

definition kMaxStreamBytes :: nat where
  "kMaxStreamBytes = 32 * 1024"

definition kWaitIdleTimeout :: int where
  "kWaitIdleTimeout = 10000000000"

definition kBlockIdleTimeout :: int where
  "kBlockIdleTimeout = 60000000000"

definition kSweepInterval :: int where
  "kSweepInterval = 1000000000"

definition kTcpFin :: u8 where
  "kTcpFin = 0x01"

definition kTcpSyn :: u8 where
  "kTcpSyn = 0x02"

definition kTcpRst :: u8 where
  "kTcpRst = 0x04"

definition kTcpAck :: u8 where
  "kTcpAck = 0x10"

definition kClientSide :: int where
  "kClientSide = 0"

definition kDefaultMaxFlows :: nat where
  "kDefaultMaxFlows = 65536"

definition kDefaultBlockedShare :: nat where
  "kDefaultBlockedShare = 4"

section \<open>Small operations\<close>

definition isClientSyn :: "FlowView \<Rightarrow> bool" where
  "isClientSyn f \<longleftrightarrow> fv_tcp_flags f AND kTcpSyn \<noteq> 0 \<and> fv_tcp_flags f AND kTcpAck = 0"

text \<open>\<^verbatim>\<open>std::string(host, host_len)\<close> from bytes.\<close>

definition string_of_bytes :: "bytes \<Rightarrow> string" where
  "string_of_bytes b = map (\<lambda>w. char_of (unat w)) b"

definition new_extractor :: "'r \<Rightarrow> nat \<Rightarrow> nat \<Rightarrow> 'r extractor" where
  "new_extractor r max_flows max_blocked =
     (let mf = (if max_flows = 0 then 1 else max_flows);
          mb = (if max_blocked \<noteq> 0 then max_blocked else max 1 (mf div kDefaultBlockedShare));
          mb' = min mb mf
      in \<lparr>x_reassembly = r, x_to_close = [], x_conns = [], x_current_key = 0, x_feeding = False,
          x_max_flows = mf, x_max_blocked = mb', x_block_ring = replicate mb' 0,
          x_block_next = 0, x_lastSweep = 0, x_flows = 0, x_blocked = 0, x_dropped_at_cap = 0,
          x_decided = [], x_asked = []\<rparr>)"

definition publish :: "'r extractor \<Rightarrow> 'r extractor" where
  "publish s = s\<lparr>x_flows := length (x_conns s)\<rparr>"

definition decide :: "Packet \<Rightarrow> Verdict \<Rightarrow> 'r extractor \<Rightarrow> 'r extractor" where
  "decide pkt v s = s\<lparr>x_decided := x_decided s @ [\<lparr>dc_pkt = pkt, dc_verdict = v\<rparr>]\<rparr>"

text \<open>\<^verbatim>\<open>find\<close>, \<^verbatim>\<open>erase\<close> and assignment through a reference into the table.\<close>

abbreviation find_conn :: "'r extractor \<Rightarrow> u32 \<Rightarrow> Conn option" where
  "find_conn s k \<equiv> map_of (x_conns s) k"

definition put_conn :: "u32 \<Rightarrow> Conn \<Rightarrow> 'r extractor \<Rightarrow> 'r extractor" where
  "put_conn k c s = s\<lparr>x_conns := AList.update k c (x_conns s)\<rparr>"

definition erase_conn :: "u32 \<Rightarrow> 'r extractor \<Rightarrow> 'r extractor" where
  "erase_conn k s = s\<lparr>x_conns := AList.delete k (x_conns s)\<rparr>"

text \<open>An indexed load from the ring, and the index step modulo its size.\<close>

definition ring_at :: "'r extractor \<Rightarrow> u32 option" where
  "ring_at s =
     (if x_block_next s < length (x_block_ring s)
      then Some (x_block_ring s ! x_block_next s) else None)"

definition ring_store :: "u32 \<Rightarrow> 'r extractor \<Rightarrow> 'r extractor option" where
  "ring_store k s =
     (if x_block_next s < length (x_block_ring s) \<and> x_max_blocked s \<noteq> 0
      then Some (s\<lparr>x_block_ring := (x_block_ring s)[x_block_next s := k],
                   x_block_next := (x_block_next s + 1) mod x_max_blocked s\<rparr>)
      else None)"

section \<open>The ring of blocked flows\<close>

definition remember_blocked :: "u32 \<Rightarrow> 'r extractor \<Rightarrow> 'r extractor option" where
  "remember_blocked key s = do {
     victim \<leftarrow> ring_at s;
     let s' = (if victim \<noteq> 0 \<and> victim \<noteq> key then
                 (case find_conn s victim of
                    Some c \<Rightarrow> if cn_state c = Block then publish (erase_conn victim s) else s
                  | None \<Rightarrow> s)
               else s);
     ring_store key s'
   }"

text \<open>The loop of \<^verbatim>\<open>evict_oldest_blocked\<close>, over the turns that are left.\<close>

fun evict_turns :: "nat \<Rightarrow> 'r extractor \<Rightarrow> (bool \<times> 'r extractor) option" where
  "evict_turns 0 s = Some (False, s)"
| "evict_turns (Suc n) s = do {
     victim \<leftarrow> ring_at s;
     s' \<leftarrow> ring_store 0 s;
     if victim = 0 then evict_turns n s'
     else (case find_conn s' victim of
             Some c \<Rightarrow>
               if cn_state c = Block then Some (True, publish (erase_conn victim s'))
               else evict_turns n s'
           | None \<Rightarrow> evict_turns n s')
   }"

definition evict_oldest_blocked :: "'r extractor \<Rightarrow> (bool \<times> 'r extractor) option" where
  "evict_oldest_blocked s = evict_turns (x_max_blocked s) s"

section \<open>Resolving a flow\<close>

definition resolve :: "'r world \<Rightarrow> u32 \<Rightarrow> string option \<Rightarrow> 'r extractor \<Rightarrow> 'r extractor option" where
  "resolve W key hostname s =
     (case find_conn s key of
        None \<Rightarrow> Some s
      | Some c \<Rightarrow>
          if cn_state c = Block then Some s
          else do {
            let v = w_decide W hostname;
            let s0 = s\<lparr>x_asked := x_asked s @ [hostname]\<rparr>;
            let held = cn_held c;
            let token = cn_pcpp_key c;
            let closed = cn_pcpp_closed c;
            s1 \<leftarrow> (if v = BLOCK
                   then remember_blocked key
                          (put_conn key (c\<lparr>cn_state := Block, cn_held := [], cn_stream := []\<rparr>) s0)
                   else Some (erase_conn key s0));
            let s2 = (if token \<noteq> 0 \<and> \<not> closed
                      then s1\<lparr>x_to_close := x_to_close s1 @ [token]\<rparr> else s1);
            Some (foldl (\<lambda>t p. decide p v t) s2 held)
          })"

section \<open>Callbacks of the reassembler\<close>

definition onConnectionStart :: "u32 \<Rightarrow> 'r extractor \<Rightarrow> 'r extractor option" where
  "onConnectionStart flowKey s =
     (if \<not> x_feeding s then Some s
      else (case find_conn s (x_current_key s) of
              None \<Rightarrow> Some s
            | Some c \<Rightarrow> Some (put_conn (x_current_key s) (c\<lparr>cn_pcpp_key := flowKey\<rparr>) s)))"

definition onMessageReady ::
    "'r world \<Rightarrow> int \<Rightarrow> u32 \<Rightarrow> bytes \<Rightarrow> 'r extractor \<Rightarrow> 'r extractor option" where
  "onMessageReady W side flowKey data s =
     (if \<not> x_feeding s then Some s
      else if side \<noteq> kClientSide then Some s
      else (case find_conn s (x_current_key s) of
              None \<Rightarrow> Some s
            | Some c \<Rightarrow>
                if cn_state c \<noteq> Wait then Some s
                else do {
                  let key = x_current_key s;
                  let c' = c\<lparr>cn_pcpp_key := flowKey, cn_stream := cn_stream c @ data\<rparr>;
                  let s' = put_conn key c' s;
                  r \<leftarrow> extractHostname (cn_stream c') (length (cn_stream c') mod U32_SPAN);
                  case r of
                    Found (hs, host, host_len) \<Rightarrow> do {
                      name \<leftarrow> byte_slice hs host host_len;
                      resolve W key (Some (string_of_bytes name)) s'
                    }
                  | NotFound \<Rightarrow> resolve W key None s'
                  | NeedMore \<Rightarrow>
                      if length (cn_stream c') > kMaxStreamBytes then resolve W key None s'
                      else Some s'
                }))"

definition onConnectionEnd :: "'r world \<Rightarrow> 'r extractor \<Rightarrow> 'r extractor option" where
  "onConnectionEnd W s =
     (if \<not> x_feeding s then Some s
      else (case find_conn s (x_current_key s) of
              None \<Rightarrow> Some s
            | Some c \<Rightarrow>
                resolve W (x_current_key s) None
                  (put_conn (x_current_key s) (c\<lparr>cn_pcpp_closed := True\<rparr>) s)))"

fun on_event :: "'r world \<Rightarrow> pcpp_event \<Rightarrow> 'r extractor \<Rightarrow> 'r extractor option" where
  "on_event W (ConnectionStart k) s = onConnectionStart k s"
| "on_event W (MessageReady side k data) s = onMessageReady W side k data s"
| "on_event W ConnectionEnd s = onConnectionEnd W s"

text \<open>A call into the library: its new state, then the callbacks it fires.\<close>

definition pcpp_call ::
    "'r world \<Rightarrow> ('r \<Rightarrow> 'r \<times> pcpp_event list) \<Rightarrow> 'r extractor \<Rightarrow> 'r extractor option" where
  "pcpp_call W call s =
     (let (r, evs) = call (x_reassembly s)
      in mfold (on_event W) evs (s\<lparr>x_reassembly := r\<rparr>))"

section \<open>Idle sweep and shutdown\<close>

definition drain_closes :: "'r world \<Rightarrow> 'r extractor \<Rightarrow> 'r extractor option" where
  "drain_closes W s = do {
     s' \<leftarrow> mfold (\<lambda>token t. pcpp_call W (\<lambda>r. w_close W r token) t) (x_to_close s) s;
     Some (s'\<lparr>x_to_close := []\<rparr>)
   }"

text \<open>The entries of the table in the order a range-based \<^verbatim>\<open>for\<close> visits them.\<close>

definition visit :: "'r world \<Rightarrow> 'r extractor \<Rightarrow> (u32 \<times> Conn) list" where
  "visit W s =
     List.map_filter (\<lambda>k. map_option (Pair k) (find_conn s k)) (w_traverse W (map fst (x_conns s)))"

definition idle_limit :: "Conn \<Rightarrow> int" where
  "idle_limit c = (if cn_state c = Block then kBlockIdleTimeout else kWaitIdleTimeout)"

definition expire :: "'r world \<Rightarrow> u32 \<Rightarrow> 'r extractor \<Rightarrow> 'r extractor option" where
  "expire W key s =
     (case find_conn s key of
        None \<Rightarrow> Some s
      | Some c \<Rightarrow> if cn_state c = Block then Some (erase_conn key s) else resolve W key None s)"

definition sweep :: "'r world \<Rightarrow> int \<Rightarrow> 'r extractor \<Rightarrow> 'r extractor option" where
  "sweep W now s = do {
     let entries = visit W s;
     let blocked = length (filter (\<lambda>(k, c). cn_state c = Block) entries);
     let expired = map fst (filter (\<lambda>(k, c). now - cn_last c \<ge> idle_limit c) entries);
     s1 \<leftarrow> mfold (expire W) expired (s\<lparr>x_blocked := blocked\<rparr>);
     s2 \<leftarrow> pcpp_call W (w_purge W) s1;
     s3 \<leftarrow> drain_closes W s2;
     Some (publish s3)
   }"

definition tick :: "'r world \<Rightarrow> int \<Rightarrow> 'r extractor \<Rightarrow> 'r extractor option" where
  "tick W now s =
     (if now - x_lastSweep s < kSweepInterval then Some s
      else sweep W now (s\<lparr>x_lastSweep := now\<rparr>))"

definition flush :: "'r world \<Rightarrow> 'r extractor \<Rightarrow> 'r extractor option" where
  "flush W s = do {
     let waiting = map fst (filter (\<lambda>(k, c). cn_state c = Wait) (visit W s));
     s1 \<leftarrow> mfold (\<lambda>key t. resolve W key None t) waiting s;
     s2 \<leftarrow> drain_closes W (s1\<lparr>x_conns := []\<rparr>);
     Some (publish s2)
   }"

section \<open>The packet path\<close>

text \<open>
  Making room in a full table: a rate-limited sweep, then the oldest blocked flow.
\<close>

definition make_room :: "'r world \<Rightarrow> int \<Rightarrow> 'r extractor \<Rightarrow> 'r extractor option" where
  "make_room W now s = do {
     s1 \<leftarrow> (if now - x_lastSweep s \<ge> kSweepInterval
            then sweep W now (s\<lparr>x_lastSweep := now\<rparr>) else Some s);
     if length (x_conns s1) \<ge> x_max_flows s1
     then map_option snd (evict_oldest_blocked s1) else Some s1
   }"

text \<open>The bytes the flow view's payload pointer designates.\<close>

definition payload_of :: "Packet \<Rightarrow> FlowView \<Rightarrow> bytes" where
  "payload_of pkt f =
     (case packet_data pkt of
        Some b \<Rightarrow> (case fv_payload f of Some off \<Rightarrow> drop off b | None \<Rightarrow> [])
      | None \<Rightarrow> [])"

text \<open>
  The part of \<^verbatim>\<open>feed\<close> for a flow with no entry: \<open>Inl\<close> when the packet was decided on
  the spot, \<open>Inr\<close> when the flow is now in the table.
\<close>

definition start_tracking ::
    "'r world \<Rightarrow> int \<Rightarrow> FlowView \<Rightarrow> Packet \<Rightarrow> 'r extractor \<Rightarrow> ('r extractor + 'r extractor) option" where
  "start_tracking W now f pkt s = do {
     opens \<leftarrow> (if isClientSyn f then Some True
               else opensTlsHandshake (payload_of pkt f) (fv_payload_len f));
     if \<not> opens then Some (Inl (decide pkt ALLOW s))
     else if length (x_conns s) \<ge> x_max_flows s then do {
       s1 \<leftarrow> make_room W now s;
       if length (x_conns s1) \<ge> x_max_flows s1
       then Some (Inl (decide pkt ALLOW (s1\<lparr>x_dropped_at_cap := x_dropped_at_cap s1 + 1\<rparr>)))
       else Some (Inr (put_conn (fv_key f) Conn0 s1))
     }
     else Some (Inr (put_conn (fv_key f) Conn0 s))
   }"

text \<open>Handing the packet to the reassembler with the callbacks enabled.\<close>

definition reassemble :: "'r world \<Rightarrow> u32 \<Rightarrow> bytes \<Rightarrow> 'r extractor \<Rightarrow> 'r extractor option" where
  "reassemble W key raw s = do {
     s1 \<leftarrow> pcpp_call W (\<lambda>r. w_reassemble W r raw) (s\<lparr>x_current_key := key, x_feeding := True\<rparr>);
     drain_closes W (s1\<lparr>x_feeding := False\<rparr>)
   }"

text \<open>\<^verbatim>\<open>held.back().release_bytes()\<close> on the entry that is still there.\<close>

definition release_last :: "u32 \<Rightarrow> 'r extractor \<Rightarrow> 'r extractor" where
  "release_last key s =
     (case find_conn s key of
        None \<Rightarrow> s
      | Some c \<Rightarrow>
          if cn_held c = [] then s
          else put_conn key
                 (c\<lparr>cn_held := butlast (cn_held c) @ [release_bytes (last (cn_held c))]\<rparr>) s)"

text \<open>The part of \<^verbatim>\<open>feed\<close> for an undecided flow that is in the table.\<close>

definition feed_tracked ::
    "'r world \<Rightarrow> int \<Rightarrow> FlowView \<Rightarrow> Packet \<Rightarrow> 'r extractor \<Rightarrow> 'r extractor option" where
  "feed_tracked W now f pkt s0 =
     (case find_conn s0 (fv_key f) of
        None \<Rightarrow> None
      | Some c0 \<Rightarrow>
          let key = fv_key f;
              c = c0\<lparr>cn_last := now\<rparr>;
              s = put_conn key c s0;
              hold = (fv_payload_len f > 0)
          in
          if length (cn_held c) \<ge> kMaxPacketsPerConn then do {
            s1 \<leftarrow> resolve W key None s;
            Some (decide pkt ALLOW s1)
          }
          else if \<not> hold \<and> fv_tcp_flags f AND (kTcpSyn OR kTcpFin OR kTcpRst) = 0
          then Some (decide pkt ALLOW s)
          else do {
            raw \<leftarrow> packet_data pkt;
            let s1 = (if hold then put_conn key (c\<lparr>cn_held := cn_held c @ [pkt]\<rparr>) s else s);
            s2 \<leftarrow> reassemble W key (take (pk_len pkt) raw) s1;
            Some (if hold then release_last key s2 else decide pkt ALLOW s2)
          })"

definition feed :: "'r world \<Rightarrow> int \<Rightarrow> Packet \<Rightarrow> 'r extractor \<Rightarrow> 'r extractor option" where
  "feed W now pkt s = do {
     s0 \<leftarrow> tick W now s;
     (ok, f) \<leftarrow> (if has_bytes pkt then flow_view pkt else Some (False, FlowView0));
     s' \<leftarrow>
       (if \<not> ok \<or> fv_ip_proto f \<noteq> kProtoTcp then Some (decide pkt ALLOW s0)
        else (case find_conn s0 (fv_key f) of
                Some c \<Rightarrow>
                  if cn_state c = Block
                  then Some (decide pkt BLOCK (put_conn (fv_key f) (c\<lparr>cn_last := now\<rparr>) s0))
                  else feed_tracked W now f pkt s0
              | None \<Rightarrow> do {
                  t \<leftarrow> start_tracking W now f pkt s0;
                  case t of Inl s1 \<Rightarrow> Some s1 | Inr s1 \<Rightarrow> feed_tracked W now f pkt s1
                }));
     Some (publish s')
   }"

end
