(* ===== verification/Blocklist.thy ===== *)
theory Blocklist
  imports Packet_Object "HOL-Library.Sublist"
begin

text \<open>
  \<^verbatim>\<open>BlockList\<close> of \<^verbatim>\<open>include/blocklist.hpp\<close> and \<^verbatim>\<open>src/blocklist.cpp\<close>: loading
  the text file and the lookup that walks the parent domains of a host name. The lookup
  is shown equal to a specification that mentions neither positions nor loops, and the
  loader is characterised line by line.
\<close>

section \<open>Data\<close>

record BlockList =
  bl_exact :: "string list"
  bl_wildcard :: "string list"

definition BlockList0 :: BlockList where
  "BlockList0 = \<lparr>bl_exact = [], bl_wildcard = []\<rparr>"

section \<open>Operations\<close>

text \<open>\<^verbatim>\<open>std::isspace\<close> in the C locale.\<close>

definition isspace :: "char \<Rightarrow> bool" where
  "isspace c \<longleftrightarrow> of_char c \<in> {0x20, 0x09, 0x0a, 0x0b, 0x0c, 0x0d :: nat}"

definition parse_line :: "string \<Rightarrow> string" where
  "parse_line line = filter (\<lambda>c. \<not> isspace c) line"

text \<open>
  The lines successive \<^verbatim>\<open>std::getline\<close> calls yield: each takes the characters up to
  the next newline, which it discards; at the end of the text there is no further line.
\<close>

lemma rest_shorter: "content \<noteq> [] \<Longrightarrow> length (drop 1 (dropWhile P content)) < length content"
  using length_dropWhile_le [of P content] by (cases content) auto

function getlines :: "string \<Rightarrow> string list" where
  "getlines content =
     (if content = [] then []
      else takeWhile (\<lambda>c. c \<noteq> CHR 0x0a) content #
           getlines (drop 1 (dropWhile (\<lambda>c. c \<noteq> CHR 0x0a) content)))"
  by pat_completeness auto
termination
  by (relation "measure length") (use rest_shorter in \<open>auto\<close>)

declare getlines.simps [simp del]

text \<open>\<^verbatim>\<open>unordered_set::insert\<close> and \<^verbatim>\<open>emplace\<close> keep an element that is already there.\<close>

definition insert_host :: "string \<Rightarrow> string list \<Rightarrow> string list" where
  "insert_host h hs = (if h \<in> set hs then hs else hs @ [h])"

definition add_line :: "BlockList \<Rightarrow> string \<Rightarrow> BlockList" where
  "add_line bl raw =
     (let line = parse_line raw in
      if line = [] \<or> hd line = CHR ''#'' then bl
      else if length line > 2 \<and> line ! 0 = CHR ''*'' \<and> line ! 1 = CHR ''.''
      then bl\<lparr>bl_wildcard := insert_host (drop 2 line) (bl_wildcard bl)\<rparr>
      else bl\<lparr>bl_exact := insert_host line (bl_exact bl)\<rparr>)"

text \<open>
  The constructor: \<open>None\<close> is the exception \<^verbatim>\<open>open\<close> throws, \<open>Some text\<close> the content
  of the file.
\<close>

definition load_blocklist :: "string option \<Rightarrow> BlockList option" where
  "load_blocklist file =
     (case file of
        None \<Rightarrow> None
      | Some content \<Rightarrow> Some (foldl add_line BlockList0 (getlines content)))"

text \<open>\<^verbatim>\<open>hostname.find('.', from)\<close>: the first dot at or after a position.\<close>

fun find_dot :: "string \<Rightarrow> nat option" where
  "find_dot [] = None"
| "find_dot (c # cs) = (if c = CHR ''.'' then Some 0 else map_option Suc (find_dot cs))"

definition find_dot_from :: "string \<Rightarrow> nat \<Rightarrow> nat option" where
  "find_dot_from h start = map_option (\<lambda>i. start + i) (find_dot (drop start h))"

lemma find_dot_bound: "find_dot cs = Some i \<Longrightarrow> i < length cs \<and> cs ! i = CHR ''.''"
  by (induction cs arbitrary: i) (auto split: if_splits)

lemma find_dot_from_bound:
  "find_dot_from h k = Some i \<Longrightarrow> k \<le> i \<and> i < length h \<and> h ! i = CHR ''.''"
  by (auto simp: find_dot_from_def dest!: find_dot_bound)

text \<open>The \<^verbatim>\<open>for\<close> loop over the dots; the argument is the position to search from.\<close>

function parent_walk :: "string list \<Rightarrow> string \<Rightarrow> nat \<Rightarrow> bool" where
  "parent_walk wild h start =
     (case find_dot_from h start of
        None \<Rightarrow> False
      | Some dot \<Rightarrow>
          let suffix = drop (dot + 1) h in
          if suffix = [] then False
          else if suffix \<in> set wild then True
          else parent_walk wild h (dot + 1))"
  by pat_completeness auto
termination
  by (relation "measure (\<lambda>(wild, h, start). length h - start)")
    (auto dest!: find_dot_from_bound)

declare parent_walk.simps [simp del]

definition isHostnameBlocked :: "BlockList \<Rightarrow> string \<Rightarrow> bool" where
  "isHostnameBlocked bl h \<longleftrightarrow> h \<in> set (bl_exact bl) \<or> parent_walk (bl_wildcard bl) h 0"

section \<open>The lookup\<close>

text \<open>The walk finds exactly the wildcard suffixes that follow a dot.\<close>

lemma find_dot_first: "find_dot (pre @ CHR ''.'' # suf) = Some k \<Longrightarrow> k \<le> length pre"
  by (induction pre arbitrary: k) (auto split: if_splits)

lemma find_dot_some: "find_dot (pre @ CHR ''.'' # suf) \<noteq> None"
  by (induction pre) auto

lemma find_dot_from_first:
  assumes "h = pre @ CHR ''.'' # suf" "start \<le> length pre"
  obtains dot where "find_dot_from h start = Some dot" "start \<le> dot" "dot \<le> length pre"
proof -
  have d: "drop start h = drop start pre @ CHR ''.'' # suf" using assms by simp
  then obtain k where k: "find_dot (drop start h) = Some k"
    using find_dot_some [of "drop start pre" suf] by auto
  with d have "k \<le> length (drop start pre)" using find_dot_first by metis
  with k assms(2) show ?thesis by (intro that [of "start + k"]) (auto simp: find_dot_from_def)
qed

lemma parent_walk_sound:
  "parent_walk wild h start \<Longrightarrow> \<exists>pre suf. h = pre @ CHR ''.'' # suf \<and> suf \<noteq> [] \<and> suf \<in> set wild"
proof (induction wild h start rule: parent_walk.induct)
  case (1 wild h start)
  from "1.prems" obtain dot where dot: "find_dot_from h start = Some dot" "drop (dot + 1) h \<noteq> []"
    "drop (dot + 1) h \<in> set wild \<or> parent_walk wild h (dot + 1)"
    by (subst (asm) parent_walk.simps) (auto simp: Let_def split: option.splits if_splits)
  show ?case
  proof (cases "drop (dot + 1) h \<in> set wild")
    case True
    have "h = take dot h @ CHR ''.'' # drop (dot + 1) h"
      using find_dot_from_bound [OF dot(1)] id_take_nth_drop [of dot h] by simp
    with True dot(2) show ?thesis by blast
  next
    case False
    with dot "1.IH" [OF dot(1) refl] show ?thesis by simp
  qed
qed

lemma parent_walk_complete:
  "h = pre @ CHR ''.'' # suf \<Longrightarrow> suf \<noteq> [] \<Longrightarrow> suf \<in> set wild \<Longrightarrow> start \<le> length pre \<Longrightarrow>
   parent_walk wild h start"
proof (induction wild h start rule: parent_walk.induct)
  case (1 wild h start)
  obtain dot where dot: "find_dot_from h start = Some dot" "dot \<le> length pre"
    using find_dot_from_first [OF "1.prems"(1,4)] by blast
  show ?case
  proof (cases "dot = length pre")
    case True
    with dot(1) "1.prems" show ?thesis by (subst parent_walk.simps) (simp add: Let_def)
  next
    case False
    with dot have "dot < length pre" by simp
    then have "drop (dot + 1) h \<noteq> []" using "1.prems"(1) by simp
    moreover have "drop (dot + 1) h \<notin> set wild \<Longrightarrow> parent_walk wild h (dot + 1)"
      using "1.IH" [OF dot(1) refl] \<open>dot < length pre\<close> "1.prems" \<open>drop (dot + 1) h \<noteq> []\<close> by simp
    ultimately show ?thesis
      using dot(1) by (subst parent_walk.simps) (simp add: Let_def)
  qed
qed

text \<open>What the two sets of entries block, with no walk in sight.\<close>

definition blocked_spec :: "string set \<Rightarrow> string set \<Rightarrow> string \<Rightarrow> bool" where
  "blocked_spec exact wild h \<longleftrightarrow>
     h \<in> exact \<or> (\<exists>pre suf. h = pre @ CHR ''.'' # suf \<and> suf \<noteq> [] \<and> suf \<in> wild)"

lemma blocked_spec_insert:
  "blocked_spec (insert e exact) wild h \<longleftrightarrow> blocked_spec exact wild h \<or> h = e"
  "suf \<noteq> [] \<Longrightarrow> blocked_spec exact (insert suf wild) h \<longleftrightarrow>
     blocked_spec exact wild h \<or> (\<exists>pre. h = pre @ CHR ''.'' # suf)"
  unfolding blocked_spec_def by blast+

lemma isHostnameBlocked_spec:
  "isHostnameBlocked bl h \<longleftrightarrow> blocked_spec (set (bl_exact bl)) (set (bl_wildcard bl)) h"
proof -
  have "parent_walk (bl_wildcard bl) h 0 \<longleftrightarrow>
      (\<exists>pre suf. h = pre @ CHR ''.'' # suf \<and> suf \<noteq> [] \<and> suf \<in> set (bl_wildcard bl))"
    using parent_walk_sound parent_walk_complete [where start = 0] by blast
  then show ?thesis by (simp add: isHostnameBlocked_def blocked_spec_def)
qed

section \<open>The file\<close>

lemma set_insert_host [simp]: "set (insert_host h hs) = insert h (set hs)"
  by (auto simp: insert_host_def)

lemma distinct_insert_host: "distinct hs \<Longrightarrow> distinct (insert_host h hs)"
  by (simp add: insert_host_def)

text \<open>What a line of the file stands for.\<close>

definition is_entry :: "string \<Rightarrow> bool" where
  "is_entry l \<longleftrightarrow> l \<noteq> [] \<and> hd l \<noteq> CHR ''#''"

definition is_wildcard :: "string \<Rightarrow> bool" where
  "is_wildcard l \<longleftrightarrow> (\<exists>suf. suf \<noteq> [] \<and> l = ''*.'' @ suf)"

definition line_blocks :: "string \<Rightarrow> string \<Rightarrow> bool" where
  "line_blocks raw h \<longleftrightarrow>
     (let l = parse_line raw in
      is_entry l \<and> (if is_wildcard l then \<exists>pre. h = pre @ CHR ''.'' # drop 2 l else h = l))"

lemma wildcard_test:
  "length l > 2 \<and> l ! 0 = CHR ''*'' \<and> l ! 1 = CHR ''.'' \<longleftrightarrow> is_wildcard l"
proof
  assume a: "length l > 2 \<and> l ! 0 = CHR ''*'' \<and> l ! 1 = CHR ''.''"
  then obtain x y z where "l = x # y # z" "z \<noteq> []"
    by (cases l; cases "tl l") auto
  with a show "is_wildcard l" by (auto simp: is_wildcard_def)
qed (auto simp: is_wildcard_def)

lemma add_line_blocks:
  "isHostnameBlocked (add_line bl raw) h \<longleftrightarrow> isHostnameBlocked bl h \<or> line_blocks raw h"
proof -
  let ?l = "parse_line raw"
  show ?thesis
  proof (cases "is_entry ?l \<and> is_wildcard ?l")
    case True
    then have "drop 2 ?l \<noteq> []" by (auto simp: is_wildcard_def)
    with True show ?thesis
      unfolding isHostnameBlocked_spec add_line_def wildcard_test
      by (simp add: blocked_spec_insert is_entry_def line_blocks_def Let_def del: drop_eq_Nil)
  next
    case False
    then show ?thesis
      unfolding isHostnameBlocked_spec add_line_def wildcard_test
      by (auto simp: blocked_spec_insert is_entry_def line_blocks_def Let_def)
  qed
qed

section \<open>Lists built entry by entry\<close>

text \<open>
  The contract between the loader and the lookup: an empty list matches nothing, and
  adding a line adds exactly what the line matches. Everything a client needs to know
  about a loaded list follows from it.
\<close>

locale host_matcher =
  fixes empty :: 'b
    and add :: "'b \<Rightarrow> 'l \<Rightarrow> 'b"
    and blocked :: "'b \<Rightarrow> 'h \<Rightarrow> bool"
    and matches :: "'l \<Rightarrow> 'h \<Rightarrow> bool"
  assumes blocked_empty: "\<not> blocked empty h"
    and blocked_add: "blocked (add b l) h \<longleftrightarrow> blocked b h \<or> matches l h"
begin

lemma blocked_foldl: "blocked (foldl add b ls) h \<longleftrightarrow> blocked b h \<or> (\<exists>l \<in> set ls. matches l h)"
  by (induction ls arbitrary: b) (auto simp: blocked_add)

lemma blocked_lines: "blocked (foldl add empty ls) h \<longleftrightarrow> (\<exists>l \<in> set ls. matches l h)"
  by (simp add: blocked_foldl blocked_empty)

lemma blocked_mono:
  "set ls \<subseteq> set ms \<Longrightarrow> blocked (foldl add empty ls) h \<Longrightarrow> blocked (foldl add empty ms) h"
  by (auto simp: blocked_lines)

lemma blocked_order: "set ls = set ms \<Longrightarrow> blocked (foldl add empty ls) = blocked (foldl add empty ms)"
  by (auto simp: blocked_lines fun_eq_iff)

end

interpretation bl: host_matcher BlockList0 add_line isHostnameBlocked line_blocks
proof
  show "\<not> isHostnameBlocked BlockList0 h" for h
    by (simp add: isHostnameBlocked_spec blocked_spec_def BlockList0_def)
qed (rule add_line_blocks)

lemma load_blocklist_blocks:
  "load_blocklist (Some content) = Some b \<Longrightarrow>
   isHostnameBlocked b h \<longleftrightarrow> (\<exists>raw \<in> set (getlines content). line_blocks raw h)"
  by (auto simp: load_blocklist_def bl.blocked_lines)

text \<open>A text written one line at a time is read back line by line.\<close>

lemma getlines_join:
  "list_all (\<lambda>l. CHR 0x0a \<notin> set l) ls \<Longrightarrow>
   getlines (concat (map (\<lambda>l. l @ [CHR 0x0a]) ls)) = ls"
proof (induction ls)
  case Nil
  then show ?case by (subst getlines.simps) simp
next
  case (Cons l ls)
  let ?rest = "concat (map (\<lambda>l. l @ [CHR 0x0a]) ls)"
  have nl: "CHR 0x0a \<notin> set l" using Cons.prems by simp
  have tw: "takeWhile (\<lambda>c. c \<noteq> CHR 0x0a) (l @ CHR 0x0a # ?rest) = l"
    by (rule takeWhile_append2 [THEN trans]) (use nl in auto)
  have dw: "dropWhile (\<lambda>c. c \<noteq> CHR 0x0a) (l @ CHR 0x0a # ?rest) = CHR 0x0a # ?rest"
    by (rule dropWhile_append2 [THEN trans]) (use nl in auto)
  show ?case
    using Cons tw dw by (subst getlines.simps) simp
qed

end
