(* ===== verification/Worker.thy ===== *)
theory Worker
  imports NF_Queue Extractor Blocklist
begin

text \<open>
  The \<^verbatim>\<open>Worker\<close> class of \<^verbatim>\<open>include/worker.hpp\<close> and \<^verbatim>\<open>src/worker.cpp\<close>: one queue, one
  extractor and the thread that drives both. The extractor is reached through the
  operations of the abstract class \<^verbatim>\<open>HostnameExtractor\<close>, here a record of functions,
  and \<open>TcpTlsHostnameExtractor\<close> is the record of the model's own operations.
\<close>

section \<open>The extractor's interface\<close>

record 'x HostnameExtractor =
  he_feed :: "int \<Rightarrow> Packet \<Rightarrow> 'x \<Rightarrow> 'x option"
  he_tick :: "int \<Rightarrow> 'x \<Rightarrow> 'x option"
  he_flush :: "'x \<Rightarrow> 'x option"
  he_decided :: "'x \<Rightarrow> Decided list"
  he_clear :: "'x \<Rightarrow> 'x"

definition TcpTlsHostnameExtractor :: "'r world \<Rightarrow> 'r extractor HostnameExtractor" where
  "TcpTlsHostnameExtractor W = \<lparr>he_feed = feed W, he_tick = tick W, he_flush = flush W,
     he_decided = x_decided, he_clear = (\<lambda>x. x\<lparr>x_decided := []\<rparr>)\<rparr>"

lemma TcpTlsHostnameExtractor_simps [simp]:
  "he_feed (TcpTlsHostnameExtractor W) = feed W" "he_tick (TcpTlsHostnameExtractor W) = tick W"
  "he_flush (TcpTlsHostnameExtractor W) = flush W"
  "he_decided (TcpTlsHostnameExtractor W) x = x_decided x"
  "he_clear (TcpTlsHostnameExtractor W) x = x\<lparr>x_decided := []\<rparr>"
  by (simp_all add: TcpTlsHostnameExtractor_def)

section \<open>Policy\<close>

definition policy :: "BlockList \<Rightarrow> string option \<Rightarrow> Verdict" where
  "policy blocklist hostname =
     (case hostname of
        Some h \<Rightarrow> if isHostnameBlocked blocklist h then BLOCK else ALLOW
      | None \<Rightarrow> ALLOW)"

text \<open>The line the policy writes under \<^verbatim>\<open>-v\<close>, for a flow that has a host name.\<close>

definition policy_log :: "BlockList \<Rightarrow> bool \<Rightarrow> string option \<Rightarrow> string list" where
  "policy_log blocklist verbose hostname =
     (case hostname of
        Some h \<Rightarrow>
          if verbose
          then [(if policy blocklist hostname = BLOCK then ''BLOCK '' else ''ALLOW '') @ h @ [CHR 0x0A]]
          else []
      | None \<Rightarrow> [])"

section \<open>The worker\<close>

record worker_config =
  wc_id :: int
  wc_queue_num :: u16
  wc_passthrough :: bool
  wc_pin_cpu :: int

type_synonym 'x worker = "NFQueue \<times> 'x"

text \<open>The callback the queue runs for each packet, on the worker's thread.\<close>

definition worker_callback ::
    "kernel \<Rightarrow> 'x HostnameExtractor \<Rightarrow> bool \<Rightarrow> int \<Rightarrow> 'x callback" where
  "worker_callback K E passthrough now pkt s =
     (let (q, x) = s in
      if passthrough then
        let (pkt', q') = submit K pkt ALLOW q in Some (pkt', q', x)
      else do {
        let (arg, husk) = move_packet pkt;
        x' \<leftarrow> he_feed E now arg x;
        Some (husk, q, x')
      })"

definition drain_decided :: "kernel \<Rightarrow> 'x HostnameExtractor \<Rightarrow> 'x worker \<Rightarrow> 'x worker" where
  "drain_decided K E s =
     (let (q, x) = s;
          q' = foldl (\<lambda>q d. snd (submit K (dc_pkt d) (dc_verdict d) q)) q (he_decided E x)
      in (q', he_clear E x))"

text \<open>
  One pass through the body of \<^verbatim>\<open>loop\<close>: the first result says whether the loop was
  left, and then the code after the loop has run as well.
\<close>

definition shutdown :: "kernel \<Rightarrow> 'x HostnameExtractor \<Rightarrow> 'x worker \<Rightarrow> 'x worker option" where
  "shutdown K E s = do {
     let (q, x) = s;
     x' \<leftarrow> he_flush E x;
     Some (drain_decided K E (q, x'))
   }"

definition worker_turn ::
    "kernel \<Rightarrow> 'x HostnameExtractor \<Rightarrow> bool \<Rightarrow> turn \<Rightarrow> 'x worker \<Rightarrow> (bool \<times> 'x worker) option" where
  "worker_turn K E passthrough t s = do {
     (ev, q, x) \<leftarrow> run_once K (worker_callback K E passthrough) t s;
     if ev = Stop \<or> ev = Error then map_option (Pair True) (shutdown K E (q, x))
     else do {
       x' \<leftarrow> he_tick E (t_now t) x;
       Some (False, drain_decided K E (q, x'))
     }
   }"

text \<open>The loop over the turns that happen; \<open>True\<close> once it has been left.\<close>

fun worker_loop ::
    "kernel \<Rightarrow> 'x HostnameExtractor \<Rightarrow> bool \<Rightarrow> turn list \<Rightarrow> 'x worker \<Rightarrow> (bool \<times> 'x worker) option" where
  "worker_loop K E passthrough [] s = Some (False, s)"
| "worker_loop K E passthrough (t # ts) s = do {
     (left, s') \<leftarrow> worker_turn K E passthrough t s;
     if left then Some (True, s') else worker_loop K E passthrough ts s'
   }"

definition new_Worker ::
    "kernel \<Rightarrow> 'r \<Rightarrow> worker_config \<Rightarrow> int \<Rightarrow> u32 \<Rightarrow> int \<Rightarrow> nat \<Rightarrow> nat \<Rightarrow>
     (system_error + 'r extractor worker) \<times> nfq_call list" where
  "new_Worker K r cfg stop_fd queue_maxlen recv_buf_bytes max_flows max_blocked =
     (case new_NFQueue K (wc_queue_num cfg) stop_fd queue_maxlen recv_buf_bytes of
        (Inl e, calls) \<Rightarrow> (Inl e, calls)
      | (Inr q, calls) \<Rightarrow> (Inr (q, new_extractor r max_flows max_blocked), calls))"

text \<open>The environment of a worker whose policy looks up this block list.\<close>

definition inspecting :: "'r world \<Rightarrow> BlockList \<Rightarrow> 'r world" where
  "inspecting W blocklist = W\<lparr>w_decide := policy blocklist\<rparr>"

section \<open>Thread handle\<close>

text \<open>
  \<^verbatim>\<open>start\<close> and \<^verbatim>\<open>join\<close> on the thread member: whether it is joinable, and how often a
  thread was spawned.
\<close>

record thread_handle =
  th_joinable :: bool
  th_spawned :: nat

definition start :: "thread_handle \<Rightarrow> thread_handle" where
  "start th = (if th_joinable th then th
     else th\<lparr>th_joinable := True, th_spawned := th_spawned th + 1\<rparr>)"

definition join :: "thread_handle \<Rightarrow> thread_handle" where
  "join th = (if th_joinable th then th\<lparr>th_joinable := False\<rparr> else th)"

text \<open>The destructor joins, so that the thread member is never destroyed while it runs.\<close>

definition delete_Worker :: "thread_handle \<Rightarrow> thread_handle" where
  "delete_Worker th = join th"

text \<open>The CPU to pin to and the warning when pinning fails.\<close>

definition pin_warning :: "(int \<Rightarrow> string) \<Rightarrow> (int \<Rightarrow> string) \<Rightarrow> worker_config \<Rightarrow> int \<Rightarrow> string option" where
  "pin_warning show strerror cfg rc =
     (if wc_pin_cpu cfg \<ge> 0 \<and> rc \<noteq> 0
      then Some (''warning: worker '' @ show (wc_id cfg) @ '' could not pin to CPU '' @
                 show (wc_pin_cpu cfg) @ '': '' @ strerror rc @ [CHR 0x0A])
      else None)"

end
