(* ===== verification/Hello_Safety.thy ===== *)
theory Hello_Safety
  imports Client_Hello
begin

unbundle bit_operations_syntax

text \<open>
  Memory safety and termination of the TLS parser on every input, and stability of its
  answer: once the bytes received so far decide the outcome, no further byte changes it.
  The stability law is stated as a locale of incremental parsers, whose client lemma is
  that the way a stream is cut into TCP segments cannot influence the answer.
\<close>

section \<open>Reads\<close>

lemma ensures_rd16 [ensures_simps]:
  "ensures (rd16 p i) Q \<longleftrightarrow>
     Suc i < length p \<and> Q (push_bit 8 (ucast (p ! i)) OR ucast (p ! Suc i))"
  by (auto simp: rd16_def rd8_def)

lemma ensures_rd24 [ensures_simps]:
  "ensures (rd24 p i) Q \<longleftrightarrow> i + 2 < length p \<and>
     Q (push_bit 16 (ucast (p ! i)) OR push_bit 8 (ucast (p ! Suc i)) OR ucast (p ! (i + 2)))"
  by (auto simp: rd24_def rd8_def)

lemma ensures_byte_slice [ensures_simps]:
  "ensures (byte_slice p i n) Q \<longleftrightarrow> i + n \<le> length p \<and> Q (take n (drop i p))"
  by (simp add: byte_slice_def)

lemma rd16_prefix: "rd16 p i = Some w \<Longrightarrow> rd16 (p @ q) i = Some w"
  by (auto simp: rd16_def rd8_prefix split: Option.bind_splits)

lemma rd24_prefix: "rd24 p i = Some w \<Longrightarrow> rd24 (p @ q) i = Some w"
  by (auto simp: rd24_def rd8_prefix split: Option.bind_splits)

lemma byte_slice_prefix: "byte_slice p i n = Some w \<Longrightarrow> byte_slice (p @ q) i n = Some w"
  by (auto simp: byte_slice_def split: if_splits)

lemma rd8_append: "i < length p \<Longrightarrow> rd8 (p @ q) i = rd8 p i"
  by (simp add: rd8_def nth_append)

lemma rd16_append: "Suc i < length p \<Longrightarrow> rd16 (p @ q) i = rd16 p i"
  by (simp add: rd16_def rd8_append)

lemma rd24_append: "i + 2 < length p \<Longrightarrow> rd24 (p @ q) i = rd24 p i"
  by (simp add: rd24_def rd8_append)

lemma byte_slice_append: "i + n \<le> length p \<Longrightarrow> byte_slice (p @ q) i n = byte_slice p i n"
  by (simp add: byte_slice_def)

lemmas hello_append = rd8_append rd16_append rd24_append byte_slice_append

lemmas hello_prefix = rd8_prefix rd16_prefix rd24_prefix byte_slice_prefix

section \<open>The ClientHello parser is safe and total\<close>

text \<open>A parser result that lies inside the first \<open>len\<close> bytes and is final.\<close>

definition host_within :: "nat \<Rightarrow> (nat \<times> nat) HostnameResult \<Rightarrow> bool" where
  "host_within len r =
     (case r of Found (h, n) \<Rightarrow> h + n \<le> len | NotFound \<Rightarrow> True | NeedMore \<Rightarrow> False)"

lemma host_within_simps [simp]:
  "host_within len (Found (h, n)) \<longleftrightarrow> h + n \<le> len"
  "host_within len NotFound" "\<not> host_within len NeedMore"
  by (simp_all add: host_within_def)

text \<open>Far from the top of the 32-bit range, advancing past a field is exact.\<close>

abbreviation SAFE_LEN :: nat where
  "SAFE_LEN \<equiv> 4294705152"

lemma advance:
  assumes "x \<le> len" "len < SAFE_LEN"
  shows "k \<le> 65600 \<Longrightarrow> add32 x k = x + k"
    and "k \<le> 4 \<Longrightarrow> add32 (x + k) (unat (w :: u16)) = x + k + unat w"
    and "k \<le> 2 \<Longrightarrow> add32 k (unat (w :: u16)) = k + unat w"
    and "k \<le> 2 \<Longrightarrow> add32 k (unat (b :: u8)) = k + unat b"
    and "k \<le> 4 \<Longrightarrow> add32 x (k + unat (w :: u16)) = x + (k + unat w)"
    and "add32 x (Suc (unat (b :: u8))) = Suc (x + unat b)"
    and "add32 (Suc 0) (unat (b :: u8)) = Suc (unat b)"
proof -
  note small = assms u16_le [of w] u8_le [of b]
  show "k \<le> 65600 \<Longrightarrow> add32 x k = x + k" "k \<le> 4 \<Longrightarrow> add32 (x + k) (unat w) = x + k + unat w"
    "k \<le> 2 \<Longrightarrow> add32 k (unat w) = k + unat w" "k \<le> 2 \<Longrightarrow> add32 k (unat b) = k + unat b"
    "k \<le> 4 \<Longrightarrow> add32 x (k + unat w) = x + (k + unat w)"
    using small by (intro add32_exact; linarith)+
  show "add32 x (Suc (unat b)) = Suc (x + unat b)"
    using add32_exact [of x "Suc (unat b)"] small by linarith
  show "add32 (Suc 0) (unat b) = Suc (unat b)"
    using add32_exact [of "Suc 0" "unat b"] small by linarith
qed

lemma name_walk_safe:
  assumes "q \<le> list_end" "list_end \<le> len" "len \<le> length p" "len < SAFE_LEN"
  shows "ensures (name_walk p list_end q) (host_within len)"
  using assms
proof (induction "list_end - q" arbitrary: q rule: less_induct)
  case less
  have q: "q \<le> len" using less.prems by simp
  have rec: "ensures (name_walk p list_end (q + 3 + k)) (host_within len)"
    if "q + 3 + k \<le> list_end" for k
    using less.prems that by (intro less.hyps) auto
  show ?case
    using less.prems rec
    by (subst name_walk.simps)
      (auto simp: ensures_simps Let_def advance [OF q less.prems(4)] not_less)
qed

lemma server_names_safe:
  assumes "o1 + elen \<le> len" "elen \<le> 65535" "len \<le> length p" "len < SAFE_LEN"
  shows "ensures (server_names p o1 elen) (host_within len)"
proof -
  have o1: "o1 \<le> len" and e: "add32 o1 elen = o1 + elen"
    using assms by (simp_all add: add32_exact)
  show ?thesis
    using assms
    by (auto simp: server_names_def ensures_simps Let_def advance [OF o1 assms(4)] e
        intro!: name_walk_safe)
qed

lemma ext_walk_safe:
  assumes "o1 \<le> ext_end" "ext_end \<le> len" "len \<le> length p" "len < SAFE_LEN"
  shows "ensures (ext_walk p ext_end o1) (host_within len)"
  using assms
proof (induction "ext_end - o1" arbitrary: o1 rule: less_induct)
  case less
  have o1: "o1 \<le> len" using less.prems by simp
  have rec: "ensures (ext_walk p ext_end (o1 + 4 + k)) (host_within len)"
    if "o1 + 4 + k \<le> ext_end" for k
    using less.prems that by (intro less.hyps) auto
  have sni: "ensures (server_names p (o1 + 4) (unat (w :: u16))) (host_within len)"
    if "o1 + 4 + unat w \<le> ext_end" for w
    using less.prems that by (intro server_names_safe) auto
  show ?case
    using less.prems rec sni
    by (subst ext_walk.simps)
      (auto simp: ensures_simps Let_def advance [OF o1 less.prems(4)] not_less)
qed

lemma hello_extensions_safe:
  assumes "o5 \<le> len + 65600" "len \<le> length p" "len < SAFE_LEN"
  shows "ensures (hello_extensions p len o5) (host_within len)"
proof -
  have two: "add32 o5 2 = o5 + 2" using assms by (simp add: add32_exact)
  show ?thesis
  proof (cases "o5 + 2 \<le> len")
    case True
    then have o5: "o5 \<le> len" by simp
    from True assms show ?thesis
      by (auto simp: hello_extensions_def ensures_simps Let_def advance [OF o5 assms(3)]
          intro!: ext_walk_safe)
  next
    case False
    then show ?thesis by (simp add: hello_extensions_def two)
  qed
qed

lemma hello_compression_safe:
  assumes "o4 \<le> len + 65600" "len \<le> length p" "len < SAFE_LEN"
  shows "ensures (hello_compression p len o4) (host_within len)"
proof -
  have one: "add32 o4 (Suc 0) = Suc o4" using assms by (simp add: add32_exact)
  show ?thesis
  proof (cases "o4 + 1 \<le> len")
    case True
    then have o4: "o4 \<le> len" by simp
    have "ensures (hello_extensions p len (o4 + (1 + unat (b :: u8)))) (host_within len)" for b
      using o4 assms u8_le [of b] by (intro hello_extensions_safe) linarith+
    with True assms show ?thesis
      by (simp add: hello_compression_def ensures_simps advance [OF o4 assms(3)])
  next
    case False
    then show ?thesis by (simp add: hello_compression_def one)
  qed
qed

lemma hello_ciphers_safe:
  assumes "o3 \<le> len + 65600" "len \<le> length p" "len < SAFE_LEN"
  shows "ensures (hello_ciphers p len o3) (host_within len)"
proof -
  have two: "add32 o3 2 = o3 + 2" using assms by (simp add: add32_exact)
  show ?thesis
  proof (cases "o3 + 2 \<le> len")
    case True
    then have o3: "o3 \<le> len" by simp
    have "ensures (hello_compression p len (o3 + (2 + unat (w :: u16)))) (host_within len)" for w
      using o3 assms u16_le [of w] by (intro hello_compression_safe) linarith+
    with True assms show ?thesis
      by (simp add: hello_ciphers_def ensures_simps advance [OF o3 assms(3)])
  next
    case False
    then show ?thesis by (simp add: hello_ciphers_def two)
  qed
qed

lemma parseClientHello_safe:
  assumes "len \<le> length p" "len < SAFE_LEN"
  shows "ensures (parseClientHello p len) (host_within len)"
proof -
  have off: "add32 38 (add32 (Suc 0) (unat (b :: u8))) = 39 + unat b" for b
    using add32_exact [of "Suc 0" "unat b"] add32_exact [of 38 "Suc (unat b)"] u8_le [of b] by simp
  have "ensures (hello_ciphers p len (39 + unat (b :: u8))) (host_within len)" for b
    using assms u8_le [of b] by (intro hello_ciphers_safe) linarith+
  with assms show ?thesis
    by (auto simp: parseClientHello_def ensures_simps Let_def add32_exact off)
qed

section \<open>The parser looks at the message only\<close>

lemma name_walk_prefix:
  assumes "name_walk p e q = Some r"
  shows "name_walk (p @ x) e q = Some r"
proof (rule name_walk.raw_induct [where P = "\<lambda>p e q r. name_walk (p @ x) e q = Some r", OF _ assms])
  fix f p e q r
  assume IH: "\<And>p e q r. f p e q = Some r \<Longrightarrow> name_walk (p @ x) e q = Some r"
    and eq: "(if \<not> add32 q 3 \<le> e then Some NotFound
      else rd8 p q \<bind> (\<lambda>name_type. rd16 p (q + 1) \<bind> (\<lambda>nl.
        let name_len = unat nl; q' = add32 q 3
        in if e < add32 q' name_len then Some NotFound
           else if name_type = 0 then Some (Found (q', name_len))
           else f p e (add32 q' name_len)))) = Some r"
  from eq show "name_walk (p @ x) e q = Some r"
    by (subst name_walk.simps)
      (auto simp: Let_def hello_prefix IH split: if_splits Option.bind_splits)
qed

lemma server_names_prefix:
  "server_names p o1 n = Some r \<Longrightarrow> server_names (p @ x) o1 n = Some r"
  by (auto simp: server_names_def Let_def hello_prefix name_walk_prefix
      split: if_splits Option.bind_splits)

lemma ext_walk_prefix:
  assumes "ext_walk p e o1 = Some r"
  shows "ext_walk (p @ x) e o1 = Some r"
proof (rule ext_walk.raw_induct [where P = "\<lambda>p e q r. ext_walk (p @ x) e q = Some r", OF _ assms])
  fix f p e o1 r
  assume IH: "\<And>p e q r. f p e q = Some r \<Longrightarrow> ext_walk (p @ x) e q = Some r"
    and eq: "(if \<not> add32 o1 4 \<le> e then Some NotFound
      else rd16 p o1 \<bind> (\<lambda>etype. rd16 p (o1 + 2) \<bind> (\<lambda>elen.
        let o2 = add32 o1 4
        in if e < add32 o2 (unat elen) then Some NotFound
           else if etype = 0 then server_names p o2 (unat elen)
           else f p e (add32 o2 (unat elen))))) = Some r"
  from eq show "ext_walk (p @ x) e o1 = Some r"
    by (subst ext_walk.simps)
      (auto simp: Let_def hello_prefix IH server_names_prefix split: if_splits Option.bind_splits)
qed

lemma parseClientHello_prefix:
  "parseClientHello p len = Some r \<Longrightarrow> parseClientHello (p @ x) len = Some r"
  by (auto simp: parseClientHello_def hello_ciphers_def hello_compression_def
      hello_extensions_def Let_def hello_prefix ext_walk_prefix
      split: if_splits Option.bind_splits)

lemma parseClientHello_take:
  assumes "len \<le> length p" "len < SAFE_LEN"
  shows "parseClientHello (take len p) len = parseClientHello p len"
proof -
  have "ensures (parseClientHello (take len p) len) (host_within len)"
    using assms by (intro parseClientHello_safe) auto
  then obtain r where r: "parseClientHello (take len p) len = Some r"
    by (auto simp: ensures_iff)
  with parseClientHello_prefix [OF r, of "drop len p"] show ?thesis by simp
qed

section \<open>The record layer is safe and total\<close>

text \<open>A collected message: long enough for a ClientHello, and all of it there.\<close>

definition message_within :: "(bytes \<times> nat) HostnameResult \<Rightarrow> bool" where
  "message_within r =
     (case r of Found (hs, n) \<Rightarrow> 38 \<le> n \<and> n \<le> 65539 \<and> n \<le> length hs | _ \<Rightarrow> True)"

lemma message_within_simps [simp]:
  "message_within (Found (hs, n)) \<longleftrightarrow> 38 \<le> n \<and> n \<le> 65539 \<and> n \<le> length hs"
  "message_within NotFound" "message_within NeedMore"
  by (simp_all add: message_within_def)

definition want_ok :: "nat \<Rightarrow> bool" where
  "want_ok w \<longleftrightarrow> w = 0 \<or> 38 \<le> w \<and> w \<le> 65539"

lemma header_want_safe:
  "want_ok w \<Longrightarrow>
   ensures (header_want s w) (\<lambda>r. case r of None \<Rightarrow> True | Some w' \<Rightarrow> want_ok w')"
  by (auto simp: header_want_def ensures_simps Let_def want_ok_def add32_exact
      split: option.splits)

lemma record_step_safe:
  assumes "off \<le> len" "len \<le> length p" "len < U32_SPAN"
  shows "ensures (record_step p len off) (\<lambda>r. \<forall>c off'. r = Found (c, off') \<longrightarrow>
    off + 5 < off' \<and> off' \<le> len \<and> c = take (off' - (off + 5)) (drop (off + 5) p))"
proof -
  note sub = sub32_exact [OF assms(1,3)]
  have sub': "5 \<le> len - off \<Longrightarrow> sub32 (len - off) 5 = len - off - 5"
    using assms by (simp add: sub32_exact)
  have adv: "off + 5 + k \<le> len \<Longrightarrow> add32 off (5 + k) = off + 5 + k" for k
    using assms by (simp add: add32_exact)
  show ?thesis
    using assms by (auto simp: record_step_def ensures_simps Let_def sub sub' adv not_less)
qed

text \<open>One turn of the loop, as a rule: what remains to show of the recursive call.\<close>

lemma collect_loop_step:
  assumes "want = 0 \<or> length scratch < want"
    and "record_step p len off = Some (Found (chunk, off'))"
    and "header_want (scratch @ chunk) want = Some (Some want')"
  shows "collect_loop p len scratch off want =
    (if off' \<ge> len \<and> (want' = 0 \<or> length (scratch @ chunk) < want') then Some NeedMore
     else collect_loop p len (scratch @ chunk) off' want')"
  using assms by (subst collect_loop.simps) (simp add: Let_def)

lemma collect_loop_safe:
  assumes "off \<le> len" "len \<le> length p" "len < U32_SPAN" "want_ok want"
  shows "ensures (collect_loop p len scratch off want) message_within"
  using assms
proof (induction "len - off" arbitrary: off scratch want rule: less_induct)
  case less
  show ?case
  proof (cases "want = 0 \<or> length scratch < want")
    case False
    with less.prems show ?thesis
      by (subst collect_loop.simps) (auto simp: want_ok_def)
  next
    case True
    from record_step_safe [OF less.prems(1-3)] obtain r where
      r: "record_step p len off = Some r" and
      found: "\<And>c off'. r = Found (c, off') \<Longrightarrow> off + 5 < off' \<and> off' \<le> len"
      by (auto simp: ensures_iff)
    show ?thesis
    proof (cases r)
      case (Found x)
      obtain c off' where x: "x = (c, off')" by (cases x)
      with Found found have off': "off < off'" "off' \<le> len" by fastforce+
      from header_want_safe [OF less.prems(4), of "scratch @ c"] obtain hw where
        hw: "header_want (scratch @ c) want = Some hw" "\<And>w. hw = Some w \<Longrightarrow> want_ok w"
        by (auto simp: ensures_iff split: option.splits)
      have rec: "ensures (collect_loop p len (scratch @ c) off' w) message_within" if "want_ok w" for w
        using less.prems off' that by (intro less.hyps) auto
      show ?thesis
      proof (cases hw)
        case None
        with True r Found x hw show ?thesis by (subst collect_loop.simps) (simp add: Let_def)
      next
        case (Some w)
        with True r Found x hw rec show ?thesis by (simp add: collect_loop_step)
      qed
    qed (use True r in \<open>subst collect_loop.simps, simp\<close>)+
  qed
qed

lemma collect_fast_safe:
  assumes "len \<le> length p"
  shows "ensures (collect_fast p len rec0)
    (\<lambda>f. case f of None \<Rightarrow> True | Some r \<Rightarrow> message_within r)"
  using assms
  by (auto simp: collect_fast_def ensures_simps Let_def add32_exact split: option.splits)

lemma collectHandshake_safe:
  assumes "len \<le> length p" "len < U32_SPAN"
  shows "ensures (collectHandshake p len) message_within"
proof -
  have "ensures (collect_loop p len [] 0 0) message_within"
    using assms by (intro collect_loop_safe) (auto simp: want_ok_def)
  then have "ensures (collect_fast p len rec0)
      (\<lambda>f. ensures (case f of Some r \<Rightarrow> Some r | None \<Rightarrow> collect_loop p len [] 0 0) message_within)"
    for rec0
    by (intro ensures_mono [OF collect_fast_safe [OF assms(1)]]) (auto split: option.splits)
  then show ?thesis
    using assms(1)
    by (auto simp: collectHandshake_def ensures_bind ensures_rd8 ensures_rd16 ensures_if Let_def)
qed

text \<open>A host name span inside its buffer.\<close>

definition span_within :: "span HostnameResult \<Rightarrow> bool" where
  "span_within r = (case r of Found (hs, h, n) \<Rightarrow> h + n \<le> length hs | _ \<Rightarrow> True)"

lemma span_within_simps [simp]:
  "span_within (Found (hs, h, n)) \<longleftrightarrow> h + n \<le> length hs"
  "span_within NotFound" "span_within NeedMore"
  by (simp_all add: span_within_def)

lemma extractHostname_safe:
  assumes "len \<le> length p" "len < U32_SPAN"
  shows "ensures (extractHostname p len) span_within"
proof -
  obtain r where r: "collectHandshake p len = Some r" "message_within r"
    using collectHandshake_safe [OF assms] by (auto simp: ensures_iff)
  show ?thesis
  proof (cases r)
    case (Found x)
    obtain hs n where x: "x = (hs, n)" by (cases x)
    with Found r have n: "n \<le> length hs" "n < SAFE_LEN" by auto
    from parseClientHello_safe [OF n] obtain r' where
      r': "parseClientHello hs n = Some r'" "host_within n r'"
      by (auto simp: ensures_iff)
    with r Found x n show ?thesis
      by (cases r') (auto simp: extractHostname_def)
  qed (use r in \<open>auto simp: extractHostname_def\<close>)
qed

section \<open>Stability of the answer\<close>

lemma record_step_stable:
  assumes "record_step p (length p) off = Some r" "r \<noteq> NeedMore" "off \<le> length p"
    "length p + length q < U32_SPAN"
  shows "record_step (p @ q) (length p + length q) off = Some r"
proof -
  have sub: "sub32 (length p) off = length p - off"
    "sub32 (length p + length q) off = length p + length q - off"
    using assms(3,4) by (simp_all add: sub32_exact)
  from assms(1,2) have five: "5 \<le> length p - off"
    by (auto simp: record_step_def sub not_less split: if_splits)
  have sub': "sub32 (length p - off) 5 = length p - off - 5"
    "sub32 (length p + length q - off) 5 = length p + length q - off - 5"
    using assms(3,4) five by (simp_all add: sub32_exact)
  have in_p: "rd8 (p @ q) off = rd8 p off" "rd8 (p @ q) (off + 1) = rd8 p (off + 1)"
    "rd16 (p @ q) (off + 3) = rd16 p (off + 3)"
    using five by (simp_all add: hello_append)
  from assms(1,2) show ?thesis
    unfolding record_step_def sub sub' in_p using five
    by (auto simp: Let_def byte_slice_prefix split: if_splits Option.bind_splits)
qed

lemma collect_loop_stable:
  assumes "collect_loop p (length p) scratch off want = Some r" "r \<noteq> NeedMore"
    "off \<le> length p" "length p + length q < U32_SPAN"
  shows "collect_loop (p @ q) (length p + length q) scratch off want = Some r"
  using assms
proof (induction "length p - off" arbitrary: off scratch want rule: less_induct)
  case less
  show ?case
  proof (cases "want = 0 \<or> length scratch < want")
    case False
    with less.prems(1) show ?thesis
      by (auto simp: collect_loop.simps [of p] collect_loop.simps [of "p @ q"])
  next
    case True
    have safe: "ensures (record_step p (length p) off) (\<lambda>r. \<forall>c off'. r = Found (c, off') \<longrightarrow>
      off + 5 < off' \<and> off' \<le> length p \<and> c = take (off' - (off + 5)) (drop (off + 5) p))"
      using less.prems by (intro record_step_safe) auto
    from less.prems(1) True obtain s where s: "record_step p (length p) off = Some s"
      by (subst (asm) collect_loop.simps) (auto split: Option.bind_splits)
    have s': "s \<noteq> NeedMore \<Longrightarrow> record_step (p @ q) (length p + length q) off = Some s"
      using s less.prems(3,4) by (intro record_step_stable) auto
    show ?thesis
    proof (cases s)
      case (Found x)
      obtain c off' where x: "x = (c, off')" by (cases x)
      with Found s safe have off': "off < off'" "off' \<le> length p" by auto
      from less.prems(1) True s Found x obtain hw where
        hw: "header_want (scratch @ c) want = Some hw"
        by (subst (asm) collect_loop.simps) (auto simp: Let_def split: Option.bind_splits)
      show ?thesis
      proof (cases hw)
        case None
        with True s s' Found x hw less.prems(1) show ?thesis
          by (simp add: collect_loop.simps [of p] collect_loop.simps [of "p @ q"] Let_def)
      next
        case (Some w)
        with True s Found x hw less.prems(1,2)
        have go: "\<not> (off' \<ge> length p \<and> (w = 0 \<or> length (scratch @ c) < w))"
          "collect_loop p (length p) (scratch @ c) off' w = Some r"
          by (auto simp: collect_loop_step split: if_splits)
        have "collect_loop (p @ q) (length p + length q) (scratch @ c) off' w = Some r"
          using less.prems off' go(2) by (intro less.hyps) auto
        with Some True s' Found x hw go(1) show ?thesis by (auto simp: collect_loop_step)
      qed
    qed (use True s s' less.prems in \<open>auto simp: collect_loop.simps [of p] collect_loop.simps [of "p @ q"]\<close>)
  qed
qed

text \<open>
  The message a collection result stands for. The fast path points into the stream and
  the slow path into the scratch buffer; only these bytes matter to the caller.
\<close>

definition message_text :: "(bytes \<times> nat) HostnameResult \<Rightarrow> bytes HostnameResult" where
  "message_text r =
     (case r of Found (hs, n) \<Rightarrow> Found (take n hs) | NotFound \<Rightarrow> NotFound | NeedMore \<Rightarrow> NeedMore)"

lemma message_text_simps [simp]:
  "message_text (Found (hs, n)) = Found (take n hs)"
  "message_text NotFound = NotFound" "message_text NeedMore = NeedMore"
  by (simp_all add: message_text_def)

lemma message_text_NeedMore [simp]: "message_text r = NeedMore \<longleftrightarrow> r = NeedMore"
  by (auto simp: message_text_def split: HostnameResult.splits)

lemma collect_fast_stable:
  assumes "collect_fast p (length p) rec0 = Some (Some r)" "r \<noteq> NeedMore"
    "length p + length q < U32_SPAN"
  shows "\<exists>r'. collect_fast (p @ q) (length p + length q) rec0 = Some (Some r') \<and>
              message_text r' = message_text r"
proof -
  from assms(1) have len: "rec0 \<ge> 4" "length p \<ge> 9"
    by (auto simp: collect_fast_def split: if_splits)
  then have in_p: "rd8 (p @ q) 5 = rd8 p 5" "rd24 (p @ q) 6 = rd24 p 6"
    by (simp_all add: hello_append)
  from assms(1,2) len show ?thesis
    unfolding collect_fast_def in_p
    by (auto simp: Let_def add32_exact split: if_splits Option.bind_splits)
qed

lemma collect_fast_defers:
  assumes "collect_fast p (length p) rec0 = Some None" "rec0 \<ge> 4 \<Longrightarrow> length p \<ge> 9"
  shows "collect_fast (p @ q) (length p + length q) rec0 = Some None"
proof (cases "rec0 \<ge> 4")
  case True
  with assms(2) have len: "length p \<ge> 9" by simp
  then have in_p: "rd8 (p @ q) 5 = rd8 p 5" "rd24 (p @ q) 6 = rd24 p 6"
    by (simp_all add: hello_append)
  from assms(1) len show ?thesis
    unfolding collect_fast_def in_p
    by (auto simp: Let_def split: if_splits Option.bind_splits)
qed (simp add: collect_fast_def)

text \<open>
  With fewer than nine bytes and a first record of four or more, the joining loop has
  to wait as well: the fast path declines only because bytes are missing.
\<close>

lemma collect_loop_short:
  assumes "rd8 p 0 = Some 0x16" "rd8 p 1 = Some 0x03" "rd16 p 3 = Some w" "unat w \<ge> 4"
    "unat w \<le> 16384" "length p < 9"
  shows "collect_loop p (length p) [] 0 0 = Some NeedMore"
proof -
  from assms(3) have len: "5 \<le> length p"
    by (auto simp: rd16_def rd8_def split: Option.bind_splits if_splits)
  have "length p - 5 < unat w" using assms by linarith
  with len have "record_step p (length p) 0 = Some NeedMore"
    using assms by (simp add: record_step_def sub32_exact Let_def)
  then show ?thesis by (subst collect_loop.simps) simp
qed

text \<open>With the first header in the buffer, the collection is the checks on it and two paths.\<close>

lemma collectHandshake_header:
  assumes "rd8 p 0 = Some b0" "rd8 p 1 = Some b1" "rd16 p 3 = Some w" "5 \<le> len"
  shows "collectHandshake p len =
    (if b0 \<noteq> 0x16 \<or> b1 \<noteq> 0x03 \<or> unat w = 0 \<or> unat w > 16384 then Some NotFound
     else do {
       fast \<leftarrow> collect_fast p len (unat w);
       case fast of Some r \<Rightarrow> Some r | None \<Rightarrow> collect_loop p len [] 0 0
     })"
  using assms unfolding collectHandshake_def by (simp add: Let_def)

text \<open>Behind a good record header: the fast path or the loop has answered, and answers the same.\<close>

lemma collect_paths_stable:
  assumes "collect_fast p (length p) (unat w) = Some fast" "r \<noteq> NeedMore" "length p + length q < U32_SPAN"
    "(case fast of Some r \<Rightarrow> Some r | None \<Rightarrow> collect_loop p (length p) [] 0 0) = Some r"
    "rd8 p 0 = Some 0x16" "rd8 p 1 = Some 0x03" "rd16 p 3 = Some w" "unat w \<le> 16384"
  shows "\<exists>fast' r'. collect_fast (p @ q) (length p + length q) (unat w) = Some fast' \<and>
    (case fast' of Some r \<Rightarrow> Some r | None \<Rightarrow> collect_loop (p @ q) (length p + length q) [] 0 0) = Some r' \<and>
    message_text r' = message_text r"
proof (cases fast)
  case (Some f)
  with assms(4) have "f = r" by simp
  with collect_fast_stable [OF _ assms(2,3), of "unat w"] Some assms(1) show ?thesis by auto
next
  case None
  with assms(4) have loop: "collect_loop p (length p) [] 0 0 = Some r" by simp
  have "length p \<ge> 9" if "unat w \<ge> 4"
    using collect_loop_short [OF assms(5-7) that assms(8)] loop assms(2) by fastforce
  with assms(1) None have "collect_fast (p @ q) (length p + length q) (unat w) = Some None"
    by (intro collect_fast_defers) auto
  moreover have "collect_loop (p @ q) (length p + length q) [] 0 0 = Some r"
    using loop assms(2,3) by (intro collect_loop_stable) auto
  ultimately show ?thesis by auto
qed

lemma collectHandshake_stable:
  assumes "collectHandshake p (length p) = Some r" "r \<noteq> NeedMore"
    "length p + length q < U32_SPAN"
  shows "\<exists>r'. collectHandshake (p @ q) (length p + length q) = Some r' \<and>
              message_text r' = message_text r"
proof (cases "length p < 5")
  case True
  with assms(1,2) show ?thesis
    by (auto simp: collectHandshake_def rd8_def nth_append split: if_splits)
next
  case False
  then have "0 < length p" "1 < length p" "Suc 3 < length p" by linarith+
  then obtain b0 b1 w where rd: "rd8 p 0 = Some b0" "rd8 p 1 = Some b1" "rd16 p 3 = Some w"
    by (simp add: rd8_def rd16_def)
  have hdr_p: "collectHandshake p (length p) =
    (if b0 \<noteq> 0x16 \<or> b1 \<noteq> 0x03 \<or> unat w = 0 \<or> unat w > 16384 then Some NotFound
     else do { fast \<leftarrow> collect_fast p (length p) (unat w);
       case fast of Some r \<Rightarrow> Some r | None \<Rightarrow> collect_loop p (length p) [] 0 0 })"
    using rd False by (intro collectHandshake_header) auto
  have hdr_pq: "collectHandshake (p @ q) (length p + length q) =
    (if b0 \<noteq> 0x16 \<or> b1 \<noteq> 0x03 \<or> unat w = 0 \<or> unat w > 16384 then Some NotFound
     else do { fast \<leftarrow> collect_fast (p @ q) (length p + length q) (unat w);
       case fast of Some r \<Rightarrow> Some r | None \<Rightarrow> collect_loop (p @ q) (length p + length q) [] 0 0 })"
    using rd False by (intro collectHandshake_header) (auto intro: hello_prefix)
  show ?thesis
  proof (cases "b0 \<noteq> 0x16 \<or> b1 \<noteq> 0x03 \<or> unat w = 0 \<or> unat w > 16384")
    case True
    with assms(1) hdr_p hdr_pq show ?thesis by auto
  next
    case ok: False
    with assms(1) hdr_p obtain fast where fast: "collect_fast p (length p) (unat w) = Some fast"
      by (auto split: Option.bind_splits)
    with ok assms(1) hdr_p collect_paths_stable [OF fast assms(2,3)] rd hdr_pq show ?thesis by auto
  qed
qed

section \<open>The host name in a stream\<close>

text \<open>
  The answer of \<^verbatim>\<open>extractHostname\<close> as its caller uses it: the bytes the returned
  pointer and length designate, read off at once.
\<close>

definition host_text :: "span HostnameResult \<Rightarrow> bytes HostnameResult" where
  "host_text r = (case r of Found (hs, h, n) \<Rightarrow> Found (take n (drop h hs))
     | NotFound \<Rightarrow> NotFound | NeedMore \<Rightarrow> NeedMore)"

definition hostname_in :: "bytes \<Rightarrow> bytes HostnameResult option" where
  "hostname_in p = map_option host_text (extractHostname p (length p))"

text \<open>The ClientHello parser as a function of the message alone.\<close>

definition host_at :: "bytes \<Rightarrow> (nat \<times> nat) HostnameResult \<Rightarrow> bytes HostnameResult" where
  "host_at m r = (case r of Found (h, n) \<Rightarrow> Found (take n (drop h m))
     | NotFound \<Rightarrow> NotFound | NeedMore \<Rightarrow> NeedMore)"

lemma host_at_simps [simp]:
  "host_at m (Found (h, n)) = Found (take n (drop h m))"
  "host_at m NotFound = NotFound" "host_at m NeedMore = NeedMore"
  by (simp_all add: host_at_def)

definition hello_host :: "bytes \<Rightarrow> bytes HostnameResult option" where
  "hello_host m = map_option (host_at m) (parseClientHello m (length m))"

lemma hostname_in_message:
  assumes "collectHandshake p (length p) = Some r" "length p < U32_SPAN"
  shows "hostname_in p = (case message_text r of
    Found m \<Rightarrow> hello_host m | NotFound \<Rightarrow> Some NotFound | NeedMore \<Rightarrow> Some NeedMore)"
proof (cases r)
  case (Found x)
  obtain hs n where x: "x = (hs, n)" by (cases x)
  have "message_within r"
    using collectHandshake_safe [of "length p" p] assms by simp
  with Found x have n: "n \<le> length hs" "n < SAFE_LEN" by auto
  then obtain r' where r': "parseClientHello hs n = Some r'" "host_within n r'"
    using parseClientHello_safe [OF n] by (auto simp: ensures_iff)
  moreover have "parseClientHello (take n hs) (length (take n hs)) = Some r'"
    using n r' by (simp add: parseClientHello_take min_absorb2)
  ultimately show ?thesis
    using assms Found x n
    by (cases r')
      (auto simp: hostname_in_def extractHostname_def hello_host_def host_text_def drop_take
        min_absorb1 le_diff_conv)
qed (use assms in \<open>auto simp: hostname_in_def extractHostname_def host_text_def\<close>)

lemma hello_host_final:
  assumes "length m < SAFE_LEN"
  shows "ensures (hello_host m) (\<lambda>r. r \<noteq> NeedMore)"
proof -
  obtain r where "parseClientHello m (length m) = Some r" "host_within (length m) r"
    using parseClientHello_safe [of "length m" m] assms by (auto simp: ensures_iff)
  then show ?thesis by (cases r) (auto simp: hello_host_def)
qed

lemma hostname_in_defined: "length p < U32_SPAN \<Longrightarrow> hostname_in p \<noteq> None"
  using extractHostname_safe [of "length p" p] by (auto simp: hostname_in_def ensures_iff)

lemma hostname_in_stable:
  assumes "length (p @ q) < U32_SPAN" "hostname_in p = Some r" "r \<noteq> NeedMore"
  shows "hostname_in (p @ q) = Some r"
proof -
  from assms(1) obtain c where c: "collectHandshake p (length p) = Some c"
    using collectHandshake_safe [of "length p" p] by (auto simp: ensures_iff)
  have "c \<noteq> NeedMore"
    using hostname_in_message [OF c] assms by auto
  with c assms(1) obtain c' where "collectHandshake (p @ q) (length (p @ q)) = Some c'"
    "message_text c' = message_text c"
    using collectHandshake_stable [of p c q] by auto
  with hostname_in_message [OF c] hostname_in_message [of "p @ q" c'] assms
  show ?thesis by simp
qed

section \<open>Incremental parsers\<close>

text \<open>
  The caller's loop: append the next chunk, parse the whole buffer, stop at the first
  answer other than \<open>more\<close>.
\<close>

fun run_chunks :: "('b list \<Rightarrow> 'r option) \<Rightarrow> 'r \<Rightarrow> 'b list \<Rightarrow> 'b list list \<Rightarrow> 'r option" where
  "run_chunks parse more acc [] = Some more"
| "run_chunks parse more acc (c # cs) = do {
     r \<leftarrow> parse (acc @ c);
     if r = more then run_chunks parse more (acc @ c) cs else Some r
   }"

locale incremental_parser =
  fixes parse :: "'b list \<Rightarrow> 'r option"
    and more :: 'r
    and cap :: nat
  assumes parse_defined: "length p < cap \<Longrightarrow> parse p \<noteq> None"
    and parse_stable:
      "length (p @ q) < cap \<Longrightarrow> parse p = Some r \<Longrightarrow> r \<noteq> more \<Longrightarrow> parse (p @ q) = Some r"
begin

text \<open>However the stream is cut, the loop ends with the answer for the whole of it.\<close>

lemma chunks_irrelevant:
  "length (acc @ concat cs) < cap \<Longrightarrow> parse acc = Some more \<Longrightarrow>
   run_chunks parse more acc cs = parse (acc @ concat cs)"
proof (induction cs arbitrary: acc)
  case Nil
  then show ?case by simp
next
  case (Cons c cs)
  then obtain r where r: "parse (acc @ c) = Some r"
    using parse_defined [of "acc @ c"] by auto
  show ?case
  proof (cases "r = more")
    case True
    with Cons r show ?thesis by simp
  next
    case False
    with Cons r parse_stable [of "acc @ c" "concat cs" r] show ?thesis by simp
  qed
qed

lemma chunkings_agree:
  assumes "length (concat cs) < cap" "concat cs = concat ds" "parse [] = Some more"
  shows "run_chunks parse more [] cs = run_chunks parse more [] ds"
  using assms chunks_irrelevant [of "[]" cs] chunks_irrelevant [of "[]" ds] by simp

end

interpretation sni: incremental_parser hostname_in NeedMore U32_SPAN
  by unfold_locales (auto dest: hostname_in_defined intro: hostname_in_stable)

end
