(* ===== verification/Extractor_Inv.thy ===== *)
theory Extractor_Inv
  imports Extractor Hello_Safety "HOL-Library.Sublist"
begin

text \<open>
  The invariant of \<^verbatim>\<open>TcpTlsHostnameExtractor\<close>, kept by every operation of the flow
  table up to \<^verbatim>\<open>resolve\<close> and the callbacks of the reassembler. Two relations carry the
  proofs: \<open>xinv\<close>, what holds of a state, and \<open>evolves\<close>, what an operation may do to
  it. The second says in particular that the packets owed a verdict are conserved and
  that a flow which was not addressed is left alone unless it was a blocked flow pushed
  out by a newer one.
\<close>

section \<open>The packets that are owed a verdict\<close>

definition tag :: "Packet \<Rightarrow> u32 \<times> bool" where
  "tag p = (pk_id p, pk_pending p)"

definition held_tags :: "(u32 \<times> Conn) list \<Rightarrow> (u32 \<times> bool) multiset" where
  "held_tags xs = sum_list (map (\<lambda>(k, c). mset (map tag (cn_held c))) xs)"

definition debt :: "'r extractor \<Rightarrow> (u32 \<times> bool) multiset" where
  "debt s = mset (map (\<lambda>d. tag (dc_pkt d)) (x_decided s)) + held_tags (x_conns s)"

lemma held_tags_simps [simp]:
  "held_tags [] = {#}" "held_tags ((k, c) # xs) = mset (map tag (cn_held c)) + held_tags xs"
  by (simp_all add: held_tags_def)

lemma tag_release_bytes [simp]: "tag (release_bytes p) = tag p"
  by (simp add: tag_def release_bytes_def)

lemma delete_absent: "map_of xs k = None \<Longrightarrow> AList.delete k xs = xs"
  by (simp add: map_of_eq_None_iff AList.delete_idem)

lemma held_tags_split:
  assumes "distinct (map fst xs)" "map_of xs k = Some c"
  shows "held_tags xs = mset (map tag (cn_held c)) + held_tags (AList.delete k xs)"
  using assms
proof (induction xs)
  case (Cons x xs)
  obtain k' c' where x: "x = (k', c')" by (cases x)
  show ?case
  proof (cases "k' = k")
    case True
    with Cons.prems x have "c' = c" "AList.delete k xs = xs"
      by (auto intro: AList.delete_idem)
    with True x show ?thesis by simp
  qed (use Cons x in \<open>simp add: ac_simps\<close>)
qed simp

lemma held_tags_update:
  assumes "distinct (map fst xs)"
  shows "held_tags (AList.update k c xs) = mset (map tag (cn_held c)) + held_tags (AList.delete k xs)"
  using assms
proof (induction xs)
  case (Cons x xs)
  obtain k' c' where x: "x = (k', c')" by (cases x)
  show ?case
  proof (cases "k' = k")
    case True
    with Cons.prems x have "AList.delete k xs = xs"
      by (auto intro: AList.delete_idem)
    with True x show ?thesis by simp
  qed (use Cons x in \<open>simp add: ac_simps\<close>)
qed simp

lemma held_tags_no_held:
  "\<forall>(k, c) \<in> set xs. cn_held c = [] \<Longrightarrow> held_tags xs = {#}"
  by (induction xs) auto

section \<open>The invariant\<close>

text \<open>
  A blocked entry holds nothing. An undecided one holds a bounded number of packets and
  a bounded stream in which the host name is still to come.
\<close>

definition conn_ok :: "Conn \<Rightarrow> bool" where
  "conn_ok c \<longleftrightarrow>
     (case cn_state c of
        Block \<Rightarrow> cn_held c = [] \<and> cn_stream c = []
      | Wait \<Rightarrow> length (cn_held c) \<le> kMaxPacketsPerConn \<and>
          length (cn_stream c) \<le> kMaxStreamBytes \<and> hostname_in (cn_stream c) = Some NeedMore)"

lemma conn_ok_updates [simp]:
  "conn_ok (c\<lparr>cn_pcpp_key := k\<rparr>) = conn_ok c" "conn_ok (c\<lparr>cn_pcpp_closed := b\<rparr>) = conn_ok c"
  "conn_ok (c\<lparr>cn_last := t\<rparr>) = conn_ok c"
  by (cases "cn_state c"; simp add: conn_ok_def)+

text \<open>The table; the undecided flows in \<open>K\<close> may be in the middle of an update.\<close>

definition table_ok :: "u32 set \<Rightarrow> 'r extractor \<Rightarrow> bool" where
  "table_ok K s \<longleftrightarrow>
     distinct (map fst (x_conns s)) \<and> length (x_conns s) \<le> x_max_flows s \<and>
     (\<forall>k c. find_conn s k = Some c \<longrightarrow> conn_ok c \<or> k \<in> K \<and> cn_state c = Wait)"

text \<open>The ring knows every blocked flow, those in \<open>B\<close> excepted and the key 0 excepted.\<close>

definition ring_ok :: "u32 set \<Rightarrow> 'r extractor \<Rightarrow> bool" where
  "ring_ok B s \<longleftrightarrow>
     length (x_block_ring s) = x_max_blocked s \<and> x_block_next s < x_max_blocked s \<and>
     x_max_blocked s \<le> x_max_flows s \<and>
     (\<forall>k c. find_conn s k = Some c \<and> cn_state c = Block \<and> k \<noteq> 0 \<and> k \<notin> B \<longrightarrow>
        k \<in> set (x_block_ring s))"

definition xinv :: "u32 set \<Rightarrow> 'r extractor \<Rightarrow> bool" where
  "xinv K s \<longleftrightarrow> table_ok K s \<and> ring_ok {} s"

text \<open>
  What may become of an entry. A flow that was not addressed stays or is a blocked flow
  pushed out; a flow that was addressed is never taken back to undecided, and while it
  stays undecided it keeps the packets it holds.
\<close>

definition stays :: "Conn option \<Rightarrow> Conn option \<Rightarrow> bool" where
  "stays x y \<longleftrightarrow> y = x \<or> y = None \<and> map_option cn_state x = Some Block"

definition advances :: "Conn option \<Rightarrow> Conn option \<Rightarrow> bool" where
  "advances x y \<longleftrightarrow>
     (case y of
        None \<Rightarrow> True
      | Some d \<Rightarrow>
          (case x of
             None \<Rightarrow> False
           | Some c \<Rightarrow> cn_state d = Block \<or> cn_state c = Wait \<and> cn_held d = cn_held c))"

definition keeps :: "u32 set \<Rightarrow> 'r extractor \<Rightarrow> 'r extractor \<Rightarrow> bool" where
  "keeps K s s' \<longleftrightarrow>
     (\<forall>k. (k \<notin> K \<longrightarrow> stays (find_conn s k) (find_conn s' k)) \<and>
          (k \<in> K \<longrightarrow> advances (find_conn s k) (find_conn s' k)))"

lemma stays_refl [simp]: "stays x x"
  by (simp add: stays_def)

lemma stays_trans: "stays x y \<Longrightarrow> stays y z \<Longrightarrow> stays x z"
  by (auto simp: stays_def)

lemma advances_refl [simp]: "advances x x"
  by (auto simp: advances_def split: option.splits intro: State.exhaust)

lemma advances_simps [simp]:
  "advances x None"
  "advances (Some c) (Some d) \<longleftrightarrow>
     cn_state d = Block \<or> cn_state c = Wait \<and> cn_held d = cn_held c"
  "\<not> advances None (Some d)"
  by (auto simp: advances_def split: option.splits)

lemma advances_trans: "advances x y \<Longrightarrow> advances y z \<Longrightarrow> advances x z"
  by (auto simp: advances_def split: option.splits)

lemma stays_advances: "stays x y \<Longrightarrow> advances x y"
  by (auto simp: stays_def advances_def split: option.splits intro: State.exhaust)

definition evolves ::
    "u32 set \<Rightarrow> (u32 \<times> bool) multiset \<Rightarrow> 'r extractor \<Rightarrow> 'r extractor \<Rightarrow> bool" where
  "evolves K new s s' \<longleftrightarrow>
     x_max_flows s' = x_max_flows s \<and> x_max_blocked s' = x_max_blocked s \<and>
     x_feeding s' = x_feeding s \<and> x_current_key s' = x_current_key s \<and>
     x_lastSweep s' = x_lastSweep s \<and>
     debt s' = debt s + new \<and> prefix (x_decided s) (x_decided s') \<and>
     prefix (x_asked s) (x_asked s') \<and> keeps K s s'"

lemma keeps_refl [simp]: "keeps K s s"
  by (simp add: keeps_def)

lemma keeps_trans: "keeps K s s' \<Longrightarrow> keeps K s' s'' \<Longrightarrow> keeps K s s''"
  unfolding keeps_def by (blast intro: stays_trans advances_trans)

lemma keeps_mono: "keeps K s s' \<Longrightarrow> K \<subseteq> L \<Longrightarrow> keeps L s s'"
  unfolding keeps_def by (blast intro: stays_advances)

lemma evolves_refl [simp]: "evolves K {#} s s"
  by (simp add: evolves_def)

lemma evolves_trans: "evolves K m s s' \<Longrightarrow> evolves K n s' s'' \<Longrightarrow> evolves K (m + n) s s''"
  unfolding evolves_def by (auto simp: ac_simps intro: keeps_trans prefix_order.trans)

lemma evolves_trans0: "evolves K {#} s s' \<Longrightarrow> evolves K {#} s' s'' \<Longrightarrow> evolves K {#} s s''"
  using evolves_trans [of K "{#}" s s' "{#}" s''] by simp

section \<open>Primitive updates\<close>

named_theorems conn_simps "reading the table after a primitive update"

lemma find_put [conn_simps]:
  "find_conn (put_conn k c s) k' = (if k' = k then Some c else find_conn s k')"
  by (simp add: put_conn_def map_of_update_iff)

lemma find_erase [conn_simps]:
  "find_conn (erase_conn k s) k' = (if k' = k then None else find_conn s k')"
  by (simp add: erase_conn_def map_of_delete_iff)

lemma put_conn_fields [conn_simps]:
  "x_max_flows (put_conn k c s) = x_max_flows s" "x_max_blocked (put_conn k c s) = x_max_blocked s"
  "x_feeding (put_conn k c s) = x_feeding s" "x_current_key (put_conn k c s) = x_current_key s"
  "x_block_ring (put_conn k c s) = x_block_ring s" "x_block_next (put_conn k c s) = x_block_next s"
  "x_decided (put_conn k c s) = x_decided s" "x_asked (put_conn k c s) = x_asked s"
  "x_lastSweep (put_conn k c s) = x_lastSweep s" "x_to_close (put_conn k c s) = x_to_close s"
  "x_reassembly (put_conn k c s) = x_reassembly s"
  by (simp_all add: put_conn_def)

lemma erase_conn_fields [conn_simps]:
  "x_max_flows (erase_conn k s) = x_max_flows s" "x_max_blocked (erase_conn k s) = x_max_blocked s"
  "x_feeding (erase_conn k s) = x_feeding s" "x_current_key (erase_conn k s) = x_current_key s"
  "x_block_ring (erase_conn k s) = x_block_ring s" "x_block_next (erase_conn k s) = x_block_next s"
  "x_decided (erase_conn k s) = x_decided s" "x_asked (erase_conn k s) = x_asked s"
  "x_lastSweep (erase_conn k s) = x_lastSweep s" "x_to_close (erase_conn k s) = x_to_close s"
  "x_reassembly (erase_conn k s) = x_reassembly s"
  by (simp_all add: erase_conn_def)

lemma publish_fields [conn_simps]:
  "x_conns (publish s) = x_conns s"
  "x_max_flows (publish s) = x_max_flows s" "x_max_blocked (publish s) = x_max_blocked s"
  "x_feeding (publish s) = x_feeding s" "x_current_key (publish s) = x_current_key s"
  "x_block_ring (publish s) = x_block_ring s" "x_block_next (publish s) = x_block_next s"
  "x_decided (publish s) = x_decided s" "x_asked (publish s) = x_asked s"
  "x_lastSweep (publish s) = x_lastSweep s" "x_to_close (publish s) = x_to_close s"
  "x_reassembly (publish s) = x_reassembly s"
  by (simp_all add: publish_def)

lemma decide_fields [conn_simps]:
  "x_conns (decide p v s) = x_conns s"
  "x_max_flows (decide p v s) = x_max_flows s" "x_max_blocked (decide p v s) = x_max_blocked s"
  "x_feeding (decide p v s) = x_feeding s" "x_current_key (decide p v s) = x_current_key s"
  "x_block_ring (decide p v s) = x_block_ring s" "x_block_next (decide p v s) = x_block_next s"
  "x_decided (decide p v s) = x_decided s @ [\<lparr>dc_pkt = p, dc_verdict = v\<rparr>]"
  "x_asked (decide p v s) = x_asked s"
  "x_lastSweep (decide p v s) = x_lastSweep s" "x_to_close (decide p v s) = x_to_close s"
  "x_reassembly (decide p v s) = x_reassembly s"
  by (simp_all add: decide_def)

text \<open>The loop that gives every held packet the same verdict.\<close>

lemma decide_all:
  "foldl (\<lambda>t p. decide p v t) s ps =
     s\<lparr>x_decided := x_decided s @ map (\<lambda>p. \<lparr>dc_pkt = p, dc_verdict = v\<rparr>) ps\<rparr>"
  by (induction ps arbitrary: s) (simp_all add: decide_def)

lemma table_put:
  assumes "table_ok K s" "conn_ok c \<or> k \<in> L \<and> cn_state c = Wait" "K - {k} \<subseteq> L"
    "find_conn s k \<noteq> None \<or> length (x_conns s) < x_max_flows s"
  shows "table_ok L (put_conn k c s)"
proof -
  have "length (x_conns (put_conn k c s)) \<le> x_max_flows s"
    using assms(1,4) by (cases "find_conn s k")
      (auto simp: table_ok_def put_conn_def length_update_absent length_update_present)
  with assms show ?thesis
    by (auto simp: table_ok_def conn_simps)
      (auto simp: put_conn_def AList.distinct_update split: if_splits)
qed

lemma table_erase: "table_ok K s \<Longrightarrow> table_ok (K - {k}) (erase_conn k s)"
  by (auto simp: table_ok_def conn_simps split: if_splits)
    (auto simp: erase_conn_def AList.distinct_delete intro: le_trans [OF length_delete_le])

lemma ring_put:
  assumes "ring_ok B s" "cn_state c = Block \<Longrightarrow> k \<in> B \<or> k \<in> set (x_block_ring s)"
  shows "ring_ok B (put_conn k c s)"
  using assms by (auto simp: ring_ok_def conn_simps split: if_splits)

lemma ring_erase: "ring_ok B s \<Longrightarrow> ring_ok (B - {k}) (erase_conn k s)"
  by (auto simp: ring_ok_def conn_simps split: if_splits)

lemma table_find:
  "table_ok K s \<Longrightarrow> find_conn s k = Some c \<Longrightarrow> conn_ok c \<or> k \<in> K \<and> cn_state c = Wait"
  unfolding table_ok_def by blast

lemma table_distinct: "table_ok K s \<Longrightarrow> distinct (map fst (x_conns s))"
  by (simp add: table_ok_def)

text \<open>The invariant reads the table, the ring and the two bounds only.\<close>

lemma table_cong:
  "x_conns s' = x_conns s \<Longrightarrow> x_max_flows s' = x_max_flows s \<Longrightarrow> table_ok K s' = table_ok K s"
  by (simp add: table_ok_def)

lemma ring_cong:
  "x_conns s' = x_conns s \<Longrightarrow> x_max_flows s' = x_max_flows s \<Longrightarrow>
   x_max_blocked s' = x_max_blocked s \<Longrightarrow> x_block_ring s' = x_block_ring s \<Longrightarrow>
   x_block_next s' = x_block_next s \<Longrightarrow> ring_ok B s' = ring_ok B s"
  by (simp add: ring_ok_def)

lemma table_mono: "table_ok K s \<Longrightarrow> K \<subseteq> L \<Longrightarrow> table_ok L s"
  unfolding table_ok_def by blast

lemma xinv_mono: "xinv K s \<Longrightarrow> K \<subseteq> L \<Longrightarrow> xinv L s"
  by (auto simp: xinv_def intro: table_mono)

lemma keeps_put:
  assumes "find_conn s k = Some c0" "k \<in> K"
    "cn_state c = Block \<or> cn_state c0 = Wait \<and> cn_held c = cn_held c0"
  shows "keeps K s (put_conn k c s)"
  using assms by (auto simp: keeps_def conn_simps)

lemma keeps_erase:
  assumes "k \<in> K \<or> map_option cn_state (find_conn s k) = Some Block"
  shows "keeps K s (erase_conn k s)"
  using assms by (auto simp: keeps_def conn_simps stays_def)

lemma debt_put:
  assumes "distinct (map fst (x_conns s))" "find_conn s k = Some c0"
    "mset (map tag (cn_held c)) = mset (map tag (cn_held c0)) + new"
  shows "debt (put_conn k c s) = debt s + new"
  using assms held_tags_split [OF assms(1,2)] held_tags_update [OF assms(1), of k c]
  by (simp add: debt_def put_conn_def ac_simps)

lemma debt_erase:
  assumes "distinct (map fst (x_conns s))" "find_conn s k = Some c0" "cn_held c0 = []"
  shows "debt (erase_conn k s) = debt s"
  using assms held_tags_split [OF assms(1,2)]
  by (simp add: debt_def erase_conn_def)

section \<open>The ring of blocked flows\<close>

lemma conn_ok_block: "conn_ok c \<Longrightarrow> cn_state c = Block \<Longrightarrow> cn_held c = [] \<and> cn_stream c = []"
  by (simp add: conn_ok_def)

lemma evict_evolves:
  assumes "table_ok K s" "find_conn s k = Some c" "cn_state c = Block"
  shows "evolves L {#} s (publish (erase_conn k s))"
proof -
  have "conn_ok c" "distinct (map fst (x_conns s))"
    using assms table_find [OF assms(1,2)] by (auto simp: table_ok_def)
  then have "debt (erase_conn k s) = debt s"
    using assms by (intro debt_erase) (auto dest: conn_ok_block)
  moreover have "keeps L s (erase_conn k s)"
    using assms by (intro keeps_erase) simp
  ultimately show ?thesis
    by (simp add: evolves_def conn_simps debt_def keeps_def)
qed

text \<open>Taking the slot under the hand: the key that stood there is no longer looked for.\<close>

lemma ring_store_ok:
  assumes "ring_ok B s" "x_block_next s < x_max_blocked s \<Longrightarrow>
     map_option cn_state (find_conn s (x_block_ring s ! x_block_next s)) = Some Block \<Longrightarrow>
     x_block_ring s ! x_block_next s \<in> {0, k} \<union> B"
  shows "ensures (ring_store k s) (\<lambda>s'. ring_ok (B - {k}) s' \<and>
    s' = s\<lparr>x_block_ring := (x_block_ring s)[x_block_next s := k],
           x_block_next := (x_block_next s + 1) mod x_max_blocked s\<rparr>)"
proof -
  have "j \<in> set ((x_block_ring s)[x_block_next s := k])"
    if "find_conn s j = Some c" "cn_state c = Block" "j \<notin> insert 0 B"
      "j \<in> set (x_block_ring s)" for j c
  proof -
    from that(4) obtain i where i: "i < length (x_block_ring s)" "x_block_ring s ! i = j"
      by (auto simp: in_set_conv_nth)
    show ?thesis
    proof (cases "i = x_block_next s")
      case True
      with assms i that have "j = k" by (auto simp: ring_ok_def)
      with True i show ?thesis by (simp add: set_update_memI)
    next
      case False
      with i show ?thesis by (metis length_list_update nth_list_update_neq nth_mem)
    qed
  qed
  moreover have "k \<in> set ((x_block_ring s)[x_block_next s := k])"
    using assms(1) by (intro set_update_memI) (simp add: ring_ok_def)
  ultimately show ?thesis
    using assms(1) by (fastforce simp: ring_store_def ring_ok_def)
qed

text \<open>The two updates of the ring leave everything but the ring alone.\<close>

lemma evolves_ring [simp]:
  "evolves K n s (s'\<lparr>x_block_ring := r, x_block_next := i\<rparr>) = evolves K n s s'"
  by (simp add: evolves_def debt_def keeps_def)

lemma table_ring [simp]: "table_ok K (s\<lparr>x_block_ring := r, x_block_next := i\<rparr>) = table_ok K s"
  by (simp add: table_ok_def)

lemma table_publish [simp]: "table_ok K (publish s) = table_ok K s"
  by (rule table_cong) (simp_all add: conn_simps)

lemma ring_publish [simp]: "ring_ok K (publish s) = ring_ok K s"
  by (rule ring_cong) (simp_all add: conn_simps)

lemma remember_blocked_ok:
  assumes "table_ok {} s" "ring_ok {key} s"
  shows "ensures (remember_blocked key s)
    (\<lambda>s'. xinv {} s' \<and> evolves {} {#} s s' \<and> x_to_close s' = x_to_close s \<and>
          x_decided s' = x_decided s \<and> x_asked s' = x_asked s \<and>
          find_conn s' key = find_conn s key)"
proof -
  define victim where "victim = x_block_ring s ! x_block_next s"
  have at: "ring_at s = Some victim"
    using assms(2) by (simp add: ring_at_def ring_ok_def victim_def)
  show ?thesis
  proof (cases "victim \<notin> {0, key} \<and> map_option cn_state (find_conn s victim) = Some Block")
    case True
    let ?t = "publish (erase_conn victim s)"
    from True obtain c where c: "find_conn s victim = Some c" "cn_state c = Block" by auto
    have run: "remember_blocked key s = ring_store key ?t"
      using True c at by (simp add: remember_blocked_def)
    have t: "table_ok {} ?t" "ring_ok {key} ?t" "evolves {} {#} s ?t"
      using table_erase [OF assms(1), of victim] ring_erase [OF assms(2), of victim]
        evict_evolves [OF assms(1) c] True by (auto simp: insert_Diff_if)
    show ?thesis
      unfolding run using True t(1)
      by (intro ensures_mono [OF ring_store_ok [OF t(2)]])
        (auto simp: xinv_def t conn_simps simp flip: victim_def)
  next
    case False
    then have run: "remember_blocked key s = ring_store key s"
      using at by (auto simp: remember_blocked_def split: option.splits)
    show ?thesis
      unfolding run using assms(1) False
      by (intro ensures_mono [OF ring_store_ok [OF assms(2)]]) (auto simp: xinv_def victim_def)
  qed
qed

text \<open>Dropping blocked flows, oldest registration first, until one is found.\<close>

lemma evict_turns_ok:
  assumes "xinv {} s"
  shows "ensures (evict_turns n s) (\<lambda>(found, s'). xinv {} s' \<and> evolves {} {#} s s' \<and>
    (if found then length (x_conns s') < length (x_conns s) else x_conns s' = x_conns s))"
  using assms
proof (induction n arbitrary: s)
  case (Suc n)
  define victim where "victim = x_block_ring s ! x_block_next s"
  from Suc.prems have inv: "table_ok {} s" "ring_ok {} s" by (simp_all add: xinv_def)
  have at: "ring_at s = Some victim"
    using inv(2) by (simp add: ring_at_def ring_ok_def victim_def)
  define t where "t = s\<lparr>x_block_ring := (x_block_ring s)[x_block_next s := 0],
           x_block_next := (x_block_next s + 1) mod x_max_blocked s\<rparr>"
  have store: "ring_store 0 s = Some t"
    using inv(2) by (simp add: ring_store_def ring_ok_def t_def)
  have t: "table_ok {} t" "evolves {} {#} s t" "x_conns t = x_conns s"
    using inv by (simp_all add: t_def)
  show ?case
  proof (cases "victim \<noteq> 0 \<and> map_option cn_state (find_conn s victim) = Some Block")
    case True
    then obtain c where c: "find_conn t victim = Some c" "cn_state c = Block"
      using t(3) by auto
    let ?u = "publish (erase_conn victim t)"
    have "ring_ok {victim} t"
      using ring_store_ok [of "{victim}" s 0] inv(2) store True
      by (auto simp: ring_ok_def victim_def)
    then have "xinv {} ?u"
      using table_erase [OF t(1), of victim] ring_erase [of "{victim}" t victim]
      by (simp add: xinv_def)
    moreover have "evolves {} {#} s ?u"
      using t evict_evolves [OF t(1) c] by (blast intro: evolves_trans0)
    moreover have "length (x_conns ?u) < length (x_conns s)"
      using c t(3) by (simp add: conn_simps) (simp add: erase_conn_def length_delete_present)
    ultimately show ?thesis using at store True c by simp
  next
    case False
    have "xinv {} t"
      using ring_store_ok [OF inv(2), of 0] False t(1) store
      by (auto simp: xinv_def victim_def)
    have run: "evict_turns (Suc n) s = evict_turns n t"
      using at store False t(3) by (auto split: option.splits)
    show ?thesis
      unfolding run using t
      by (intro ensures_mono [OF Suc.IH [OF \<open>xinv {} t\<close>]])
        (auto split: if_splits intro: evolves_trans0)
  qed
qed simp

section \<open>Resolving a flow\<close>

lemma xinv_shrink:
  assumes "xinv {key} s" "map_option cn_state (find_conn s key) \<noteq> Some Wait"
  shows "xinv {} s"
  using assms unfolding xinv_def table_ok_def by fastforce

lemma evolves_ghost [simp]:
  "evolves K n s (s'\<lparr>x_to_close := q\<rparr>) = evolves K n s s'"
  "evolves K n s (s'\<lparr>x_reassembly := r\<rparr>) = evolves K n s s'"
  "evolves K n s (s'\<lparr>x_blocked := b\<rparr>) = evolves K n s s'"
  "evolves K n s (publish s') = evolves K n s s'"
  by (simp_all add: evolves_def debt_def keeps_def publish_def)

lemma xinv_ghost [simp]:
  "xinv K (s\<lparr>x_to_close := q\<rparr>) = xinv K s"
  "xinv K (s\<lparr>x_reassembly := r\<rparr>) = xinv K s"
  "xinv K (s\<lparr>x_decided := ds\<rparr>) = xinv K s"
  "xinv K (s\<lparr>x_asked := hs\<rparr>) = xinv K s"
  "xinv K (s\<lparr>x_feeding := b\<rparr>) = xinv K s"
  "xinv K (s\<lparr>x_current_key := k\<rparr>) = xinv K s"
  "xinv K (s\<lparr>x_lastSweep := t\<rparr>) = xinv K s"
  "xinv K (s\<lparr>x_blocked := n\<rparr>) = xinv K s"
  "xinv K (s\<lparr>x_dropped_at_cap := d\<rparr>) = xinv K s"
  "xinv K (publish s) = xinv K s" "xinv K (decide p v s) = xinv K s"
  by (simp_all add: xinv_def table_ok_def ring_ok_def publish_def decide_def)

text \<open>
  The effect of \<^verbatim>\<open>resolve\<close> on an undecided flow: the policy is asked once, every held
  packet gets its answer in arrival order, and the flow is forgotten or remembered as
  blocked.
\<close>

definition resolved :: "u32 \<Rightarrow> Conn \<Rightarrow> Verdict \<Rightarrow> string option \<Rightarrow> 'r extractor \<Rightarrow> 'r extractor \<Rightarrow> bool" where
  "resolved key c v h s s' \<longleftrightarrow>
     x_decided s' = x_decided s @ map (\<lambda>p. \<lparr>dc_pkt = p, dc_verdict = v\<rparr>) (cn_held c) \<and>
     x_asked s' = x_asked s @ [h] \<and>
     find_conn s' key =
       (if v = BLOCK then Some (c\<lparr>cn_state := Block, cn_held := [], cn_stream := []\<rparr>) else None) \<and>
     x_to_close s' =
       x_to_close s @ (if cn_pcpp_key c \<noteq> 0 \<and> \<not> cn_pcpp_closed c then [cn_pcpp_key c] else [])"

text \<open>The change to the table, before the held packets are handed out.\<close>

definition unlinked :: "u32 \<Rightarrow> Conn \<Rightarrow> Conn option \<Rightarrow> 'r extractor \<Rightarrow> 'r extractor \<Rightarrow> bool" where
  "unlinked key c d s s' \<longleftrightarrow>
     xinv {} s' \<and> x_decided s' = x_decided s \<and> x_asked s' = x_asked s \<and>
     x_to_close s' = x_to_close s \<and> find_conn s' key = d \<and>
     x_max_flows s' = x_max_flows s \<and> x_max_blocked s' = x_max_blocked s \<and>
     x_feeding s' = x_feeding s \<and> x_current_key s' = x_current_key s \<and>
     x_lastSweep s' = x_lastSweep s \<and> keeps {key} s s' \<and>
     held_tags (x_conns s) = mset (map tag (cn_held c)) + held_tags (x_conns s')"

lemma unlink_erase:
  assumes "xinv {key} s" "find_conn s key = Some c"
  shows "unlinked key c None s (erase_conn key s)"
proof -
  have inv: "table_ok {key} s" "ring_ok {} s" using assms(1) by (simp_all add: xinv_def)
  have "xinv {} (erase_conn key s)"
    using table_erase [OF inv(1), of key] ring_erase [OF inv(2), of key] by (simp add: xinv_def)
  moreover have "keeps {key} s (erase_conn key s)" by (intro keeps_erase) simp
  moreover have "held_tags (x_conns s) =
      mset (map tag (cn_held c)) + held_tags (x_conns (erase_conn key s))"
    using held_tags_split [OF table_distinct [OF inv(1)] assms(2)] by (simp add: erase_conn_def)
  ultimately show ?thesis by (simp add: unlinked_def conn_simps)
qed

lemma unlink_block:
  assumes "xinv {key} s" "find_conn s key = Some c" "cn_held d = []" "cn_stream d = []"
    "cn_state d = Block"
  shows "ensures (remember_blocked key (put_conn key d s)) (unlinked key c (Some d) s)"
proof -
  let ?t = "put_conn key d s"
  have inv: "table_ok {key} s" "ring_ok {} s" using assms(1) by (simp_all add: xinv_def)
  have "conn_ok d" using assms by (simp add: conn_ok_def)
  then have "table_ok {} ?t" using assms(2) by (intro table_put [OF inv(1)]) auto
  moreover have "ring_ok {key} ?t" using inv(2) by (auto simp: ring_ok_def conn_simps)
  ultimately have rb: "ensures (remember_blocked key ?t)
    (\<lambda>s'. xinv {} s' \<and> evolves {} {#} ?t s' \<and> x_to_close s' = x_to_close ?t \<and>
          x_decided s' = x_decided ?t \<and> x_asked s' = x_asked ?t \<and>
          find_conn s' key = find_conn ?t key)"
    by (rule remember_blocked_ok)
  have held: "held_tags (x_conns s) = mset (map tag (cn_held c)) + held_tags (x_conns ?t)"
    using held_tags_split [OF table_distinct [OF inv(1)] assms(2)] assms(3)
      held_tags_update [OF table_distinct [OF inv(1)], of key d] by (simp add: put_conn_def)
  have put: "keeps {key} s ?t" using assms(2,5) by (intro keeps_put) auto
  show ?thesis
  proof (rule ensures_mono [OF rb], elim conjE)
    fix s'
    assume s': "xinv {} s'" "evolves {} {#} ?t s'" "x_to_close s' = x_to_close ?t"
      "x_decided s' = x_decided ?t" "x_asked s' = x_asked ?t"
      "find_conn s' key = find_conn ?t key"
    then have "held_tags (x_conns s') = held_tags (x_conns ?t)" "keeps {} ?t s'"
      by (simp_all add: evolves_def debt_def)
    with put have "keeps {key} s s'" by (blast intro: keeps_trans keeps_mono)
    with s' held \<open>held_tags (x_conns s') = _\<close> show "unlinked key c (Some d) s s'"
      by (simp add: unlinked_def evolves_def conn_simps)
  qed
qed

lemma resolve_wait:
  assumes "xinv {key} s" "find_conn s key = Some c" "cn_state c = Wait"
  shows "ensures (resolve W key h s)
    (\<lambda>s'. xinv {} s' \<and> evolves {key} {#} s s' \<and> resolved key c (w_decide W h) h s s')"
proof -
  define d where "d = c\<lparr>cn_state := Block, cn_held := [], cn_stream := []\<rparr>"
  define s0 where "s0 = s\<lparr>x_asked := x_asked s @ [h]\<rparr>"
  define e where "e = (if w_decide W h = BLOCK then Some d else None)"
  have s0: "xinv {key} s0" "find_conn s0 key = Some c"
    using assms by (simp_all add: s0_def)
  have "ensures (if w_decide W h = BLOCK then remember_blocked key (put_conn key d s0)
      else Some (erase_conn key s0)) (unlinked key c e s0)"
    using unlink_erase [OF s0] unlink_block [OF s0, of d] by (simp add: d_def e_def)
  then obtain s1 where s1: "(if w_decide W h = BLOCK then remember_blocked key (put_conn key d s0)
      else Some (erase_conn key s0)) = Some s1" "unlinked key c e s0 s1"
    by (auto simp: ensures_iff)
  have "keeps {key} s s1" "held_tags (x_conns s) = mset (map tag (cn_held c)) + held_tags (x_conns s1)"
    using s1(2) by (auto simp: unlinked_def s0_def keeps_def)
  moreover have "resolve W key h s = Some (s1\<lparr>
      x_to_close := x_to_close s1 @
        (if cn_pcpp_key c \<noteq> 0 \<and> \<not> cn_pcpp_closed c then [cn_pcpp_key c] else []),
      x_decided := x_decided s1 @ map (\<lambda>p. \<lparr>dc_pkt = p, dc_verdict = w_decide W h\<rparr>) (cn_held c)\<rparr>)"
    using s1(1) assms(2,3) unfolding resolve_def d_def s0_def
    by (cases "w_decide W h = BLOCK") (simp_all add: Let_def decide_all)
  ultimately show ?thesis
    using s1(2)
    by (simp add: unlinked_def s0_def d_def e_def evolves_def resolved_def debt_def keeps_def
        multiset.map_comp comp_def ac_simps)
qed

lemma resolve_ok:
  assumes "xinv {key} s"
  shows "ensures (resolve W key h s) (\<lambda>s'. xinv {} s' \<and> evolves {key} {#} s s')"
proof (cases "map_option cn_state (find_conn s key) = Some Wait")
  case True
  then obtain c where "find_conn s key = Some c" "cn_state c = Wait" by auto
  from resolve_wait [OF assms this, of W h] show ?thesis by (rule ensures_mono) simp
next
  case False
  then have "resolve W key h s = Some s"
    by (auto simp: resolve_def split: option.splits) (metis State.exhaust)
  with xinv_shrink [OF assms False] show ?thesis by simp
qed

end
