(* ===== verification/Extractor_Events.thy ===== *)
theory Extractor_Events
  imports Extractor_Inv
begin

text \<open>
  The callbacks of the reassembler keep the invariant; what they decide depends on the
  bytes of the client's stream only, not on how these were cut into messages; and
  outside \<^verbatim>\<open>feed\<close> they do nothing.
\<close>

section \<open>What is assumed of the surroundings\<close>

text \<open>
  A message handed over by the reassembler is the payload of a segment, so that together
  with the bytes a flow may have buffered its length fits in 32 bits; and a traversal of
  the hash table visits each entry once, in some order.
\<close>

definition event_ok :: "pcpp_event \<Rightarrow> bool" where
  "event_ok e = (case e of MessageReady _ _ d \<Rightarrow> kMaxStreamBytes + length d < U32_SPAN | _ \<Rightarrow> True)"

definition world_ok :: "'r world \<Rightarrow> bool" where
  "world_ok W \<longleftrightarrow>
     (\<forall>r raw. list_all event_ok (snd (w_reassemble W r raw))) \<and>
     (\<forall>ks. mset (w_traverse W ks) = mset ks)"

lemma world_ok_events: "world_ok W \<Longrightarrow> list_all event_ok (snd (w_reassemble W r raw))"
  by (simp add: world_ok_def)

lemma world_ok_traverse:
  assumes "world_ok W"
  shows "set (w_traverse W ks) = set ks" "distinct (w_traverse W ks) = distinct ks"
    "length (w_traverse W ks) = length ks"
  using assms unfolding world_ok_def
  by (metis set_mset_mset, metis mset_eq_imp_distinct_iff, metis size_mset)

section \<open>Callbacks\<close>

lemma put_ok:
  assumes "xinv {} s" "find_conn s k = Some c0" "cn_state c = cn_state c0" "cn_held c = cn_held c0"
    "conn_ok c \<or> k \<in> L \<and> cn_state c = Wait"
  shows "xinv L (put_conn k c s) \<and> evolves {k} {#} s (put_conn k c s)"
proof -
  have inv: "table_ok {} s" "ring_ok {} s" using assms(1) by (simp_all add: xinv_def)
  have "table_ok L (put_conn k c s)"
    using assms by (intro table_put [OF inv(1)]) auto
  moreover have "ring_ok {} (put_conn k c s)"
    using inv(2) assms(2,3) by (auto simp: ring_ok_def conn_simps)
  moreover have "debt (put_conn k c s) = debt s"
    using debt_put [OF table_distinct [OF inv(1)] assms(2), of c "{#}"] assms(4) by simp
  moreover have "keeps {k} s (put_conn k c s)"
    using assms(2-4) by (intro keeps_put) (auto intro: State.exhaust)
  ultimately show ?thesis by (simp add: xinv_def evolves_def conn_simps)
qed

lemma onConnectionStart_ok:
  assumes "xinv {} s"
  shows "ensures (onConnectionStart k s) (\<lambda>s'. xinv {} s' \<and> evolves {x_current_key s} {#} s s')"
proof (cases "find_conn s (x_current_key s)")
  case (Some c)
  have "conn_ok c" using table_find [OF _ Some] assms by (auto simp: xinv_def)
  then have "conn_ok (c\<lparr>cn_pcpp_key := k\<rparr>)" by simp
  with put_ok [OF assms Some, of "c\<lparr>cn_pcpp_key := k\<rparr>" "{}"] Some assms
  show ?thesis by (simp add: onConnectionStart_def)
qed (use assms in \<open>simp add: onConnectionStart_def\<close>)

text \<open>The message handler as a function of the bytes the flow has buffered.\<close>

lemma onMessageReady_eq:
  assumes "x_feeding s" "find_conn s (x_current_key s) = Some c" "cn_state c = Wait"
    "length (cn_stream c @ data) < U32_SPAN"
  shows "onMessageReady W kClientSide k data s =
    (let s' = put_conn (x_current_key s) (c\<lparr>cn_pcpp_key := k, cn_stream := cn_stream c @ data\<rparr>) s in
     case hostname_in (cn_stream c @ data) of
       None \<Rightarrow> None
     | Some (Found n) \<Rightarrow> resolve W (x_current_key s) (Some (string_of_bytes n)) s'
     | Some NotFound \<Rightarrow> resolve W (x_current_key s) None s'
     | Some NeedMore \<Rightarrow>
         if length (cn_stream c @ data) > kMaxStreamBytes
         then resolve W (x_current_key s) None s' else Some s')"
proof -
  let ?p = "cn_stream c @ data"
  obtain r where r: "extractHostname ?p (length ?p) = Some r" "span_within r"
    using extractHostname_safe [of "length ?p" ?p] assms(4) by (auto simp: ensures_iff)
  then have "hostname_in ?p = Some (host_text r)" by (simp add: hostname_in_def)
  with r assms show ?thesis
    unfolding onMessageReady_def
    by (cases r) (auto simp: host_text_def byte_slice_def Let_def)
qed

lemma onMessageReady_ignored:
  assumes "\<not> x_feeding s \<or> side \<noteq> kClientSide \<or>
    map_option cn_state (find_conn s (x_current_key s)) \<noteq> Some Wait"
  shows "onMessageReady W side k data s = Some s"
  using assms by (auto simp: onMessageReady_def split: option.splits)

lemma conn_ok_stream: "conn_ok c \<Longrightarrow> length (cn_stream c) \<le> kMaxStreamBytes"
  by (cases "cn_state c") (auto simp: conn_ok_def)

lemma onMessageReady_ok:
  assumes "xinv {} s" "event_ok (MessageReady side k data)"
  shows "ensures (onMessageReady W side k data s)
    (\<lambda>s'. xinv {} s' \<and> evolves {x_current_key s} {#} s s')"
proof (cases "x_feeding s \<and> side = kClientSide \<and>
    map_option cn_state (find_conn s (x_current_key s)) = Some Wait")
  case True
  then obtain c where c: "find_conn s (x_current_key s) = Some c" "cn_state c = Wait" by auto
  let ?p = "cn_stream c @ data" and ?key = "x_current_key s"
  let ?c = "c\<lparr>cn_pcpp_key := k, cn_stream := ?p\<rparr>"
  let ?s = "put_conn ?key ?c s"
  have ok: "conn_ok c" using table_find [OF _ c(1)] assms(1) by (auto simp: xinv_def)
  then have len: "length ?p < U32_SPAN"
    using conn_ok_stream [OF ok] assms(2) by (simp add: event_ok_def)
  obtain r where r: "hostname_in ?p = Some r" using hostname_in_defined [OF len] by auto
  have put: "xinv {?key} ?s" "evolves {?key} {#} s ?s"
    using put_ok [OF assms(1) c(1), of ?c "{?key}"] c(2) by simp_all
  have rs: "ensures (resolve W ?key h ?s) (\<lambda>s'. xinv {} s' \<and> evolves {?key} {#} s s')" for h
    by (rule ensures_mono [OF resolve_ok [OF put(1)]]) (use put(2) in \<open>auto intro: evolves_trans0\<close>)
  have stay: "xinv {} ?s" if "r = NeedMore" "length ?p \<le> kMaxStreamBytes"
  proof -
    have "conn_ok ?c" using ok c(2) r that by (simp add: conn_ok_def)
    then show ?thesis using put_ok [OF assms(1) c(1), of ?c "{}"] by simp
  qed
  show ?thesis
    using True onMessageReady_eq [OF _ c len, of W k] r rs stay put(2)
    by (cases r) (auto simp: Let_def)
next
  case False
  then have "onMessageReady W side k data s = Some s" by (intro onMessageReady_ignored) auto
  with assms(1) show ?thesis by simp
qed

lemma onConnectionEnd_ok:
  assumes "xinv {} s"
  shows "ensures (onConnectionEnd W s) (\<lambda>s'. xinv {} s' \<and> evolves {x_current_key s} {#} s s')"
proof (cases "find_conn s (x_current_key s)")
  case (Some c)
  let ?key = "x_current_key s"
  let ?s = "put_conn ?key (c\<lparr>cn_pcpp_closed := True\<rparr>) s"
  have "conn_ok c" using table_find [OF _ Some] assms by (auto simp: xinv_def)
  then have "conn_ok (c\<lparr>cn_pcpp_closed := True\<rparr>)" by simp
  then have put: "xinv {?key} ?s" "evolves {?key} {#} s ?s"
    using put_ok [OF assms Some, of "c\<lparr>cn_pcpp_closed := True\<rparr>" "{?key}"] by simp_all
  have "ensures (resolve W ?key None ?s) (\<lambda>s'. xinv {} s' \<and> evolves {?key} {#} s s')"
    by (rule ensures_mono [OF resolve_ok [OF put(1)]]) (use put(2) in \<open>auto intro: evolves_trans0\<close>)
  with Some assms show ?thesis by (simp add: onConnectionEnd_def)
qed (use assms in \<open>simp add: onConnectionEnd_def\<close>)

lemma on_event_ok:
  assumes "xinv {} s" "event_ok e"
  shows "ensures (on_event W e s) (\<lambda>s'. xinv {} s' \<and> evolves {x_current_key s} {#} s s')"
  using assms onConnectionStart_ok onMessageReady_ok onConnectionEnd_ok by (cases e) auto

lemma events_ok:
  assumes "xinv {} s" "list_all event_ok es"
  shows "ensures (mfold (on_event W) es s) (\<lambda>s'. xinv {} s' \<and> evolves {x_current_key s} {#} s s')"
proof (rule ensures_mfold [where I = "\<lambda>t. xinv {} t \<and> evolves {x_current_key s} {#} s t"])
  fix e t
  assume "e \<in> set es" and t: "xinv {} t \<and> evolves {x_current_key s} {#} s t"
  with assms(2) have "event_ok e" by (simp add: list_all_iff)
  with t have "ensures (on_event W e t) (\<lambda>s'. xinv {} s' \<and> evolves {x_current_key t} {#} t s')"
    by (intro on_event_ok) auto
  moreover from t have "x_current_key t = x_current_key s" by (simp add: evolves_def)
  ultimately show "ensures (on_event W e t) (\<lambda>u. xinv {} u \<and> evolves {x_current_key s} {#} s u)"
    using t by (auto elim!: ensures_mono intro: evolves_trans0)
qed (use assms in simp)

section \<open>Outside a feed\<close>

text \<open>
  The callbacks that closing and purging trigger leave the extractor alone, because they
  come while no packet is being fed.
\<close>

lemma on_event_idle: "\<not> x_feeding s \<Longrightarrow> on_event W e s = Some s"
  by (cases e) (simp_all add: onConnectionStart_def onMessageReady_def onConnectionEnd_def)

lemma events_idle: "\<not> x_feeding s \<Longrightarrow> mfold (on_event W) es s = Some s"
  by (induction es) (simp_all add: on_event_idle)

lemma pcpp_call_idle:
  "\<not> x_feeding s \<Longrightarrow> pcpp_call W call s = Some (s\<lparr>x_reassembly := fst (call (x_reassembly s))\<rparr>)"
  by (simp add: pcpp_call_def events_idle split: prod.split)

lemma drain_closes_idle:
  assumes "\<not> x_feeding s"
  shows "drain_closes W s = Some (s\<lparr>x_reassembly :=
    foldl (\<lambda>r token. fst (w_close W r token)) (x_reassembly s) (x_to_close s), x_to_close := []\<rparr>)"
proof -
  have "mfold (\<lambda>token t. pcpp_call W (\<lambda>r. w_close W r token) t) q t =
      Some (t\<lparr>x_reassembly := foldl (\<lambda>r token. fst (w_close W r token)) (x_reassembly t) q\<rparr>)"
    if "\<not> x_feeding t" for q and t :: "'a extractor"
    using that
  proof (induction q arbitrary: t)
    case (Cons token q)
    then show ?case by (simp add: pcpp_call_idle)
  qed simp
  from this [OF assms, of "x_to_close s"] show ?thesis by (simp add: drain_closes_def)
qed

section \<open>The decision depends on the client's bytes only\<close>

text \<open>
  What a list of callbacks delivers of the client's stream, and the argument the policy
  is asked with for an answer of the parser.
\<close>

fun client_bytes :: "pcpp_event list \<Rightarrow> bytes" where
  "client_bytes [] = []"
| "client_bytes (MessageReady side k data # es) =
     (if side = kClientSide then data else []) @ client_bytes es"
| "client_bytes (e # es) = client_bytes es"

definition asked_for :: "bytes HostnameResult \<Rightarrow> string option" where
  "asked_for r = (case r of Found n \<Rightarrow> Some (string_of_bytes n) | _ \<Rightarrow> None)"

text \<open>The outcome of a run of callbacks for an undecided flow that held \<open>c\<close>.\<close>

definition settled :: "'r world \<Rightarrow> u32 \<Rightarrow> Conn \<Rightarrow> string option \<Rightarrow> 'r extractor \<Rightarrow> 'r extractor \<Rightarrow> bool" where
  "settled W key c h s s' \<longleftrightarrow>
     x_asked s' = x_asked s @ [h] \<and>
     x_decided s' = x_decided s @ map (\<lambda>p. \<lparr>dc_pkt = p, dc_verdict = w_decide W h\<rparr>) (cn_held c) \<and>
     map_option cn_state (find_conn s' key) = (if w_decide W h = BLOCK then Some Block else None)"

definition waiting :: "u32 \<Rightarrow> Conn \<Rightarrow> bytes \<Rightarrow> 'r extractor \<Rightarrow> 'r extractor \<Rightarrow> bool" where
  "waiting key c data s s' \<longleftrightarrow>
     x_asked s' = x_asked s \<and> x_decided s' = x_decided s \<and>
     (\<exists>c'. find_conn s' key = Some c' \<and> cn_state c' = Wait \<and> cn_held c' = cn_held c \<and>
           cn_stream c' = cn_stream c @ data \<and> cn_last c' = cn_last c)"

text \<open>Once a flow is settled, what the reassembler still has for it is ignored.\<close>

lemma on_event_settled:
  assumes "map_option cn_state (find_conn s (x_current_key s)) \<noteq> Some Wait"
  shows "ensures (on_event W e s) (\<lambda>s'. x_asked s' = x_asked s \<and> x_decided s' = x_decided s \<and>
    x_current_key s' = x_current_key s \<and>
    map_option cn_state (find_conn s' (x_current_key s)) =
      map_option cn_state (find_conn s (x_current_key s)))"
proof (cases e)
  case (MessageReady side k data)
  then show ?thesis using onMessageReady_ignored [of s side W k data] assms by simp
next
  case ConnectionEnd
  from assms have "find_conn s (x_current_key s) = None \<or>
      (\<exists>c. find_conn s (x_current_key s) = Some c \<and> cn_state c = Block)"
    by (cases "find_conn s (x_current_key s)") (auto intro: State.exhaust)
  with ConnectionEnd show ?thesis
    by (auto simp: onConnectionEnd_def resolve_def conn_simps)
qed (auto simp: onConnectionStart_def conn_simps split: option.splits)

lemma events_settled:
  assumes "map_option cn_state (find_conn s (x_current_key s)) \<noteq> Some Wait"
  shows "ensures (mfold (on_event W) es s) (\<lambda>s'. x_asked s' = x_asked s \<and>
    x_decided s' = x_decided s \<and> x_current_key s' = x_current_key s \<and>
    map_option cn_state (find_conn s' (x_current_key s)) =
      map_option cn_state (find_conn s (x_current_key s)))"
  using assms
proof (induction es arbitrary: s)
  case (Cons e es)
  obtain t where t: "on_event W e s = Some t" "x_asked t = x_asked s" "x_decided t = x_decided s"
    "x_current_key t = x_current_key s" "map_option cn_state (find_conn t (x_current_key s)) =
      map_option cn_state (find_conn s (x_current_key s))"
    using on_event_settled [OF Cons.prems, of W e] by (auto simp: ensures_iff)
  with Cons.IH [of t] Cons.prems show ?case by simp
qed simp

lemma resolve_settles:
  assumes "xinv {key} s" "find_conn s key = Some c" "cn_state c = Wait"
  shows "ensures (resolve W key h s) (settled W key c h s)"
  by (rule ensures_mono [OF resolve_wait [OF assms]]) (auto simp: resolved_def settled_def)

definition outcome :: "'r world \<Rightarrow> u32 \<Rightarrow> Conn \<Rightarrow> bytes \<Rightarrow> 'r extractor \<Rightarrow> 'r extractor \<Rightarrow> bool" where
  "outcome W key c data s s' =
     (case hostname_in (cn_stream c @ data) of
        None \<Rightarrow> False
      | Some NeedMore \<Rightarrow> waiting key c data s s'
      | Some r \<Rightarrow> settled W key c (asked_for r) s s')"

lemma outcome_settled:
  "hostname_in (cn_stream c @ data) = Some r \<Longrightarrow> r \<noteq> NeedMore \<Longrightarrow>
   outcome W key c data s = settled W key c (asked_for r) s"
  by (rule ext) (simp add: outcome_def split: HostnameResult.splits)

lemma outcome_waiting:
  "hostname_in (cn_stream c @ data) = Some NeedMore \<Longrightarrow> outcome W key c data s = waiting key c data s"
  by (rule ext) (simp add: outcome_def)

lemma outcome_cong:
  assumes "cn_held c' = cn_held c" "cn_last c' = cn_last c" "cn_stream c' @ d' = cn_stream c @ d"
    "x_asked t = x_asked s" "x_decided t = x_decided s"
  shows "outcome W key c' d' t = outcome W key c d s"
  using assms
  by (intro ext)
    (auto simp: outcome_def waiting_def settled_def split: option.splits HostnameResult.splits)

lemma message_step:
  assumes "xinv {} s" "x_feeding s" "find_conn s (x_current_key s) = Some c" "cn_state c = Wait"
    "length (cn_stream c @ data) \<le> kMaxStreamBytes"
  shows "ensures (on_event W (MessageReady kClientSide k data) s)
    (outcome W (x_current_key s) c data s)"
proof -
  let ?p = "cn_stream c @ data" and ?key = "x_current_key s"
  let ?c = "c\<lparr>cn_pcpp_key := k, cn_stream := ?p\<rparr>"
  let ?s = "put_conn ?key ?c s"
  have len: "length ?p < U32_SPAN" using assms(5) by (simp add: kMaxStreamBytes_def)
  obtain r where r: "hostname_in ?p = Some r" using hostname_in_defined [OF len] by auto
  have put: "xinv {?key} ?s" using put_ok [OF assms(1,3), of ?c "{?key}"] assms(4) by simp
  have find: "find_conn ?s ?key = Some ?c" by (simp add: conn_simps)
  have rs: "ensures (resolve W ?key h ?s) (settled W ?key c h s)" for h
    by (rule ensures_mono [OF resolve_settles [OF put find]])
      (use assms(4) in \<open>auto simp: settled_def conn_simps\<close>)
  show ?thesis
    using onMessageReady_eq [OF assms(2,3,4) len, of W k] r rs assms(4,5)
    by (cases r)
      (simp_all add: Let_def outcome_settled outcome_waiting waiting_def asked_for_def conn_simps)
qed

text \<open>A message of the client, for the flow whose packet is being handled.\<close>

lemma client_message:
  assumes "xinv {} s" "x_feeding s" "x_current_key s = key" "find_conn s key = Some c"
    "cn_state c = Wait" "length (cn_stream c @ data) \<le> kMaxStreamBytes"
  shows "ensures (on_event W (MessageReady kClientSide k data) s) (\<lambda>t.
    outcome W key c data s t \<and> xinv {} t \<and> x_feeding t \<and> x_current_key t = key)"
proof -
  have "event_ok (MessageReady kClientSide k data)"
    using assms(6) by (simp add: event_ok_def kMaxStreamBytes_def)
  from on_event_ok [OF assms(1) this, of W] message_step [OF assms(1,2) _ assms(5,6), of W k] assms
  show ?thesis by (fastforce simp: ensures_iff evolves_def)
qed

lemma settled_stays:
  assumes "settled W key c h s t" "x_current_key t = key"
  shows "ensures (mfold (on_event W) es t) (settled W key c h s)"
proof -
  have "map_option cn_state (find_conn t (x_current_key t)) \<noteq> Some Wait"
    using assms by (simp add: settled_def)
  from events_settled [OF this, of W es] show ?thesis
    by (rule ensures_mono) (use assms in \<open>simp add: settled_def\<close>)
qed

text \<open>If the flow is still undecided after some bytes, the rest of them is taken on from there.\<close>

lemma outcome_continues:
  assumes "outcome W key c data s t" "x_current_key t = key"
    "length (cn_stream c @ data @ rest) < U32_SPAN"
    "\<And>c'. find_conn t key = Some c' \<Longrightarrow> cn_state c' = Wait \<Longrightarrow> cn_stream c' = cn_stream c @ data \<Longrightarrow>
       ensures (mfold (on_event W) es t) (outcome W key c' rest t)"
  shows "ensures (mfold (on_event W) es t) (outcome W key c (data @ rest) s)"
proof -
  from assms(1) obtain r where r: "hostname_in (cn_stream c @ data) = Some r"
    by (auto simp: outcome_def split: option.splits)
  show ?thesis
  proof (cases "r = NeedMore")
    case True
    with r assms(1) obtain c' where c': "find_conn t key = Some c'" "cn_state c' = Wait"
      "cn_held c' = cn_held c" "cn_stream c' = cn_stream c @ data" "cn_last c' = cn_last c"
      "x_asked t = x_asked s" "x_decided t = x_decided s"
      by (auto simp: outcome_def waiting_def)
    with assms(4) [OF c'(1,2,4)] outcome_cong [of c' c rest "data @ rest" t s W key]
    show ?thesis by simp
  next
    case False
    then have "hostname_in (cn_stream c @ data @ rest) = Some r"
      using hostname_in_stable [of "cn_stream c @ data" rest r] assms(3) r by simp
    moreover have "settled W key c (asked_for r) s t"
      using False r assms(1) by (simp add: outcome_settled)
    ultimately show ?thesis
      using settled_stays [OF _ assms(2)] False by (simp add: outcome_settled)
  qed
qed

lemma stream_decides:
  assumes "xinv {} s" "x_feeding s" "x_current_key s = key" "find_conn s key = Some c"
    "cn_state c = Wait" "ConnectionEnd \<notin> set es"
    "length (cn_stream c @ client_bytes es) \<le> kMaxStreamBytes"
  shows "ensures (mfold (on_event W) es s) (outcome W key c (client_bytes es) s)"
  using assms
proof (induction es arbitrary: s c)
  case Nil
  then have "conn_ok c" using table_find [of "{}" s key c] by (simp add: xinv_def)
  with Nil show ?case by (simp add: outcome_def waiting_def conn_ok_def)
next
  case (Cons e es)
  show ?case
  proof (cases e)
    case (ConnectionStart k)
    let ?c = "c\<lparr>cn_pcpp_key := k\<rparr>"
    let ?t = "put_conn key ?c s"
    have run: "on_event W e s = Some ?t"
      using Cons.prems ConnectionStart by (simp add: onConnectionStart_def)
    have "xinv {} ?t"
      using onConnectionStart_ok [OF Cons.prems(1), of k] run ConnectionStart by simp
    then have "ensures (mfold (on_event W) es ?t) (outcome W key ?c (client_bytes es) ?t)"
      using Cons.prems ConnectionStart by (intro Cons.IH) (auto simp: conn_simps)
    then show ?thesis
      using run ConnectionStart outcome_cong [of ?c c "client_bytes es" "client_bytes es" ?t s W key]
      by (simp add: conn_simps)
  next
    case (MessageReady side k data)
    show ?thesis
    proof (cases "side = kClientSide")
      case False
      with MessageReady Cons show ?thesis by (simp add: onMessageReady_ignored)
    next
      case True
      with MessageReady Cons.prems client_message [OF Cons.prems(1-5), of data W k] obtain t where
        t: "on_event W e s = Some t" "outcome W key c data s t" "xinv {} t" "x_feeding t"
          "x_current_key t = key" by (auto simp: ensures_iff)
      have "ensures (mfold (on_event W) es t) (outcome W key c (data @ client_bytes es) s)"
        using Cons.prems MessageReady True t
        by (intro outcome_continues [OF t(2,5)] Cons.IH) (auto simp: kMaxStreamBytes_def)
      with t(1) True MessageReady show ?thesis by simp
    qed
  qed (use Cons.prems in simp)
qed

end
