(* ===== verification/Extractor_Ops.thy ===== *)
theory Extractor_Ops
  imports Extractor_Events
begin

text \<open>
  The public operations of the extractor, \<^verbatim>\<open>tick\<close>, \<^verbatim>\<open>flush\<close> and \<^verbatim>\<open>feed\<close>: they are
  defined on every input, they keep the invariant, and every packet that goes in is
  afterwards either decided once or held once.
\<close>

section \<open>Between two calls\<close>

text \<open>
  Between calls no flow is being updated, callbacks are off and every held packet is a
  shell: no pointer into the receive buffer survives a call.
\<close>

definition shells :: "'r extractor \<Rightarrow> bool" where
  "shells s \<longleftrightarrow> (\<forall>k c. find_conn s k = Some c \<longrightarrow> (\<forall>p\<in>set (cn_held c). \<not> has_bytes p))"

definition ready :: "'r extractor \<Rightarrow> bool" where
  "ready s \<longleftrightarrow> xinv {} s \<and> \<not> x_feeding s \<and> shells s"

text \<open>What a caller may rely on across a call that takes in the packets \<open>new\<close>.\<close>

definition accounts :: "(u32 \<times> bool) multiset \<Rightarrow> 'r extractor \<Rightarrow> 'r extractor \<Rightarrow> bool" where
  "accounts new s s' \<longleftrightarrow>
     x_max_flows s' = x_max_flows s \<and> x_max_blocked s' = x_max_blocked s \<and>
     debt s' = debt s + new \<and> prefix (x_decided s) (x_decided s') \<and>
     prefix (x_asked s) (x_asked s')"

lemma evolves_accounts: "evolves K n s s' \<Longrightarrow> accounts n s s'"
  by (simp add: evolves_def accounts_def)

lemma accounts_refl [simp]: "accounts {#} s s"
  by (simp add: accounts_def)

lemma accounts_trans: "accounts m s s' \<Longrightarrow> accounts n s' s'' \<Longrightarrow> accounts (m + n) s s''"
  unfolding accounts_def by (auto simp: ac_simps intro: prefix_order.trans)

lemma accounts_ghost [simp]:
  "accounts n s (s'\<lparr>x_feeding := b\<rparr>) = accounts n s s'"
  "accounts n s (s'\<lparr>x_current_key := k\<rparr>) = accounts n s s'"
  "accounts n s (s'\<lparr>x_lastSweep := t\<rparr>) = accounts n s s'"
  "accounts n (s\<lparr>x_lastSweep := t\<rparr>) s' = accounts n s s'"
  "accounts n s (s'\<lparr>x_reassembly := r\<rparr>) = accounts n s s'"
  "accounts n s (s'\<lparr>x_to_close := q\<rparr>) = accounts n s s'"
  "accounts n s (s'\<lparr>x_blocked := m\<rparr>) = accounts n s s'"
  "accounts n s (s'\<lparr>x_dropped_at_cap := d\<rparr>) = accounts n s s'"
  "accounts n s (publish s') = accounts n s s'"
  by (simp_all add: accounts_def debt_def publish_def)

lemma accounts_decide: "accounts n s s' \<Longrightarrow> accounts (n + {#tag p#}) s (decide p v s')"
  by (simp add: accounts_def debt_def conn_simps)

lemma shells_ghost [simp]:
  "shells (s\<lparr>x_feeding := b\<rparr>) = shells s"
  "shells (s\<lparr>x_current_key := k\<rparr>) = shells s"
  "shells (s\<lparr>x_lastSweep := t\<rparr>) = shells s"
  "shells (s\<lparr>x_reassembly := r\<rparr>) = shells s"
  "shells (s\<lparr>x_to_close := q\<rparr>) = shells s"
  "shells (s\<lparr>x_blocked := m\<rparr>) = shells s"
  "shells (s\<lparr>x_dropped_at_cap := d\<rparr>) = shells s"
  "shells (publish s) = shells s" "shells (decide p v s) = shells s"
  by (simp_all add: shells_def publish_def decide_def)

lemma ready_ghost [simp]:
  "ready (s\<lparr>x_lastSweep := t\<rparr>) = ready s" "ready (s\<lparr>x_reassembly := r\<rparr>) = ready s"
  "ready (s\<lparr>x_to_close := q\<rparr>) = ready s" "ready (s\<lparr>x_blocked := m\<rparr>) = ready s"
  "ready (s\<lparr>x_dropped_at_cap := d\<rparr>) = ready s"
  "ready (publish s) = ready s" "ready (decide p v s) = ready s"
  by (simp_all add: ready_def conn_simps)

lemma shells_keeps:
  assumes "shells s" "keeps K s s'" "table_ok {} s'"
  shows "shells s'"
  unfolding shells_def
proof (intro allI impI)
  fix k c
  assume c: "find_conn s' k = Some c"
  then have "conn_ok c" using table_find [OF assms(3)] by simp
  show "\<forall>p\<in>set (cn_held c). \<not> has_bytes p"
  proof (cases "cn_state c")
    case Wait
    have "stays (find_conn s k) (find_conn s' k) \<or> advances (find_conn s k) (find_conn s' k)"
      using assms(2) unfolding keeps_def by blast
    then have "advances (find_conn s k) (Some c)"
      using c stays_advances by fastforce
    with Wait obtain c0 where "find_conn s k = Some c0" "cn_held c = cn_held c0"
      by (cases "find_conn s k") auto
    with assms(1) show ?thesis unfolding shells_def by metis
  next
    case Block
    with \<open>conn_ok c\<close> show ?thesis by (simp add: conn_ok_block)
  qed
qed

lemma ready_evolves:
  "ready s \<Longrightarrow> evolves K n s s' \<Longrightarrow> xinv {} s' \<Longrightarrow> ready s'"
  unfolding ready_def by (auto simp: evolves_def xinv_def intro: shells_keeps)

lemma evolves_mono: "evolves K n s s' \<Longrightarrow> K \<subseteq> L \<Longrightarrow> evolves L n s s'"
  unfolding evolves_def by (blast intro: keeps_mono)

section \<open>Settling a list of flows\<close>

text \<open>\<open>undecided s k\<close>: the table has an entry for the flow, still waiting.\<close>

definition undecided :: "'r extractor \<Rightarrow> u32 \<Rightarrow> bool" where
  "undecided s k \<longleftrightarrow> map_option cn_state (find_conn s k) = Some Wait"

definition settles :: "(u32 \<Rightarrow> 'r extractor \<Rightarrow> 'r extractor option) \<Rightarrow> bool" where
  "settles f \<longleftrightarrow>
     (\<forall>k s. xinv {} s \<longrightarrow>
        ensures (f k s) (\<lambda>s'. xinv {} s' \<and> evolves {k} {#} s s' \<and> \<not> undecided s' k))"

lemma stays_undecided: "keeps K s s' \<Longrightarrow> undecided s' k \<Longrightarrow> undecided s k"
proof -
  assume *: "keeps K s s'" "undecided s' k"
  from *(1) have "stays (find_conn s k) (find_conn s' k) \<or> advances (find_conn s k) (find_conn s' k)"
    unfolding keeps_def by blast
  then have "advances (find_conn s k) (find_conn s' k)" using stays_advances by blast
  with *(2) show "undecided s k"
    by (cases "find_conn s k") (auto simp: undecided_def)
qed

lemma settle_all:
  assumes "settles f" "xinv {} s"
  shows "ensures (mfold f ks s)
    (\<lambda>s'. xinv {} s' \<and> evolves (set ks) {#} s s' \<and> (\<forall>k\<in>set ks. \<not> undecided s' k))"
  using assms(2)
proof (induction ks arbitrary: s)
  case (Cons k ks)
  obtain t where t: "f k s = Some t" "xinv {} t" "evolves {k} {#} s t" "\<not> undecided t k"
    using assms(1) Cons.prems unfolding settles_def by (fastforce simp: ensures_iff)
  have step: "evolves (set (k # ks)) {#} s t" using evolves_mono [OF t(3)] by simp
  have "ensures (mfold f ks t)
    (\<lambda>s'. xinv {} s' \<and> evolves (set (k # ks)) {#} s s' \<and> (\<forall>k\<in>set (k # ks). \<not> undecided s' k))"
  proof (rule ensures_mono [OF Cons.IH [OF t(2)]], elim conjE, intro conjI)
    fix u
    assume u: "xinv {} u" "evolves (set ks) {#} t u" "\<forall>k\<in>set ks. \<not> undecided u k"
    show "xinv {} u" by fact
    have "evolves (set (k # ks)) {#} t u" using evolves_mono [OF u(2)] by auto
    with step show "evolves (set (k # ks)) {#} s u" by (rule evolves_trans0)
    have "keeps (set ks) t u" using u(2) by (simp add: evolves_def)
    with t(4) u(3) show "\<forall>k\<in>set (k # ks). \<not> undecided u k"
      using stays_undecided [of "set ks" t u k] by auto
  qed
  with t(1) show ?case by simp
qed simp

lemma resolve_not_waiting:
  assumes "xinv {key} s"
  shows "ensures (resolve W key h s) (\<lambda>s'. \<not> undecided s' key)"
proof (cases "undecided s key")
  case True
  then obtain c where "find_conn s key = Some c" "cn_state c = Wait" by (auto simp: undecided_def)
  from resolve_settles [OF assms this, of W h] show ?thesis
    by (rule ensures_mono) (simp add: settled_def undecided_def)
next
  case False
  then have "resolve W key h s = Some s"
    by (auto simp: resolve_def undecided_def split: option.splits) (metis State.exhaust)
  with False show ?thesis by simp
qed

lemma resolve_settles_flow: "settles (\<lambda>k s. resolve W k h s)"
  unfolding settles_def
proof (intro allI impI)
  fix k and s :: "'a extractor"
  assume "xinv {} s"
  then have "xinv {k} s" by (rule xinv_mono) simp
  from resolve_ok [OF this, of W h] resolve_not_waiting [OF this, of W h]
  show "ensures (resolve W k h s) (\<lambda>s'. xinv {} s' \<and> evolves {k} {#} s s' \<and> \<not> undecided s' k)"
    by (auto simp: ensures_iff)
qed

lemma expire_settles_flow: "settles (expire W)"
  unfolding settles_def
proof (intro allI impI)
  fix k and s :: "'a extractor"
  assume inv: "xinv {} s"
  show "ensures (expire W k s) (\<lambda>s'. xinv {} s' \<and> evolves {k} {#} s s' \<and> \<not> undecided s' k)"
  proof (cases "map_option cn_state (find_conn s k) = Some Block")
    case True
    then obtain c where c: "find_conn s k = Some c" "cn_state c = Block" by auto
    have "xinv {} (erase_conn k s)"
      using inv table_erase [of "{}" s k] ring_erase [of "{}" s k] by (simp add: xinv_def)
    moreover have "evolves {k} {#} s (publish (erase_conn k s))"
      using inv by (intro evict_evolves [OF _ c, of "{}"]) (simp add: xinv_def)
    ultimately show ?thesis
      using c by (simp add: expire_def undecided_def conn_simps)
  next
    case False
    then have "expire W k s = resolve W k None s"
      by (auto simp: expire_def resolve_def split: option.splits)
    with resolve_settles_flow [of W None, unfolded settles_def, rule_format, OF inv, of k]
    show ?thesis by simp
  qed
qed

section \<open>Sweep and tick\<close>

lemma visit_entries:
  assumes "world_ok W" "distinct (map fst (x_conns s))"
  shows "set (visit W s) = set (x_conns s)"
proof -
  have "set (visit W s) = {(k, c). k \<in> set (map fst (x_conns s)) \<and> find_conn s k = Some c}"
    using world_ok_traverse(1) [OF assms(1)]
    by (force simp: visit_def List.map_filter_def image_iff)
  also have "\<dots> = set (x_conns s)"
    using assms(2) by (force simp: image_iff)
  finally show ?thesis .
qed

definition expired_at :: "int \<Rightarrow> Conn \<Rightarrow> bool" where
  "expired_at now c \<longleftrightarrow> now - cn_last c \<ge> idle_limit c"

definition expiring :: "'r world \<Rightarrow> int \<Rightarrow> 'r extractor \<Rightarrow> u32 list" where
  "expiring W now s = map fst (filter (\<lambda>(k, c). expired_at now c) (visit W s))"

lemma expiring_iff:
  assumes "world_ok W" "ready s"
  shows "k \<in> set (expiring W now s) \<longleftrightarrow> (\<exists>c. find_conn s k = Some c \<and> expired_at now c)"
proof -
  have "distinct (map fst (x_conns s))" using assms(2) by (simp add: ready_def xinv_def table_ok_def)
  then show ?thesis
    using visit_entries [OF assms(1), of s] by (force simp: expiring_def)
qed

lemma sweep_run:
  assumes "mfold (expire W) (expiring W now s)
      (s\<lparr>x_blocked := length (filter (\<lambda>(k, c). cn_state c = Block) (visit W s))\<rparr>) = Some t"
    "\<not> x_feeding t"
  shows "\<exists>r. sweep W now s = Some (publish (t\<lparr>x_reassembly := r, x_to_close := []\<rparr>))"
  using assms
  by (simp add: sweep_def Let_def expiring_def expired_at_def pcpp_call_idle drain_closes_idle) blast

lemma evolves_from_blocked [simp]: "evolves K n (s\<lparr>x_blocked := b\<rparr>) s' = evolves K n s s'"
  by (simp add: evolves_def debt_def keeps_def)

lemma undecided_ghost [simp]:
  "undecided (s\<lparr>x_reassembly := r\<rparr>) = undecided s" "undecided (s\<lparr>x_to_close := q\<rparr>) = undecided s"
  "undecided (s\<lparr>x_lastSweep := t\<rparr>) = undecided s" "undecided (publish s) = undecided s"
  by (simp_all add: undecided_def fun_eq_iff publish_def)

lemma sweep_ok:
  assumes "ready s"
  shows "ensures (sweep W now s) (\<lambda>s'. ready s' \<and> evolves (set (expiring W now s)) {#} s s' \<and>
    (\<forall>k\<in>set (expiring W now s). \<not> undecided s' k) \<and> x_to_close s' = [] \<and>
    x_flows s' = length (x_conns s'))"
proof -
  let ?s = "s\<lparr>x_blocked := length (filter (\<lambda>(k, c). cn_state c = Block) (visit W s))\<rparr>"
  have "xinv {} ?s" using assms by (simp add: ready_def)
  from settle_all [OF expire_settles_flow this, of W "expiring W now s"] obtain t where
    t: "mfold (expire W) (expiring W now s) ?s = Some t" "xinv {} t"
      "evolves (set (expiring W now s)) {#} s t" "\<forall>k\<in>set (expiring W now s). \<not> undecided t k"
    by (auto simp: ensures_iff)
  then have idle: "\<not> x_feeding t" "ready t"
    using assms ready_evolves [OF assms t(3,2)] by (simp_all add: ready_def)
  from sweep_run [OF t(1) idle(1)] obtain r where
    r: "sweep W now s = Some (publish (t\<lparr>x_reassembly := r, x_to_close := []\<rparr>))" by blast
  show ?thesis
    unfolding r using t idle by (simp add: conn_simps) (simp add: publish_def)
qed

text \<open>The sweep is rate-limited: right after a tick another one is not due.\<close>

lemma tick_ok:
  assumes "ready s"
  shows "ensures (tick W now s) (\<lambda>s'. ready s' \<and> accounts {#} s s' \<and>
    now - x_lastSweep s' < kSweepInterval)"
proof (cases "now - x_lastSweep s < kSweepInterval")
  case False
  have "ready (s\<lparr>x_lastSweep := now\<rparr>)" using assms by simp
  from sweep_ok [OF this, of W now] False show ?thesis
    by (auto simp: tick_def kSweepInterval_def evolves_def accounts_def debt_def elim!: ensures_mono)
qed (use assms in \<open>simp add: tick_def\<close>)

section \<open>Flush\<close>

text \<open>The flows \<^verbatim>\<open>flush\<close> collects; once they are resolved none is undecided.\<close>

definition waiting_flows :: "'r world \<Rightarrow> 'r extractor \<Rightarrow> u32 list" where
  "waiting_flows W s = map fst (filter (\<lambda>(k, c). cn_state c = Wait) (visit W s))"

lemma flush_settles:
  assumes "world_ok W" "ready s"
  shows "ensures (mfold (\<lambda>key t. resolve W key None t) (waiting_flows W s) s)
    (\<lambda>t. xinv {} t \<and> evolves (set (waiting_flows W s)) {#} s t \<and> (\<forall>k. \<not> undecided t k))"
proof -
  let ?ks = "waiting_flows W s"
  have inv: "xinv {} s" using assms(2) by (simp add: ready_def)
  then have dist: "distinct (map fst (x_conns s))" by (simp add: xinv_def table_ok_def)
  from settle_all [OF resolve_settles_flow inv, of W None ?ks] obtain t where
    t: "mfold (\<lambda>key t. resolve W key None t) ?ks s = Some t" "xinv {} t"
      "evolves (set ?ks) {#} s t" "\<forall>k\<in>set ?ks. \<not> undecided t k"
    by (auto simp: ensures_iff)
  have "undecided s k \<Longrightarrow> k \<in> set ?ks" for k
    using visit_entries [OF assms(1) dist] dist by (force simp: undecided_def waiting_flows_def)
  moreover have "keeps (set ?ks) s t" using t(3) by (simp only: evolves_def)
  ultimately have "\<not> undecided t k" for k
    using t(4) stays_undecided by blast
  with t show ?thesis by simp
qed

lemma flush_ok:
  assumes "world_ok W" "ready s"
  shows "ensures (flush W s) (\<lambda>s'. ready s' \<and> accounts {#} s s' \<and> x_conns s' = [] \<and>
    x_to_close s' = [] \<and> x_flows s' = 0)"
proof -
  from flush_settles [OF assms] obtain t where
    t: "mfold (\<lambda>key t. resolve W key None t) (waiting_flows W s) s = Some t" "xinv {} t"
      "evolves (set (waiting_flows W s)) {#} s t" and none: "\<And>k. \<not> undecided t k"
    by (auto simp: ensures_iff)
  have "cn_held c = []" if "(k, c) \<in> set (x_conns t)" for k c
  proof -
    have c: "find_conn t k = Some c" using that t(2) by (simp add: xinv_def table_ok_def)
    then have "conn_ok c" using table_find [of "{}" t k c] t(2) by (simp add: xinv_def)
    moreover have "cn_state c = Block"
      using none [of k] c by (cases "cn_state c") (auto simp: undecided_def)
    ultimately show ?thesis by (simp add: conn_ok_block)
  qed
  then have "held_tags (x_conns t) = {#}" by (intro held_tags_no_held) auto
  then have "accounts {#} s (t\<lparr>x_conns := []\<rparr>)"
    using evolves_accounts [OF t(3)] by (simp add: accounts_def debt_def)
  moreover have "\<not> x_feeding t" using assms(2) t(3) by (simp add: evolves_def ready_def)
  moreover have "ready (t\<lparr>x_conns := []\<rparr>)"
    using t(2) \<open>\<not> x_feeding t\<close>
    by (simp add: ready_def xinv_def table_ok_def ring_ok_def shells_def)
  ultimately show ?thesis
    using t(1) by (simp add: flush_def Let_def waiting_flows_def drain_closes_idle conn_simps)
      (simp add: publish_def)
qed

section \<open>Making room\<close>

definition no_new_flows :: "'r extractor \<Rightarrow> 'r extractor \<Rightarrow> bool" where
  "no_new_flows s s' \<longleftrightarrow> (\<forall>k. find_conn s k = None \<longrightarrow> find_conn s' k = None)"

lemma keeps_no_new_flows: "keeps K s s' \<Longrightarrow> no_new_flows s s'"
  unfolding no_new_flows_def
proof (intro allI impI)
  fix k
  assume "keeps K s s'" "find_conn s k = None"
  then have "stays None (find_conn s' k) \<or> advances None (find_conn s' k)"
    unfolding keeps_def by metis
  then show "find_conn s' k = None"
    by (cases "find_conn s' k") (auto simp: stays_def)
qed

lemma evolves_public:
  "evolves K n s s' \<Longrightarrow> accounts n s s' \<and> no_new_flows s s'"
  using keeps_no_new_flows [of K s s'] by (simp add: accounts_def evolves_def)

lemma ready_public:
  "ready s \<Longrightarrow> xinv {} s' \<Longrightarrow> evolves K n s s' \<Longrightarrow> ready s' \<and> accounts n s s' \<and> no_new_flows s s'"
  using ready_evolves [of s K n s'] evolves_public [of K n s s'] by simp

lemma make_room_ok:
  assumes "ready s"
  shows "ensures (make_room W now s) (\<lambda>s'. ready s' \<and> accounts {#} s s' \<and> no_new_flows s s')"
proof -
  have first: "ensures (if now - x_lastSweep s \<ge> kSweepInterval
      then sweep W now (s\<lparr>x_lastSweep := now\<rparr>) else Some s)
      (\<lambda>t. ready t \<and> accounts {#} s t \<and> no_new_flows s t)"
    using sweep_ok [of "s\<lparr>x_lastSweep := now\<rparr>" W now] assms
    by (auto dest!: evolves_public simp: no_new_flows_def elim!: ensures_mono)
  have evict: "ensures (evict_oldest_blocked t)
      (\<lambda>(b, u). ready u \<and> accounts {#} s u \<and> no_new_flows s u)"
    if t: "ready t" "accounts {#} s t" "no_new_flows s t" for t
  proof -
    have "xinv {} t" using t(1) by (simp add: ready_def)
    from evict_turns_ok [OF this, of "x_max_blocked t"] show ?thesis
      unfolding evict_oldest_blocked_def
      by (rule ensures_mono)
        (use t(3) accounts_trans [OF t(2)] in
          \<open>auto dest!: ready_public [OF t(1)] simp: no_new_flows_def\<close>)
  qed
  show ?thesis
    unfolding make_room_def ensures_bind
    by (rule ensures_mono [OF first])
      (auto simp: ensures_map_option intro!: ensures_mono [OF evict])
qed

section \<open>The packet path\<close>

lemma conn_ok_Conn0: "conn_ok Conn0"
proof -
  have "hostname_in [] = Some NeedMore"
    by (simp add: hostname_in_def extractHostname_def collectHandshake_def host_text_def)
  then show ?thesis by (simp add: conn_ok_def Conn0_def)
qed

lemma track_ok:
  assumes "ready s" "find_conn s k = None" "length (x_conns s) < x_max_flows s"
  shows "ready (put_conn k Conn0 s) \<and> accounts {#} s (put_conn k Conn0 s) \<and>
    find_conn (put_conn k Conn0 s) k = Some Conn0"
proof -
  have inv: "table_ok {} s" "ring_ok {} s" "shells s" "\<not> x_feeding s"
    using assms(1) by (simp_all add: ready_def xinv_def)
  have "table_ok {} (put_conn k Conn0 s)"
    using assms(3) conn_ok_Conn0 by (intro table_put [OF inv(1)]) auto
  moreover have "ring_ok {} (put_conn k Conn0 s)"
    using inv(2) by (intro ring_put) (auto simp: Conn0_def)
  moreover have "shells (put_conn k Conn0 s)"
    using inv(3) by (auto simp: shells_def conn_simps Conn0_def)
  moreover have "debt (put_conn k Conn0 s) = debt s"
    using held_tags_update [OF table_distinct [OF inv(1)], of k Conn0] delete_absent [OF assms(2)]
    by (simp add: debt_def put_conn_def Conn0_def)
  ultimately show ?thesis
    using inv(4) by (simp add: ready_def xinv_def accounts_def conn_simps)
qed

text \<open>What the dissector guarantees of a packet's flow view.\<close>

definition viewed :: "Packet \<Rightarrow> FlowView \<Rightarrow> bool" where
  "viewed pkt f \<longleftrightarrow> (\<exists>b off. packet_data pkt = Some b \<and> pk_len pkt \<le> length b \<and>
     fv_payload f = Some off \<and> off + fv_payload_len f \<le> pk_len pkt)"

lemma flow_view_viewed:
  assumes "packet_wf pkt" "has_bytes pkt"
  shows "ensures (flow_view pkt) (\<lambda>(ok, f). ok \<longrightarrow> viewed pkt f \<and> fv_key f = routeKey f)"
  by (rule ensures_mono [OF flow_view_safe [OF assms(1)]])
    (use assms in \<open>auto simp: viewed_def packet_wf_def has_bytes_def\<close>)

lemma opensTls_safe:
  assumes "viewed pkt f"
  shows "opensTlsHandshake (payload_of pkt f) (fv_payload_len f) \<noteq> None"
  using assms by (auto simp: opensTlsHandshake_def viewed_def payload_of_def rd8_def)

definition tracked :: "u32 \<Rightarrow> Packet \<Rightarrow> 'r extractor \<Rightarrow> 'r extractor + 'r extractor \<Rightarrow> bool" where
  "tracked k pkt s t =
     (case t of
        Inl s' \<Rightarrow> ready s' \<and> accounts {#tag pkt#} s s'
      | Inr s' \<Rightarrow> ready s' \<and> accounts {#} s s' \<and> find_conn s' k = Some Conn0)"

lemma start_tracking_ok:
  assumes "ready s" "viewed pkt f" "find_conn s (fv_key f) = None"
  shows "ensures (start_tracking W now f pkt s) (tracked (fv_key f) pkt s)"
proof -
  have "(if isClientSyn f then Some True
      else opensTlsHandshake (payload_of pkt f) (fv_payload_len f)) \<noteq> None"
    using opensTls_safe [OF assms(2)] by auto
  then obtain opens where opens: "(if isClientSyn f then Some True
      else opensTlsHandshake (payload_of pkt f) (fv_payload_len f)) = Some opens"
    by blast
  have room: "ensures (make_room W now s) (\<lambda>s1. ensures
      (if length (x_conns s1) \<ge> x_max_flows s1
       then Some (Inl (decide pkt ALLOW (s1\<lparr>x_dropped_at_cap := x_dropped_at_cap s1 + 1\<rparr>)))
       else Some (Inr (put_conn (fv_key f) Conn0 s1))) (tracked (fv_key f) pkt s))"
  proof (rule ensures_mono [OF make_room_ok [OF assms(1)]], elim conjE)
    fix t
    assume t: "ready t" "accounts {#} s t" "no_new_flows s t"
    let ?full = "decide pkt ALLOW (t\<lparr>x_dropped_at_cap := x_dropped_at_cap t + 1\<rparr>)"
    let ?new = "put_conn (fv_key f) Conn0 t"
    have "ready ?full" "accounts {#tag pkt#} s ?full"
      using t accounts_decide [of "{#}" s "t\<lparr>x_dropped_at_cap := x_dropped_at_cap t + 1\<rparr>"]
      by simp_all
    moreover have "find_conn t (fv_key f) = None" using assms(3) t(3) by (simp add: no_new_flows_def)
    with t have "ready ?new \<and> accounts {#} s ?new \<and> find_conn ?new (fv_key f) = Some Conn0"
      if "length (x_conns t) < x_max_flows t"
      using that track_ok [OF t(1)] accounts_trans [OF t(2), of "{#}" ?new] by simp
    ultimately show "ensures (if length (x_conns t) \<ge> x_max_flows t
       then Some (Inl ?full) else Some (Inr ?new)) (tracked (fv_key f) pkt s)"
      by (simp add: tracked_def)
  qed
  show ?thesis
    unfolding start_tracking_def opens
    using room assms(1) track_ok [OF assms(1,3)] accounts_decide [of "{#}" s s pkt ALLOW]
    by (simp add: tracked_def ensures_bind)
qed

lemma reassemble_ok:
  assumes "world_ok W" "xinv {} s"
  shows "ensures (reassemble W key raw s)
    (\<lambda>s'. xinv {} s' \<and> accounts {#} s s' \<and> keeps {key} s s' \<and> \<not> x_feeding s' \<and> x_to_close s' = [])"
proof -
  obtain r es where call: "w_reassemble W (x_reassembly s) raw = (r, es)" by fastforce
  let ?s = "s\<lparr>x_current_key := key, x_feeding := True, x_reassembly := r\<rparr>"
  have "list_all event_ok es"
    using world_ok_events [OF assms(1), of "x_reassembly s" raw] call by simp
  with assms(2) have "ensures (mfold (on_event W) es ?s) (\<lambda>t. xinv {} t \<and> evolves {key} {#} ?s t)"
    using events_ok [of ?s es W] by simp
  then obtain t where t: "mfold (on_event W) es ?s = Some t" "xinv {} t" "evolves {key} {#} ?s t"
    by (auto simp: ensures_iff)
  then have "accounts {#} s t" "keeps {key} s t"
    by (simp_all add: evolves_def accounts_def debt_def keeps_def)
  with t show ?thesis
    by (simp add: reassemble_def pcpp_call_def call drain_closes_idle keeps_def)
qed

text \<open>Giving up the bytes of the packet just reassembled, when its flow still waits.\<close>

lemma release_last_ok:
  assumes "xinv {} s" "\<not> x_feeding s" "\<And>c. find_conn s key = Some c \<Longrightarrow> cn_held c \<noteq> [] \<Longrightarrow>
      \<forall>p\<in>set (butlast (cn_held c)). \<not> has_bytes p"
    "\<And>k c. k \<noteq> key \<Longrightarrow> find_conn s k = Some c \<Longrightarrow> \<forall>p\<in>set (cn_held c). \<not> has_bytes p"
  shows "ready (release_last key s) \<and> accounts {#} s (release_last key s)"
proof (cases "\<exists>c. find_conn s key = Some c \<and> cn_held c \<noteq> []")
  case True
  then obtain c where c: "find_conn s key = Some c" "cn_held c \<noteq> []" by blast
  let ?h = "butlast (cn_held c) @ [release_bytes (last (cn_held c))]"
  let ?s = "put_conn key (c\<lparr>cn_held := ?h\<rparr>) s"
  have inv: "table_ok {} s" "ring_ok {} s" using assms(1) by (simp_all add: xinv_def)
  have ok: "conn_ok c" using table_find [OF inv(1) c(1)] by simp
  have wait: "cn_state c = Wait" using conn_ok_block [OF ok] c(2) by (cases "cn_state c") auto
  have "conn_ok (c\<lparr>cn_held := ?h\<rparr>)"
    using ok wait c(2) by (cases "cn_held c") (simp_all add: conn_ok_def)
  then have "table_ok {} ?s" using c(1) by (intro table_put [OF inv(1)]) auto
  moreover have "ring_ok {} ?s" using inv(2) wait by (intro ring_put) auto
  moreover have "mset (map tag ?h) = mset (map tag (cn_held c))"
    using c(2) by (cases "cn_held c" rule: rev_cases) simp_all
  then have "debt ?s = debt s"
    using debt_put [OF table_distinct [OF inv(1)] c(1), of "c\<lparr>cn_held := ?h\<rparr>" "{#}"] by simp
  moreover have "shells ?s"
    using assms(3) [OF c] assms(4)
    by (auto simp: shells_def conn_simps has_bytes_def packet_data_def release_bytes_def)
  ultimately show ?thesis
    using c assms(2) by (simp add: release_last_def ready_def xinv_def accounts_def conn_simps)
next
  case False
  then have "release_last key s = s" by (auto simp: release_last_def split: option.splits)
  moreover have "shells s" using assms(4) False unfolding shells_def by (metis empty_iff list.set(1))
  ultimately show ?thesis using assms(1,2) by (simp add: ready_def)
qed

lemma hold_ok:
  assumes "ready s" "find_conn s key = Some c" "cn_state c = Wait"
    "length (cn_held c) < kMaxPacketsPerConn"
  shows "xinv {} (put_conn key (c\<lparr>cn_held := cn_held c @ [pkt]\<rparr>) s) \<and>
    accounts {#tag pkt#} s (put_conn key (c\<lparr>cn_held := cn_held c @ [pkt]\<rparr>) s)"
proof -
  let ?c = "c\<lparr>cn_held := cn_held c @ [pkt]\<rparr>"
  have inv: "table_ok {} s" "ring_ok {} s" using assms(1) by (simp_all add: ready_def xinv_def)
  have "conn_ok c" using table_find [OF inv(1) assms(2)] by simp
  then have "conn_ok ?c" using assms(3,4) by (simp add: conn_ok_def)
  then have "table_ok {} (put_conn key ?c s)"
    using assms(2) by (intro table_put [OF inv(1)]) auto
  moreover have "ring_ok {} (put_conn key ?c s)"
    using inv(2) assms(3) by (intro ring_put) auto
  moreover have "debt (put_conn key ?c s) = debt s + {#tag pkt#}"
    using debt_put [OF table_distinct [OF inv(1)] assms(2), of ?c "{#tag pkt#}"] by simp
  ultimately show ?thesis by (simp add: xinv_def accounts_def conn_simps)
qed

lemma feed_hold_ok:
  assumes "world_ok W" "ready s" "find_conn s key = Some c" "cn_state c = Wait"
    "length (cn_held c) < kMaxPacketsPerConn"
  shows "ensures (reassemble W key raw (put_conn key (c\<lparr>cn_held := cn_held c @ [pkt]\<rparr>) s))
    (\<lambda>t. ready (release_last key t) \<and> accounts {#tag pkt#} s (release_last key t))"
proof -
  let ?c = "c\<lparr>cn_held := cn_held c @ [pkt]\<rparr>"
  let ?s = "put_conn key ?c s"
  have s: "xinv {} ?s" "accounts {#tag pkt#} s ?s" using hold_ok [OF assms(2-5)] by simp_all
  have shells: "\<forall>p\<in>set (cn_held d). \<not> has_bytes p" if "find_conn s k = Some d" for k d
    using assms(2) that unfolding ready_def shells_def by blast
  show ?thesis
  proof (rule ensures_mono [OF reassemble_ok [OF assms(1) s(1), of key raw]], elim conjE)
    fix t
    assume t: "xinv {} t" "accounts {#} ?s t" "keeps {key} ?s t" "\<not> x_feeding t"
    have "ready (release_last key t) \<and> accounts {#} t (release_last key t)"
    proof (rule release_last_ok [OF t(1,4)])
      fix d
      assume d: "find_conn t key = Some d" "cn_held d \<noteq> []"
      have "conn_ok d" using table_find [OF _ d(1)] t(1) by (auto simp: xinv_def)
      then have "cn_state d \<noteq> Block" using conn_ok_block d(2) by auto
      moreover have "advances (Some ?c) (Some d)"
        using t(3) d(1) unfolding keeps_def by (metis (full_types) find_put insertI1)
      ultimately have "cn_held d = cn_held c @ [pkt]" by simp
      then show "\<forall>p\<in>set (butlast (cn_held d)). \<not> has_bytes p" using shells [OF assms(3)] by simp
    next
      fix k d
      assume d: "k \<noteq> key" "find_conn t k = Some d"
      then have "find_conn s k = Some d"
        using t(3) by (auto simp: keeps_def conn_simps stays_def)
      then show "\<forall>p\<in>set (cn_held d). \<not> has_bytes p" by (rule shells)
    qed
    then show "ready (release_last key t) \<and> accounts {#tag pkt#} s (release_last key t)"
      using accounts_trans [OF accounts_trans [OF s(2) t(2)]] by fastforce
  qed
qed

text \<open>A packet without payload that goes to the reassembler.\<close>

lemma feed_bare_ok:
  assumes "world_ok W" "ready s" "accounts {#} s0 s"
  shows "ensures (reassemble W key raw s)
    (\<lambda>t. ready (decide pkt ALLOW t) \<and> accounts {#tag pkt#} s0 (decide pkt ALLOW t))"
proof -
  have inv: "xinv {} s" using assms(2) by (simp add: ready_def)
  show ?thesis
  proof (rule ensures_mono [OF reassemble_ok [OF assms(1) inv]], elim conjE)
    fix t
    assume t: "xinv {} t" "accounts {#} s t" "keeps {key} s t" "\<not> x_feeding t"
    then have "ready t"
      using assms(2) shells_keeps [OF _ t(3)] by (simp add: ready_def xinv_def)
    moreover have "accounts {#} s0 t" using accounts_trans [OF assms(3) t(2)] by simp
    ultimately show "ready (decide pkt ALLOW t) \<and> accounts {#tag pkt#} s0 (decide pkt ALLOW t)"
      using accounts_decide [of "{#}" s0 t pkt ALLOW] by simp
  qed
qed

text \<open>An entry that is given the time of a packet.\<close>

lemma stamp_ok:
  assumes "ready s" "find_conn s k = Some c"
  shows "ready (put_conn k (c\<lparr>cn_last := now\<rparr>) s) \<and> accounts {#} s (put_conn k (c\<lparr>cn_last := now\<rparr>) s)"
proof -
  let ?c = "c\<lparr>cn_last := now\<rparr>"
  have inv: "xinv {} s" using assms(1) by (simp add: ready_def)
  have "conn_ok ?c" using table_find [OF _ assms(2)] inv by (auto simp: xinv_def)
  then have "xinv {} (put_conn k ?c s)" "evolves {k} {#} s (put_conn k ?c s)"
    using put_ok [OF inv assms(2), of ?c "{}"] by simp_all
  then show ?thesis using ready_evolves [OF assms(1)] evolves_accounts by blast
qed

lemma feed_tracked_ok:
  assumes "world_ok W" "ready s" "viewed pkt f" "undecided s (fv_key f)"
  shows "ensures (feed_tracked W now f pkt s) (\<lambda>s'. ready s' \<and> accounts {#tag pkt#} s s')"
proof -
  let ?key = "fv_key f"
  from assms(4) obtain c0 where c0: "find_conn s ?key = Some c0" "cn_state c0 = Wait"
    by (auto simp: undecided_def)
  let ?c = "c0\<lparr>cn_last := now\<rparr>"
  let ?s = "put_conn ?key ?c s"
  have s: "ready ?s" "accounts {#} s ?s" using stamp_ok [OF assms(2) c0(1)] by simp_all
  have find: "find_conn ?s ?key = Some ?c" by (simp add: conn_simps)
  obtain b where b: "packet_data pkt = Some b" using assms(3) by (auto simp: viewed_def)
  have xk: "xinv {?key} ?s" using s(1) by (auto simp: ready_def intro: xinv_mono)
  show ?thesis
  proof (cases "length (cn_held c0) \<ge> kMaxPacketsPerConn")
    case True
    have "ensures (resolve W ?key None ?s)
        (\<lambda>t. ready (decide pkt ALLOW t) \<and> accounts {#tag pkt#} s (decide pkt ALLOW t))"
      by (rule ensures_mono [OF resolve_ok [OF xk]])
        (use accounts_decide [of "{#}" s] accounts_trans [OF s(2)] in
          \<open>auto dest!: ready_public [OF s(1)]\<close>)
    with True c0 show ?thesis by (simp add: feed_tracked_def Let_def ensures_bind)
  next
    case room: False
    have hold: "ensures (reassemble W ?key (take (pk_len pkt) b)
          (put_conn ?key (?c\<lparr>cn_held := cn_held ?c @ [pkt]\<rparr>) ?s))
        (\<lambda>t. ready (release_last ?key t) \<and> accounts {#tag pkt#} s (release_last ?key t))"
      by (rule ensures_mono [OF feed_hold_ok [OF assms(1) s(1) find]])
        (use room c0(2) accounts_trans [OF s(2)] in auto)
    note bare = feed_bare_ok [OF assms(1) s(1,2), of ?key "take (pk_len pkt) b" pkt]
    show ?thesis
      using room c0 b hold bare s accounts_decide [OF s(2), of pkt ALLOW]
      by (simp add: feed_tracked_def Let_def ensures_bind)
  qed
qed

text \<open>The part of \<^verbatim>\<open>feed\<close> after the flow lookup.\<close>

definition routed :: "'r world \<Rightarrow> int \<Rightarrow> FlowView \<Rightarrow> Packet \<Rightarrow> 'r extractor \<Rightarrow> 'r extractor option" where
  "routed W now f pkt s =
     (case find_conn s (fv_key f) of
        Some c \<Rightarrow>
          if cn_state c = Block
          then Some (decide pkt BLOCK (put_conn (fv_key f) (c\<lparr>cn_last := now\<rparr>) s))
          else feed_tracked W now f pkt s
      | None \<Rightarrow> do {
          t \<leftarrow> start_tracking W now f pkt s;
          case t of Inl s1 \<Rightarrow> Some s1 | Inr s1 \<Rightarrow> feed_tracked W now f pkt s1
        })"

lemma feed_routed:
  "feed W now pkt s = do {
     s0 \<leftarrow> tick W now s;
     (ok, f) \<leftarrow> (if has_bytes pkt then flow_view pkt else Some (False, FlowView0));
     map_option publish
       (if \<not> ok \<or> fv_ip_proto f \<noteq> kProtoTcp then Some (decide pkt ALLOW s0)
        else routed W now f pkt s0)
   }"
  unfolding feed_def routed_def map_conv_bind_option by (simp add: comp_def)

lemma routed_new:
  assumes "world_ok W" "ready s" "viewed pkt f" "find_conn s (fv_key f) = None"
  shows "ensures (routed W now f pkt s) (\<lambda>s'. ready s' \<and> accounts {#tag pkt#} s s')"
proof -
  have tr: "ensures (feed_tracked W now f pkt t) (\<lambda>s'. ready s' \<and> accounts {#tag pkt#} s s')"
    if t: "ready t" "accounts {#} s t" "find_conn t (fv_key f) = Some Conn0" for t
    by (rule ensures_mono [OF feed_tracked_ok [OF assms(1) t(1) assms(3)]])
      (use t accounts_trans [OF t(2)] in \<open>auto simp: undecided_def Conn0_def\<close>)
  have "ensures (start_tracking W now f pkt s)
      (\<lambda>t. ensures (case t of Inl s1 \<Rightarrow> Some s1 | Inr s1 \<Rightarrow> feed_tracked W now f pkt s1)
         (\<lambda>s'. ready s' \<and> accounts {#tag pkt#} s s'))"
    by (rule ensures_mono [OF start_tracking_ok [OF assms(2-4)]])
      (use tr in \<open>auto simp: tracked_def split: sum.splits\<close>)
  then show ?thesis using assms(4) by (simp add: routed_def ensures_bind)
qed

lemma routed_blocked:
  assumes "ready s" "find_conn s (fv_key f) = Some c" "cn_state c = Block"
  shows "ensures (routed W now f pkt s) (\<lambda>s'. ready s' \<and> accounts {#tag pkt#} s s')"
  using stamp_ok [OF assms(1,2), of now] assms(2,3)
    accounts_decide [of "{#}" s "put_conn (fv_key f) (c\<lparr>cn_last := now\<rparr>) s" pkt BLOCK]
  by (simp add: routed_def)

lemma routed_ok:
  assumes "world_ok W" "ready s" "viewed pkt f"
  shows "ensures (routed W now f pkt s) (\<lambda>s'. ready s' \<and> accounts {#tag pkt#} s s')"
proof (cases "find_conn s (fv_key f)")
  case None
  with assms show ?thesis by (intro routed_new)
next
  case (Some c)
  show ?thesis
  proof (cases "cn_state c")
    case Wait
    with Some have "routed W now f pkt s = feed_tracked W now f pkt s" by (simp add: routed_def)
    with feed_tracked_ok [OF assms] Some Wait show ?thesis by (simp add: undecided_def)
  qed (use assms Some in \<open>blast intro: routed_blocked\<close>)
qed

lemma publish_flows: "x_flows (publish s) = length (x_conns (publish s))"
  by (simp add: publish_def)

lemma feed_safe:
  assumes "world_ok W" "ready s" "packet_wf pkt"
  shows "ensures (feed W now pkt s)
    (\<lambda>s'. ready s' \<and> accounts {#tag pkt#} s s' \<and> x_flows s' = length (x_conns s'))"
proof -
  from tick_ok [OF assms(2), of W now] obtain s0 where
    s0: "tick W now s = Some s0" "ready s0" "accounts {#} s s0"
    by (auto simp: ensures_iff)
  have view: "ensures (if has_bytes pkt then flow_view pkt else Some (False, FlowView0))
      (\<lambda>(ok, f). ok \<longrightarrow> viewed pkt f)"
    using flow_view_viewed [OF assms(3)] by (auto elim!: ensures_mono)
  have "ensures (routed W now f pkt s0) (\<lambda>s'. ready s' \<and> accounts {#tag pkt#} s s')"
    if "viewed pkt f" for f
    by (rule ensures_mono [OF routed_ok [OF assms(1) s0(2) that]])
      (use accounts_trans [OF s0(3)] in auto)
  moreover have "ready (decide pkt ALLOW s0) \<and> accounts {#tag pkt#} s (decide pkt ALLOW s0)"
    using s0 accounts_decide [OF s0(3), of pkt ALLOW] by simp
  ultimately show ?thesis
    unfolding feed_routed s0(1) bind.bind_lunit ensures_bind
    by (intro ensures_mono [OF view])
      (auto simp: ensures_map_option publish_flows elim!: ensures_mono)
qed

end
