(* ===== verification/Extractor_Bounds.thy ===== *)
theory Extractor_Bounds
  imports Extractor_Ops
begin

text \<open>
  What the caps of the extractor buy: a fresh extractor satisfies the invariant, the
  table and the blocked flows in it are bounded, a blocked flow never keeps a new one out
  of a full table, and the sweep inside \<^verbatim>\<open>feed\<close> never runs twice in an interval.
\<close>

section \<open>Construction\<close>

lemma new_extractor_ready: "ready (new_extractor r max_flows max_blocked)"
  by (auto simp: new_extractor_def Let_def ready_def xinv_def table_ok_def ring_ok_def shells_def
      kDefaultBlockedShare_def)

lemma new_extractor_debt: "debt (new_extractor r max_flows max_blocked) = {#}"
  by (simp add: new_extractor_def Let_def debt_def)

lemma new_extractor_caps:
  "let s = new_extractor r max_flows max_blocked in
   x_max_flows s = max 1 max_flows \<and> 1 \<le> x_max_blocked s \<and> x_max_blocked s \<le> x_max_flows s \<and>
   (0 < max_blocked \<and> max_blocked \<le> x_max_flows s \<longrightarrow> x_max_blocked s = max_blocked)"
  by (auto simp: new_extractor_def Let_def kDefaultBlockedShare_def)

section \<open>Blocked flows\<close>

definition blocked_keys :: "'r extractor \<Rightarrow> u32 set" where
  "blocked_keys s = {k. map_option cn_state (find_conn s k) = Some Block}"

lemma blocked_keys_ring:
  assumes "xinv K s"
  shows "blocked_keys s - {0} \<subseteq> set (x_block_ring s)"
proof
  fix k
  assume "k \<in> blocked_keys s - {0}"
  then obtain c where "find_conn s k = Some c" "cn_state c = Block" "k \<noteq> 0"
    by (auto simp: blocked_keys_def)
  with assms show "k \<in> set (x_block_ring s)" unfolding xinv_def ring_ok_def by blast
qed

lemma blocked_keys_bound:
  assumes "xinv K s"
  shows "card (blocked_keys s - {0}) \<le> x_max_blocked s"
proof -
  have "card (blocked_keys s - {0}) \<le> card (set (x_block_ring s))"
    using blocked_keys_ring [OF assms] by (rule card_mono [rotated]) simp
  also have "\<dots> \<le> length (x_block_ring s)" by (rule card_length)
  finally show ?thesis using assms by (simp add: xinv_def ring_ok_def)
qed

lemma blocked_flows_bound:
  assumes "xinv K s"
  shows "card (blocked_keys s) \<le> x_max_blocked s + 1"
proof -
  define A where "A = blocked_keys s - {0}"
  have fin: "finite A"
    using blocked_keys_ring [OF assms] finite_subset unfolding A_def by blast
  then have "card (blocked_keys s) \<le> card (insert 0 A)"
    by (intro card_mono) (auto simp: A_def)
  also have "\<dots> \<le> card A + 1" using fin by (simp add: card_insert_if)
  finally show ?thesis using blocked_keys_bound [OF assms] by (simp add: A_def)
qed

text \<open>
  A turn of the ring that finds no victim has zeroed the slots it passed, so after a full
  turn the invariant leaves no blocked flow except under the key 0.
\<close>

lemma evict_turns_zeroes:
  assumes "xinv {} s" "evict_turns n s = Some (False, s')"
  shows "x_max_blocked s' = x_max_blocked s \<and> length (x_block_ring s') = length (x_block_ring s) \<and>
    (\<forall>i < x_max_blocked s. x_block_ring s ! i = 0 \<longrightarrow> x_block_ring s' ! i = 0) \<and>
    (\<forall>j < n. x_block_ring s' ! ((x_block_next s + j) mod x_max_blocked s) = 0)"
  using assms
proof (induction n arbitrary: s)
  case (Suc n)
  define t where "t = s\<lparr>x_block_ring := (x_block_ring s)[x_block_next s := 0],
           x_block_next := (x_block_next s + 1) mod x_max_blocked s\<rparr>"
  from Suc.prems(1) have ring: "length (x_block_ring s) = x_max_blocked s"
    "x_block_next s < x_max_blocked s" by (simp_all add: xinv_def ring_ok_def)
  then have store: "ring_store 0 s = Some t" by (simp add: ring_store_def t_def)
  let ?v = "x_block_ring s ! x_block_next s"
  have miss: "?v = 0 \<or> map_option cn_state (find_conn t ?v) \<noteq> Some Block"
    and rest: "evict_turns n t = Some (False, s')"
    using Suc.prems(2) ring store
    by (auto simp: ring_at_def split: if_splits option.splits)
  have "ring_ok {} s" using Suc.prems(1) by (simp add: xinv_def)
  from ring_store_ok [OF this, of 0] miss have "ring_ok {} t"
    using store by (auto simp: t_def)
  then have "xinv {} t" using Suc.prems(1) by (simp add: xinv_def t_def)
  from Suc.IH [OF this rest] have IH: "x_max_blocked s' = x_max_blocked s"
    "length (x_block_ring s') = length (x_block_ring s)"
    "\<And>i. i < x_max_blocked s \<Longrightarrow> x_block_ring t ! i = 0 \<Longrightarrow> x_block_ring s' ! i = 0"
    "\<And>j. j < n \<Longrightarrow> x_block_ring s' ! ((x_block_next t + j) mod x_max_blocked s) = 0"
    by (simp_all add: t_def)
  have "x_block_ring s' ! ((x_block_next s + j) mod x_max_blocked s) = 0" if "j < Suc n" for j
  proof (cases j)
    case 0
    with ring IH(3) [of "x_block_next s"] show ?thesis by (simp add: t_def)
  next
    case (Suc i)
    with that IH(4) [of i] show ?thesis by (simp add: t_def mod_simps)
  qed
  with IH ring show ?case by (simp add: t_def nth_list_update)
qed simp

lemma evict_finds_blocked:
  assumes "xinv {} s" "k \<in> blocked_keys s" "k \<noteq> 0"
  shows "ensures (evict_oldest_blocked s) (\<lambda>(found, s').
    found \<and> length (x_conns s') < length (x_conns s))"
proof -
  obtain found s' where run: "evict_turns (x_max_blocked s) s = Some (found, s')" "xinv {} s'"
    "if found then length (x_conns s') < length (x_conns s) else x_conns s' = x_conns s"
    using evict_turns_ok [OF assms(1), of "x_max_blocked s"] by (auto simp: ensures_iff)
  have "found"
  proof (rule ccontr)
    assume "\<not> found"
    with run have no: "evict_turns (x_max_blocked s) s = Some (False, s')" "x_conns s' = x_conns s"
      by simp_all
    note z = evict_turns_zeroes [OF assms(1) no(1)]
    from assms(1) have ring: "length (x_block_ring s) = x_max_blocked s"
      "x_block_next s < x_max_blocked s" by (simp_all add: xinv_def ring_ok_def)
    have "k \<in> set (x_block_ring s')"
      using blocked_keys_ring [OF run(2)] assms(2,3) no(2) by (auto simp: blocked_keys_def)
    then obtain i where i: "i < x_max_blocked s" "x_block_ring s' ! i = k"
      using z ring by (auto simp: in_set_conv_nth)
    let ?j = "(i + (x_max_blocked s - x_block_next s)) mod x_max_blocked s"
    have "(x_block_next s + ?j) mod x_max_blocked s = (i + x_max_blocked s) mod x_max_blocked s"
      using ring(2) by (simp add: mod_simps)
    with i(1) have "(x_block_next s + ?j) mod x_max_blocked s = i" by simp
    moreover have "?j < x_max_blocked s" using ring(2) by simp
    ultimately show False using z i(2) assms(3) by metis
  qed
  with run show ?thesis by (simp add: evict_oldest_blocked_def)
qed

section \<open>A full table\<close>

text \<open>
  \<^verbatim>\<open>feed\<close> ticks first, so when it comes to make room no further sweep is due: the
  guarded call of \<^verbatim>\<open>sweep\<close> there is dead code and room is made by eviction alone.
\<close>

lemma make_room_after_tick:
  assumes "now - x_lastSweep s < kSweepInterval"
  shows "make_room W now s =
    (if length (x_conns s) \<ge> x_max_flows s then map_option snd (evict_oldest_blocked s) else Some s)"
  using assms by (simp add: make_room_def)

lemma make_room_makes_room:
  assumes "ready s" "now - x_lastSweep s < kSweepInterval" "k \<in> blocked_keys s" "k \<noteq> 0"
  shows "ensures (make_room W now s) (\<lambda>s'. length (x_conns s') < x_max_flows s')"
proof -
  have inv: "xinv {} s" using assms(1) by (simp add: ready_def)
  obtain found s' where run: "evict_oldest_blocked s = Some (found, s')"
    "length (x_conns s') < length (x_conns s)"
    using evict_finds_blocked [OF inv assms(3,4)] by (auto simp: ensures_iff)
  moreover have "x_max_flows s' = x_max_flows s"
    using evict_turns_ok [OF inv, of "x_max_blocked s"] run(1)
    by (auto simp: evict_oldest_blocked_def ensures_iff evolves_def)
  moreover have "length (x_conns s) \<le> x_max_flows s"
    using inv by (simp add: xinv_def table_ok_def)
  ultimately show ?thesis
    unfolding make_room_after_tick [OF assms(2)] by (auto simp: ensures_map_option)
qed

text \<open>
  C22. A packet that would open a flow, be it a SYN or the start of a TLS handshake, is let
  through untracked only when the table is full and has no blocked flow that could make room,
  that is none, unless there is one with the key 0, which the ring cannot evict. (A sweep is not
  due at this point: the packet path has just ticked.)
\<close>

lemma refused_only_when_undecided:
  assumes "ready s" "now - x_lastSweep s < kSweepInterval"
    "isClientSyn f \<or> opensTlsHandshake (payload_of pkt f) (fv_payload_len f) = Some True"
    "start_tracking W now f pkt s = Some (Inl s')"
  shows "length (x_conns s) = x_max_flows s \<and> blocked_keys s \<subseteq> {0}"
proof -
  have opens: "(if isClientSyn f then Some True
      else opensTlsHandshake (payload_of pkt f) (fv_payload_len f)) = Some True"
    using assms(3) by auto
  note refused = assms(4) [unfolded start_tracking_def opens bind.bind_lunit]
  have le: "length (x_conns s) \<le> x_max_flows s"
    using assms(1) by (simp add: ready_def xinv_def table_ok_def)
  have full: "length (x_conns s) \<ge> x_max_flows s"
    using refused by (auto split: if_splits)
  moreover have "blocked_keys s \<subseteq> {0}"
  proof (rule ccontr)
    assume "\<not> blocked_keys s \<subseteq> {0}"
    then obtain k where "k \<in> blocked_keys s" "k \<noteq> 0" by auto
    from make_room_makes_room [OF assms(1,2) this, of W] full refused show False
      by (auto simp: ensures_iff)
  qed
  ultimately show ?thesis using le by simp
qed

text \<open>After a sweep further ticks within the second do nothing.\<close>

lemma tick_idempotent:
  assumes "ready s" "now \<le> now'" "now' - now < kSweepInterval" "tick W now s = Some s'"
    "now - x_lastSweep s \<ge> kSweepInterval"
  shows "tick W now' s' = Some s'"
proof -
  have "ready (s\<lparr>x_lastSweep := now\<rparr>)" using assms(1) by simp
  from sweep_ok [OF this, of W now] assms(4,5) have "x_lastSweep s' = now"
    by (simp add: tick_def evolves_def)
  with assms(3) show ?thesis by (simp add: tick_def)
qed

text \<open>
  A flow whose key is 0 escapes the bound: the ring takes its key for an empty slot and
  never evicts it.
\<close>

lemma key_zero_not_counted:
  assumes "\<And>h. w_decide W h = BLOCK"
  shows "\<exists>s. Option.bind (resolve W 0 h (put_conn 0 Conn0 (new_extractor r 2 1)))
      (\<lambda>t. resolve W 7 h (put_conn 7 Conn0 t)) = Some s \<and>
    x_max_blocked s = 1 \<and> {0, 7} \<subseteq> blocked_keys s"
  using assms
  by (simp add: resolve_def Let_def conn_simps remember_blocked_def ring_at_def ring_store_def
      new_extractor_def Conn0_def blocked_keys_def)

end
