(* ===== verification/Extractor_Policy.thy ===== *)
theory Extractor_Policy
  imports Extractor_Bounds
begin

text \<open>
  What \<^verbatim>\<open>feed\<close>, \<^verbatim>\<open>tick\<close> and \<^verbatim>\<open>flush\<close> decide: which packets are allowed or blocked on
  each path, what the policy is asked, and that nothing is blocked without its saying so.
\<close>

section \<open>The paths of feed\<close>

text \<open>The packet dissects as a TCP packet with this flow view, and no sweep is due.\<close>

definition tcp_packet :: "Packet \<Rightarrow> FlowView \<Rightarrow> bool" where
  "tcp_packet pkt f \<longleftrightarrow>
     packet_wf pkt \<and> has_bytes pkt \<and> flow_view pkt = Some (True, f) \<and> fv_ip_proto f = kProtoTcp"

definition no_sweep_due :: "int \<Rightarrow> 'r extractor \<Rightarrow> bool" where
  "no_sweep_due now s \<longleftrightarrow> now - x_lastSweep s < kSweepInterval"

lemma tcp_packet_viewed: "tcp_packet pkt f \<Longrightarrow> viewed pkt f"
  using flow_view_viewed [of pkt] by (auto simp: tcp_packet_def)

lemma feed_tcp:
  assumes "tcp_packet pkt f" "no_sweep_due now s"
  shows "feed W now pkt s = map_option publish (routed W now f pkt s)"
  using assms by (simp add: feed_routed tcp_packet_def no_sweep_due_def tick_def)

lemma feed_not_tcp:
  assumes "packet_wf pkt" "has_bytes pkt \<Longrightarrow> ensures (flow_view pkt) (\<lambda>(ok, f). \<not> ok \<or> fv_ip_proto f \<noteq> kProtoTcp)"
    "no_sweep_due now s"
  shows "feed W now pkt s = Some (publish (decide pkt ALLOW s))"
  using assms
  by (cases "has_bytes pkt") (auto simp: feed_routed no_sweep_due_def tick_def ensures_iff)

text \<open>
  A packet of a flow decided against is blocked on arrival, without reassembly and without
  asking the policy again; the entry is refreshed.
\<close>

lemma feed_blocked:
  assumes "tcp_packet pkt f" "no_sweep_due now s"
    "find_conn s (fv_key f) = Some c" "cn_state c = Block"
  shows "feed W now pkt s =
    Some (publish (decide pkt BLOCK (put_conn (fv_key f) (c\<lparr>cn_last := now\<rparr>) s)))"
  using assms by (simp add: feed_tcp routed_def)

text \<open>
  A packet of a flow that is not tracked, neither a client SYN nor the opening of a TLS
  handshake, is allowed at once and leaves no trace.
\<close>

lemma feed_untracked:
  assumes "tcp_packet pkt f" "no_sweep_due now s" "find_conn s (fv_key f) = None"
    "\<not> isClientSyn f" "opensTlsHandshake (payload_of pkt f) (fv_payload_len f) = Some False"
  shows "feed W now pkt s = Some (publish (decide pkt ALLOW s))"
  using assms by (simp add: feed_tcp routed_def start_tracking_def)

lemma feed_opens:
  assumes "tcp_packet pkt f" "no_sweep_due now s" "find_conn s (fv_key f) = None"
    "isClientSyn f \<or> opensTlsHandshake (payload_of pkt f) (fv_payload_len f) = Some True"
    "length (x_conns s) < x_max_flows s"
  shows "feed W now pkt s = feed W now pkt (put_conn (fv_key f) Conn0 s)"
proof -
  have "no_sweep_due now (put_conn (fv_key f) Conn0 s)"
    using assms(2) by (simp add: no_sweep_due_def put_conn_def)
  moreover have "start_tracking W now f pkt s = Some (Inr (put_conn (fv_key f) Conn0 s))"
    using assms(4,5) by (auto simp: start_tracking_def)
  ultimately show ?thesis
    using assms(1-3) by (simp add: feed_tcp routed_def conn_simps Conn0_def)
qed

text \<open>
  A packet of an undecided flow without payload and without SYN, FIN or RST is allowed at once
  and not handed to the reassembler; it only refreshes the entry.
\<close>

lemma feed_pure_ack:
  assumes "tcp_packet pkt f" "no_sweep_due now s" "find_conn s (fv_key f) = Some c"
    "cn_state c = Wait" "length (cn_held c) < kMaxPacketsPerConn"
    "fv_payload_len f = 0" "fv_tcp_flags f AND (kTcpSyn OR kTcpFin OR kTcpRst) = 0"
  shows "feed W now pkt s =
    Some (publish (decide pkt ALLOW (put_conn (fv_key f) (c\<lparr>cn_last := now\<rparr>) s)))"
  using assms by (simp add: feed_tcp routed_def feed_tracked_def Let_def)

text \<open>
  The verdict of a packet that is settled by the table alone: a blocked flow's packets are
  blocked, and let through is what belongs to no tracked flow and opens none, or carries
  nothing for the reassembler.
\<close>

definition on_arrival :: "'r extractor \<Rightarrow> Packet \<Rightarrow> FlowView \<Rightarrow> Verdict option" where
  "on_arrival s pkt f =
     (case find_conn s (fv_key f) of
        None \<Rightarrow>
          if \<not> isClientSyn f \<and> opensTlsHandshake (payload_of pkt f) (fv_payload_len f) = Some False
          then Some ALLOW else None
      | Some c \<Rightarrow>
          if cn_state c = Block then Some BLOCK
          else if length (cn_held c) < kMaxPacketsPerConn \<and> fv_payload_len f = 0 \<and>
                  fv_tcp_flags f AND (kTcpSyn OR kTcpFin OR kTcpRst) = 0
          then Some ALLOW else None)"

text \<open>
  C25. When no sweep is due, such a packet, a TCP packet of a blocked flow, of no flow and
  opening none, or of an undecided flow with room but nothing to reassemble, is decided on arrival and alone: the
  policy is not asked, the reassembler does not see the packet, and the table changes at most in
  the time of the flow's own entry.
\<close>

lemma decided_on_arrival:
  assumes "tcp_packet pkt f" "no_sweep_due now s" "on_arrival s pkt f = Some v"
  shows "ensures (feed W now pkt s) (\<lambda>s'.
    x_decided s' = x_decided s @ [\<lparr>dc_pkt = pkt, dc_verdict = v\<rparr>] \<and> x_asked s' = x_asked s \<and>
    x_reassembly s' = x_reassembly s \<and> x_to_close s' = x_to_close s \<and>
    (\<forall>k. find_conn s' k = (if k = fv_key f
       then map_option (\<lambda>c. c\<lparr>cn_last := now\<rparr>) (find_conn s k) else find_conn s k)))"
proof (cases "find_conn s (fv_key f)")
  case None
  with assms feed_untracked [OF assms(1,2) None, of W] show ?thesis
    by (auto simp: on_arrival_def conn_simps split: if_splits)
next
  case (Some c)
  show ?thesis
  proof (cases "cn_state c")
    case Wait
    with Some assms feed_pure_ack [OF assms(1,2) Some Wait, of W] show ?thesis
      by (auto simp: on_arrival_def conn_simps split: if_splits)
  next
    case Block
    with Some assms feed_blocked [OF assms(1,2) Some Block, of W] show ?thesis
      by (auto simp: on_arrival_def conn_simps split: if_splits)
  qed
qed

section \<open>The packet that completes a ClientHello\<close>

text \<open>The table entry of a flow after a feed that did not settle it.\<close>

definition still_waiting :: "u32 \<Rightarrow> Conn \<Rightarrow> Packet \<Rightarrow> int \<Rightarrow> bytes \<Rightarrow> 'r extractor \<Rightarrow> 'r extractor \<Rightarrow> bool" where
  "still_waiting key c pkt now data s s' \<longleftrightarrow>
     x_asked s' = x_asked s \<and> x_decided s' = x_decided s \<and>
     (\<exists>c'. find_conn s' key = Some c' \<and> cn_state c' = Wait \<and>
           cn_held c' = cn_held c @ [release_bytes pkt] \<and> cn_stream c' = cn_stream c @ data \<and>
           cn_last c' = now)"

lemma reassemble_outcome:
  assumes "xinv {} s" "find_conn s key = Some c" "cn_state c = Wait"
    "w_reassemble W (x_reassembly s) raw = (r, es)" "ConnectionEnd \<notin> set es"
    "length (cn_stream c @ client_bytes es) \<le> kMaxStreamBytes"
  shows "ensures (reassemble W key raw s) (outcome W key c (client_bytes es) s)"
proof -
  let ?s = "s\<lparr>x_current_key := key, x_feeding := True, x_reassembly := r\<rparr>"
  have "ensures (mfold (on_event W) es ?s) (outcome W key c (client_bytes es) ?s)"
    using assms by (intro stream_decides) simp_all
  then obtain t where t: "mfold (on_event W) es ?s = Some t" "outcome W key c (client_bytes es) ?s t"
    by (auto simp: ensures_iff)
  have "outcome W key c (client_bytes es) s t = outcome W key c (client_bytes es) ?s t"
    using outcome_cong [of c c "client_bytes es" "client_bytes es" ?s s W key] by simp
  with t have "outcome W key c (client_bytes es) s (t\<lparr>x_feeding := False,
      x_reassembly := q, x_to_close := []\<rparr>)" for q
    by (auto simp: outcome_def waiting_def settled_def split: option.splits HostnameResult.splits)
  with t(1) show ?thesis
    by (simp add: reassemble_def pcpp_call_def assms(4) drain_closes_idle)
qed

lemma release_last_settled:
  assumes "settled W key c h s t" "xinv {} t"
  shows "settled W key c h s (release_last key t)"
proof -
  have "cn_held d = []" if "find_conn t key = Some d" for d
  proof -
    have "conn_ok d" using table_find [OF _ that] assms(2) by (auto simp: xinv_def)
    moreover have "cn_state d = Block" using assms(1) that by (auto simp: settled_def split: if_splits)
    ultimately show ?thesis by (simp add: conn_ok_block)
  qed
  then have "release_last key t = t" by (auto simp: release_last_def split: option.splits)
  with assms(1) show ?thesis by simp
qed

lemma release_last_waiting:
  assumes "waiting key (c\<lparr>cn_held := cn_held c @ [pkt], cn_last := now\<rparr>) data s t"
  shows "still_waiting key c pkt now data s (release_last key t)"
  using assms by (auto simp: waiting_def still_waiting_def release_last_def conn_simps)

lemma reassemble_held:
  assumes "ready s" "find_conn s key = Some c" "cn_state c = Wait"
    "length (cn_held c) < kMaxPacketsPerConn" "w_reassemble W (x_reassembly s) raw = (r, es)"
    "world_ok W" "ConnectionEnd \<notin> set es"
    "length (cn_stream c @ client_bytes es) \<le> kMaxStreamBytes"
  shows "ensures (reassemble W key raw
      (put_conn key (c\<lparr>cn_last := now, cn_held := cn_held c @ [pkt]\<rparr>) (put_conn key (c\<lparr>cn_last := now\<rparr>) s)))
    (\<lambda>t. outcome W key (c\<lparr>cn_held := cn_held c @ [pkt], cn_last := now\<rparr>) (client_bytes es) s t \<and> xinv {} t)"
proof -
  let ?c = "c\<lparr>cn_last := now\<rparr>"
  let ?d = "?c\<lparr>cn_held := cn_held c @ [pkt]\<rparr>"
  let ?s = "put_conn key ?d (put_conn key ?c s)"
  have inv: "xinv {} s" using assms(1) by (simp add: ready_def)
  have "conn_ok ?c" using table_find [OF _ assms(2)] inv by (auto simp: xinv_def)
  then have "xinv {} (put_conn key ?c s)" "evolves {key} {#} s (put_conn key ?c s)"
    using put_ok [OF inv assms(2), of ?c "{}"] by simp_all
  from ready_evolves [OF assms(1) this(2,1)] have s: "xinv {} ?s"
    using hold_ok [of "put_conn key ?c s" key ?c pkt] assms(3,4) by (simp add: conn_simps)
  then have "ensures (reassemble W key raw ?s) (outcome W key ?d (client_bytes es) ?s)"
    using assms by (intro reassemble_outcome) (simp_all add: conn_simps)
  moreover have "outcome W key ?d (client_bytes es) ?s =
      outcome W key (c\<lparr>cn_held := cn_held c @ [pkt], cn_last := now\<rparr>) (client_bytes es) s"
    by (rule outcome_cong) (simp_all add: conn_simps)
  ultimately show ?thesis
    using reassemble_ok [OF assms(6) s, of key raw] by (auto simp: ensures_conj elim!: ensures_mono)
qed

text \<open>Releasing the bytes and publishing leave the outcome as it is.\<close>

lemma release_outcome:
  assumes "outcome W key (c\<lparr>cn_held := cn_held c @ [pkt], cn_last := now\<rparr>) data s t" "xinv {} t"
  shows "case hostname_in (cn_stream c @ data) of
      None \<Rightarrow> False
    | Some NeedMore \<Rightarrow> still_waiting key c pkt now data s (publish (release_last key t))
    | Some r \<Rightarrow> settled W key (c\<lparr>cn_held := cn_held c @ [pkt]\<rparr>) (asked_for r) s
        (publish (release_last key t))"
proof -
  obtain ev where ev: "hostname_in (cn_stream c @ data) = Some ev"
    using assms(1) by (auto simp: outcome_def split: option.splits)
  show ?thesis
  proof (cases "ev = NeedMore")
    case True
    with assms(1) ev have "waiting key (c\<lparr>cn_held := cn_held c @ [pkt], cn_last := now\<rparr>) data s t"
      by (simp add: outcome_def)
    from release_last_waiting [OF this] True ev show ?thesis
      by (simp add: still_waiting_def conn_simps)
  next
    case False
    with assms(1) ev have "settled W key (c\<lparr>cn_held := cn_held c @ [pkt]\<rparr>) (asked_for ev) s t"
      by (simp add: outcome_settled) (simp add: settled_def)
    from release_last_settled [OF this assms(2)] False ev show ?thesis
      by (cases ev) (simp_all add: settled_def conn_simps)
  qed
qed

lemma feed_decides:
  assumes "ready s" "tcp_packet pkt f" "no_sweep_due now s" "find_conn s (fv_key f) = Some c"
    "cn_state c = Wait" "length (cn_held c) < kMaxPacketsPerConn" "fv_payload_len f > 0"
    "w_reassemble W (x_reassembly s) (take (pk_len pkt) (the (packet_data pkt))) = (r, es)"
    "world_ok W" "ConnectionEnd \<notin> set es"
    "length (cn_stream c @ client_bytes es) \<le> kMaxStreamBytes"
  shows "ensures (feed W now pkt s) (\<lambda>s'.
    case hostname_in (cn_stream c @ client_bytes es) of
      None \<Rightarrow> False
    | Some NeedMore \<Rightarrow> still_waiting (fv_key f) c pkt now (client_bytes es) s s'
    | Some r \<Rightarrow> settled W (fv_key f) (c\<lparr>cn_held := cn_held c @ [pkt]\<rparr>) (asked_for r) s s')"
proof -
  let ?key = "fv_key f"
  obtain b where b: "packet_data pkt = Some b"
    using assms(2) by (auto simp: tcp_packet_def has_bytes_def)
  have run: "feed W now pkt s = map_option (\<lambda>t. publish (release_last ?key t))
      (reassemble W ?key (take (pk_len pkt) b) (put_conn ?key
         (c\<lparr>cn_last := now, cn_held := cn_held c @ [pkt]\<rparr>) (put_conn ?key (c\<lparr>cn_last := now\<rparr>) s)))"
    using assms(2-7) b
    by (simp add: feed_tcp routed_def feed_tracked_def Let_def map_conv_bind_option comp_def)
  show ?thesis
    unfolding run ensures_map_option
    by (rule ensures_mono [OF reassemble_held [OF assms(1,4-6) _ assms(9-11)]])
      (use assms(8) b in simp, elim conjE, rule release_outcome)
qed

section \<open>Failing open\<close>

text \<open>
  The worker's policy allows a flow without a host name. Under such a policy everything
  that ends without one ends in its packets being let through.
\<close>

definition fail_open :: "'r world \<Rightarrow> bool" where
  "fail_open W \<longleftrightarrow> w_decide W None = ALLOW"

definition allows_more :: "'r extractor \<Rightarrow> 'r extractor \<Rightarrow> bool" where
  "allows_more s s' \<longleftrightarrow>
     (\<exists>ds. x_decided s' = x_decided s @ ds \<and> (\<forall>d\<in>set ds. dc_verdict d = ALLOW))"

lemma allows_more_refl [simp]: "allows_more s s"
  by (simp add: allows_more_def)

lemma allows_more_trans: "allows_more s t \<Longrightarrow> allows_more t u \<Longrightarrow> allows_more s u"
  by (fastforce simp: allows_more_def)

lemma resolve_fail_open:
  assumes "fail_open W"
  shows "ensures (resolve W key None s) (\<lambda>s'. allows_more s s' \<and>
    (\<forall>k. find_conn s' k = (if k = key \<and> undecided s key then None else find_conn s k)))"
proof (cases "undecided s key")
  case True
  then obtain c where "find_conn s key = Some c" "cn_state c = Wait" by (auto simp: undecided_def)
  with assms True show ?thesis
    by (auto simp: resolve_def Let_def fail_open_def decide_all allows_more_def conn_simps)
next
  case False
  then have "resolve W key None s = Some s"
    by (auto simp: resolve_def undecided_def split: option.splits) (metis State.exhaust)
  with False show ?thesis by simp
qed

lemma expire_fail_open:
  assumes "fail_open W"
  shows "ensures (expire W key s) (\<lambda>s'. allows_more s s' \<and>
    (\<forall>k. find_conn s' k = (if k = key then None else find_conn s k)))"
proof (cases "find_conn s key")
  case (Some c)
  show ?thesis
  proof (cases "cn_state c")
    case Wait
    with Some have "undecided s key" "expire W key s = resolve W key None s"
      by (simp_all add: undecided_def expire_def)
    with resolve_fail_open [OF assms, of key s] show ?thesis by simp
  qed (use Some in \<open>simp add: expire_def conn_simps allows_more_def\<close>)
qed (simp add: expire_def)

lemma expire_all_fail_open:
  assumes "fail_open W"
  shows "ensures (mfold (expire W) ks s) (\<lambda>s'. allows_more s s' \<and>
    (\<forall>k. find_conn s' k = (if k \<in> set ks then None else find_conn s k)))"
proof (induction ks arbitrary: s)
  case (Cons key ks)
  obtain t where t: "expire W key s = Some t" "allows_more s t"
    "\<And>k. find_conn t k = (if k = key then None else find_conn s k)"
    using expire_fail_open [OF assms, of key s] by (auto simp: ensures_iff)
  show ?case
    using t by (auto intro!: ensures_mono [OF Cons.IH] intro: allows_more_trans)
qed simp

text \<open>
  C24. The idle sweep removes exactly the entries whose idle time is up, the undecided after ten
  seconds and the blocked after sixty, and what it releases is allowed.
\<close>

lemma sweep_fail_open:
  assumes "world_ok W" "fail_open W" "ready s"
  shows "ensures (sweep W now s) (\<lambda>s'. allows_more s s' \<and>
    (\<forall>k. find_conn s' k = Option.bind (find_conn s k) (\<lambda>c. if expired_at now c then None else Some c)))"
proof -
  let ?s = "s\<lparr>x_blocked := length (filter (\<lambda>(k, c). cn_state c = Block) (visit W s))\<rparr>"
  obtain t where t: "mfold (expire W) (expiring W now s) ?s = Some t" "allows_more ?s t"
    "\<And>k. find_conn t k = (if k \<in> set (expiring W now s) then None else find_conn s k)"
    using expire_all_fail_open [OF assms(2), of "expiring W now s" ?s] by (auto simp: ensures_iff)
  have "xinv {} ?s" using assms(3) by (simp add: ready_def)
  from settle_all [OF expire_settles_flow this, of W "expiring W now s"] t(1) assms(3)
  have "\<not> x_feeding t" by (simp add: evolves_def ready_def)
  from sweep_run [OF t(1) this] obtain r where
    "sweep W now s = Some (publish (t\<lparr>x_reassembly := r, x_to_close := []\<rparr>))" by blast
  then show ?thesis
    using t(2,3) expiring_iff [OF assms(1,3), of _ now]
    by (auto simp: conn_simps allows_more_def split: bind_splits)
qed

lemma flush_fail_open:
  assumes "fail_open W" "ready s"
  shows "ensures (flush W s) (allows_more s)"
proof -
  have "ensures (mfold (\<lambda>key t. resolve W key None t) ks s) (\<lambda>t. allows_more s t \<and> \<not> x_feeding t)" for ks
  proof -
    have "xinv {} s" "\<not> x_feeding s" using assms(2) by (simp_all add: ready_def)
    then have "ensures (mfold (\<lambda>key t. resolve W key None t) ks s) (\<lambda>t. \<not> x_feeding t)"
      using settle_all [OF resolve_settles_flow, of s W None ks]
      by (auto simp: evolves_def elim!: ensures_mono)
    moreover have "ensures (mfold (\<lambda>key t. resolve W key None t) ks s) (allows_more s)"
      by (rule ensures_mfold)
        (auto intro!: ensures_mono [OF resolve_fail_open [OF assms(1)]] intro: allows_more_trans)
    ultimately show ?thesis by (simp add: ensures_conj)
  qed
  then show ?thesis
    unfolding flush_def Let_def ensures_bind
    by (rule ensures_mono) (auto simp: drain_closes_idle conn_simps allows_more_def)
qed

end
