(* ===== verification/Extractor_Audit.thy ===== *)
theory Extractor_Audit
  imports Extractor_Policy
begin

text \<open>
  Properties of what the extractor asks and decides that hold of every run, whatever the
  reassembler does. A property kept by each step of the packet path (locales \<open>ring_audit\<close> and
  \<open>step_audit\<close>), or by each of the elementary updates the steps are made of
  (\<open>packet_audit\<close> and its extensions), is kept by the operations. The instance at the end says
  that no packet is blocked and no flow remembered as blocked unless the policy said so.
\<close>

section \<open>Properties kept by every elementary update\<close>

text \<open>Partial correctness, for facts that need no invariant.\<close>

definition preserves :: "('s \<Rightarrow> bool) \<Rightarrow> 's option \<Rightarrow> bool" where
  "preserves P m \<longleftrightarrow> (\<forall>x. m = Some x \<longrightarrow> P x)"

lemma preserves_simps [simp]: "preserves P (Some x) = P x" "preserves P None"
  by (simp_all add: preserves_def)

lemma preserves_bind: "preserves P (Option.bind m f) = preserves (\<lambda>x. preserves P (f x)) m"
  by (cases m) simp_all

lemma preserves_map: "preserves P (map_option f m) = preserves (\<lambda>x. P (f x)) m"
  by (cases m) simp_all

lemma preserves_mono: "preserves P m \<Longrightarrow> (\<And>x. P x \<Longrightarrow> Q x) \<Longrightarrow> preserves Q m"
  by (simp add: preserves_def)

lemma preserves_triv: "(\<And>x. P x) \<Longrightarrow> preserves P m"
  by (simp add: preserves_def)

lemma preserves_mfold:
  "(\<And>x s. P s \<Longrightarrow> preserves P (f x s)) \<Longrightarrow> P s \<Longrightarrow> preserves P (mfold f xs s)"
proof (induction xs arbitrary: s)
  case (Cons x xs)
  then show ?case by (simp add: preserves_bind) (blast intro: preserves_mono)
qed simp

lemma update_update: "AList.update k c (AList.update k d xs) = AList.update k c xs"
  by (induction xs) auto

lemma put_put: "put_conn k c (put_conn k d s) = put_conn k c s"
  by (simp add: put_conn_def update_update)

lemma resolve_current: "preserves (\<lambda>t. x_current_key t = x_current_key s) (resolve W key h s)"
  by (auto simp: resolve_def remember_blocked_def ring_at_def ring_store_def preserves_bind Let_def
      conn_simps decide_all split: option.splits)

lemma on_event_current: "preserves (\<lambda>t. x_current_key t = x_current_key s) (on_event W e s)"
proof -
  note r = resolve_current [of "put_conn k c s" W key h for k c key h, simplified conn_simps]
  show ?thesis
    by (cases e) (auto simp: onConnectionStart_def onMessageReady_def onConnectionEnd_def preserves_bind
        preserves_def [of _ "extractHostname _ _"] preserves_def [of _ "byte_slice _ _ _"] Let_def
        conn_simps r split: option.splits HostnameResult.splits)
qed

lemma release_tags:
  "ps \<noteq> [] \<Longrightarrow> map tag (butlast ps) @ [tag (last ps)] = map tag ps"
  by (metis append_butlast_last_id list.simps(8,9) map_append)

text \<open>Making room opens no flow.\<close>

lemma evict_absent:
  "find_conn s k = None \<Longrightarrow> preserves (\<lambda>(b, t). find_conn t k = None) (evict_turns n s)"
proof (induction n arbitrary: s)
  case (Suc n)
  show ?case
    unfolding evict_turns.simps preserves_bind
    by (auto simp: ring_at_def ring_store_def conn_simps Suc.IH Suc.prems split: option.splits)
qed simp

lemma make_room_absent:
  assumes "find_conn s k = None" "now - x_lastSweep s < kSweepInterval"
  shows "preserves (\<lambda>t. find_conn t k = None) (make_room W now s)"
  using assms evict_absent [OF assms(1), of "x_max_blocked s"]
  by (auto simp: make_room_def preserves_map evict_oldest_blocked_def case_prod_unfold)

text \<open>
  What the ring of blocked flows does to the table: it forgets blocked entries.
\<close>

locale ring_audit =
  fixes P :: "'r extractor \<Rightarrow> bool"
  assumes same_table:
      "P s \<Longrightarrow> x_conns t = x_conns s \<Longrightarrow> x_decided t = x_decided s \<Longrightarrow> x_asked t = x_asked s \<Longrightarrow>
       x_lastSweep t = x_lastSweep s \<Longrightarrow> x_to_close t = x_to_close s \<Longrightarrow> x_reassembly t = x_reassembly s \<Longrightarrow>
       P t"
    and forget_blocked: "P s \<Longrightarrow> map_option cn_state (find_conn s k) = Some Block \<Longrightarrow> P (erase_conn k s)"
begin

lemma P_publish: "P s \<Longrightarrow> P (publish s)"
  by (erule same_table) (simp_all add: conn_simps)

lemma P_ring_store: "P s \<Longrightarrow> preserves P (ring_store k s)"
  by (auto simp: ring_store_def intro: same_table)

lemma P_remember: "P s \<Longrightarrow> preserves P (remember_blocked k s)"
  unfolding remember_blocked_def ring_at_def
  by (auto simp: preserves_bind Let_def split: option.splits
      intro!: P_ring_store P_publish forget_blocked)

lemma P_evict: "P s \<Longrightarrow> preserves (\<lambda>(b, t). P t) (evict_turns n s)"
proof (induction n arbitrary: s)
  case (Suc n)
  show ?case
    unfolding evict_turns.simps preserves_bind
    by (auto simp: ring_at_def split: option.splits
        intro!: preserves_mono [OF P_ring_store [OF Suc.prems]] Suc.IH P_publish forget_blocked)
qed simp

end

text \<open>
  The steps that handle a packet \<open>pkt\<close> which arrives at \<open>now\<close>. It may touch the flows that are
  its \<open>own\<close>: an entry is put back with the same state and packets and with the same time or
  the packet's; one is made afresh; one takes the packet in; one is resolved. Of other flows
  only blocked entries are touched, to be forgotten. The packet itself may be let through, or
  dropped for the sake of a blocked entry.
\<close>

locale step_audit = ring_audit P
  for P :: "'r extractor \<Rightarrow> bool" +
  fixes W :: "'r world"
    and now :: int
    and own :: "u32 \<Rightarrow> bool"
    and pkt :: Packet
  assumes same:
      "P s \<Longrightarrow> x_conns t = x_conns s \<Longrightarrow> x_decided t = x_decided s \<Longrightarrow> x_asked t = x_asked s \<Longrightarrow>
       x_lastSweep t = x_lastSweep s \<Longrightarrow> P t"
    and put_back: "P s \<Longrightarrow> own k \<Longrightarrow> find_conn s k = Some d \<Longrightarrow> cn_state c = cn_state d \<Longrightarrow>
      map tag (cn_held c) = map tag (cn_held d) \<Longrightarrow> cn_last c = cn_last d \<or> cn_last c = now \<Longrightarrow>
      P (put_conn k c s)"
    and open_flow: "P s \<Longrightarrow> own k \<Longrightarrow> find_conn s k = None \<Longrightarrow> P (put_conn k (Conn0\<lparr>cn_last := now\<rparr>) s)"
    and hold: "P s \<Longrightarrow> own k \<Longrightarrow> find_conn s k = Some c \<Longrightarrow> cn_state c = Wait \<Longrightarrow>
      P (put_conn k (c\<lparr>cn_held := cn_held c @ [pkt]\<rparr>) s)"
    and settle: "P s \<Longrightarrow> own k \<Longrightarrow> preserves P (resolve W k h s)"
    and pass: "P s \<Longrightarrow> P (decide pkt ALLOW s)"
    and drop_known: "P s \<Longrightarrow> own k \<Longrightarrow> find_conn s k = Some d \<Longrightarrow> cn_state d = Block \<Longrightarrow>
      P (decide pkt BLOCK s)"
begin

lemma P_answer:
  assumes "P t" "own key" "preserves P m"
  shows "preserves P (case r of
      Found (hs, host, host_len) \<Rightarrow> do {
        name \<leftarrow> byte_slice hs host host_len;
        resolve W key (Some (string_of_bytes name)) t }
    | NotFound \<Rightarrow> resolve W key None t
    | NeedMore \<Rightarrow> m)"
  using assms settle [OF assms(1,2)]
  by (auto simp: preserves_bind preserves_def [of _ "byte_slice _ _ _"]
      split: HostnameResult.splits)

lemma P_message:
  assumes "P s" "own (x_current_key s)"
  shows "preserves P (onMessageReady W side k data s)"
proof (cases "find_conn s (x_current_key s)")
  case (Some c)
  let ?t = "put_conn (x_current_key s) (c\<lparr>cn_pcpp_key := k, cn_stream := cn_stream c @ data\<rparr>) s"
  have t: "P ?t" using assms Some by (rule put_back) simp_all
  have "preserves P (if b then resolve W (x_current_key s) None ?t else Some ?t)" for b
    using t settle [OF t assms(2)] by simp
  note P_answer [OF t assms(2) this]
  with assms Some show ?thesis
    by (simp add: onMessageReady_def Let_def preserves_bind [of P "extractHostname _ _"]
        preserves_def [of _ "extractHostname _ _"])
qed (use assms in \<open>simp add: onMessageReady_def\<close>)

lemma P_event: "P s \<Longrightarrow> own (x_current_key s) \<Longrightarrow> preserves P (on_event W e s)"
  by (cases e)
    (auto simp: onConnectionStart_def onConnectionEnd_def P_message
      intro!: settle intro: put_back split: option.splits)

lemma P_call:
  assumes "P s" "own (x_current_key s)"
  shows "preserves (\<lambda>t. P t \<and> own (x_current_key t)) (pcpp_call W call s)"
proof -
  have "P t \<and> own (x_current_key t) \<Longrightarrow> preserves (\<lambda>t. P t \<and> own (x_current_key t)) (on_event W e t)" for e t
    using P_event [of t e] on_event_current [of t W e] by (auto simp: preserves_def)
  moreover have "P (s\<lparr>x_reassembly := r\<rparr>) \<and> own (x_current_key (s\<lparr>x_reassembly := r\<rparr>))" for r
    using assms by (auto intro: same)
  ultimately show ?thesis
    unfolding pcpp_call_def by (auto split: prod.split intro!: preserves_mfold)
qed

lemma P_drain:
  assumes "P s" "own (x_current_key s)"
  shows "preserves P (drain_closes W s)"
proof -
  have "preserves (\<lambda>t. P t \<and> own (x_current_key t))
      (mfold (\<lambda>token t. pcpp_call W (\<lambda>r. w_close W r token) t) (x_to_close s) s)"
    using assms by (intro preserves_mfold P_call) auto
  then show ?thesis
    unfolding drain_closes_def preserves_bind by (rule preserves_mono) (auto intro: same)
qed

text \<open>No sweep is due any more when the packet path makes room.\<close>

lemma P_make_room:
  assumes "P s" "now - x_lastSweep s < kSweepInterval"
  shows "preserves P (make_room W now s)"
  using assms P_evict [OF assms(1), of "x_max_blocked s"]
  by (auto simp: make_room_def preserves_map evict_oldest_blocked_def case_prod_unfold)

text \<open>The entry of a new flow is stamped with the time of its packet before anything else.\<close>

lemma P_start:
  assumes "P s" "now - x_lastSweep s < kSweepInterval" "find_conn s (fv_key f) = None"
  shows "preserves (case_sum P (\<lambda>t. \<exists>t'. t = put_conn (fv_key f) Conn0 t' \<and> P t' \<and>
    find_conn t' (fv_key f) = None)) (start_tracking W now f pkt s)"
proof -
  let ?Q = "case_sum P (\<lambda>t. \<exists>t'. t = put_conn (fv_key f) Conn0 t' \<and> P t' \<and>
    find_conn t' (fv_key f) = None)"
  have cap: "P t \<Longrightarrow> P (decide pkt ALLOW (t\<lparr>x_dropped_at_cap := d\<rparr>))" for t d
    by (rule pass) (auto intro: same)
  have "preserves (\<lambda>t. P t \<and> find_conn t (fv_key f) = None) (make_room W now s)"
    using P_make_room [OF assms(1,2)] make_room_absent [OF assms(3,2)] by (simp add: preserves_def)
  then have "preserves ?Q (make_room W now s \<bind> (\<lambda>s1.
      if length (x_conns s1) \<ge> x_max_flows s1
      then Some (Inl (decide pkt ALLOW (s1\<lparr>x_dropped_at_cap := x_dropped_at_cap s1 + 1\<rparr>)))
      else Some (Inr (put_conn (fv_key f) Conn0 s1))))"
    unfolding preserves_bind by (rule preserves_mono) (auto intro: cap)
  with assms pass show ?thesis
    unfolding start_tracking_def preserves_bind [of _ "if isClientSyn f then _ else _"]
    by (auto simp: preserves_def [of _ "if isClientSyn f then _ else _"])
qed

lemma P_reassemble: "P s \<Longrightarrow> own key \<Longrightarrow> preserves P (reassemble W key raw s)"
  unfolding reassemble_def preserves_bind
  by (rule preserves_mono [OF P_call]) (auto intro!: P_drain intro: same)

lemma P_release: "P s \<Longrightarrow> own key \<Longrightarrow> P (release_last key s)"
  by (auto simp: release_last_def release_tags intro!: put_back split: option.splits)

lemma P_tracked_stamped:
  assumes "P (put_conn (fv_key f) (c\<lparr>cn_last := now\<rparr>) s)" "find_conn s (fv_key f) = Some c"
    "own (fv_key f)" "cn_state c = Wait"
  shows "preserves P (feed_tracked W now f pkt s)"
proof -
  let ?s = "put_conn (fv_key f) (c\<lparr>cn_last := now\<rparr>) s"
  have "P (put_conn (fv_key f) (c\<lparr>cn_last := now, cn_held := cn_held c @ [pkt]\<rparr>) ?s)"
    using hold [OF assms(1,3), of "c\<lparr>cn_last := now\<rparr>"] assms(4) by (simp add: conn_simps)
  with assms show ?thesis
    unfolding feed_tracked_def
    by (auto simp: Let_def preserves_bind preserves_def [of _ "packet_data pkt"]
        intro!: preserves_mono [OF settle] preserves_mono [OF P_reassemble] pass P_release)
qed

lemma P_feed_tracked:
  assumes "P s" "own (fv_key f)" "find_conn s (fv_key f) = Some c" "cn_state c = Wait"
  shows "preserves P (feed_tracked W now f pkt s)"
  using assms by (intro P_tracked_stamped put_back [OF assms(1-3)]) simp_all

lemma P_feed_new:
  assumes "P s" "own (fv_key f)" "find_conn s (fv_key f) = None"
  shows "preserves P (feed_tracked W now f pkt (put_conn (fv_key f) Conn0 s))"
  using open_flow [OF assms] assms(2)
  by (intro P_tracked_stamped [where c = Conn0]) (simp_all add: put_put conn_simps, simp add: Conn0_def)

lemma P_routed:
  assumes "P s" "now - x_lastSweep s < kSweepInterval" "own (fv_key f)"
  shows "preserves P (routed W now f pkt s)"
proof (cases "find_conn s (fv_key f)")
  case None
  have "preserves P (start_tracking W now f pkt s \<bind>
      (\<lambda>t. case t of Inl s1 \<Rightarrow> Some s1 | Inr s1 \<Rightarrow> feed_tracked W now f pkt s1))"
    unfolding preserves_bind
    by (rule preserves_mono [OF P_start [OF assms(1,2) None]])
      (auto intro: P_feed_new assms(3) split: sum.splits)
  with None show ?thesis by (simp add: routed_def)
next
  case (Some c)
  have "P (decide pkt BLOCK (put_conn (fv_key f) (c\<lparr>cn_last := now\<rparr>) s))" if "cn_state c = Block"
    using that put_back [OF assms(1,3) Some, of "c\<lparr>cn_last := now\<rparr>"] assms(3)
    by (intro drop_known [where k = "fv_key f" and d = "c\<lparr>cn_last := now\<rparr>"])
      (simp_all add: conn_simps)
  moreover have "cn_state c = Wait" if "cn_state c \<noteq> Block" using that by (cases "cn_state c") simp_all
  ultimately show ?thesis
    using Some assms P_feed_tracked [OF assms(1,3) Some] by (simp add: routed_def)
qed

text \<open>
  \<^verbatim>\<open>feed\<close>, once its tick is known to keep the property and to leave no sweep due.
\<close>

lemma P_feed_ticked:
  assumes "preserves (\<lambda>t. P t \<and> now - x_lastSweep t < kSweepInterval) (tick W now s)"
    "\<And>f. has_bytes pkt \<Longrightarrow> flow_view pkt = Some (True, f) \<Longrightarrow> own (fv_key f)"
  shows "preserves P (feed W now pkt s)"
  unfolding feed_routed preserves_bind
  by (rule preserves_mono [OF assms(1)])
    (auto simp: preserves_def [of _ "if has_bytes pkt then _ else _"] preserves_map
      intro!: P_publish pass preserves_mono [OF P_routed] assms(2) split: if_splits)

end

text \<open>
  The updates made on the way of a packet that arrives at \<open>now\<close>, to the entries of the flows
  that are its \<open>own\<close>. An entry is put back with its state and time, or with the packet's
  time; it is made afresh with that time; it becomes blocked when the policy has said so.
  Of other flows only blocked entries are touched, to be forgotten.
\<close>

locale packet_audit =
  fixes W :: "'r world"
    and now :: int
    and own :: "u32 \<Rightarrow> bool"
    and P :: "'r extractor \<Rightarrow> bool"
  assumes same:
      "P s \<Longrightarrow> x_conns t = x_conns s \<Longrightarrow> x_decided t = x_decided s \<Longrightarrow> x_asked t = x_asked s \<Longrightarrow>
       x_lastSweep t = x_lastSweep s \<Longrightarrow> P t"
    and forget: "P s \<Longrightarrow> own k \<or> map_option cn_state (find_conn s k) = Some Block \<Longrightarrow> P (erase_conn k s)"
    and restate: "P s \<Longrightarrow> own k \<Longrightarrow> find_conn s k = Some d \<Longrightarrow> cn_state c = cn_state d \<Longrightarrow>
      cn_last c = cn_last d \<or> cn_last c = now \<Longrightarrow> P (put_conn k c s)"
    and track: "P s \<Longrightarrow> own k \<Longrightarrow> P (put_conn k (Conn0\<lparr>cn_last := now\<rparr>) s)"
    and ask: "P s \<Longrightarrow> P (s\<lparr>x_asked := x_asked s @ [h]\<rparr>)"
    and block: "P s \<Longrightarrow> h \<in> set (x_asked s) \<Longrightarrow> w_decide W h = BLOCK \<Longrightarrow> own k \<Longrightarrow> find_conn s k = Some d \<Longrightarrow>
      cn_state c = Block \<Longrightarrow> cn_last c = cn_last d \<Longrightarrow> P (put_conn k c s)"
    and allow: "P s \<Longrightarrow> P (decide p ALLOW s)"
    and deny: "P s \<Longrightarrow> h \<in> set (x_asked s) \<Longrightarrow> w_decide W h = BLOCK \<Longrightarrow> P (decide p BLOCK s)"
    and deny_known: "P s \<Longrightarrow> find_conn s k = Some d \<Longrightarrow> cn_state d = Block \<Longrightarrow> P (decide p BLOCK s)"

sublocale packet_audit \<subseteq> ring?: ring_audit P
  by unfold_locales (blast intro: same forget)+

context packet_audit
begin

lemma P_decide_all:
  assumes "P s" "h \<in> set (x_asked s)"
  shows "P (foldl (\<lambda>t p. decide p (w_decide W h) t) s ps)"
  using assms
proof (induction ps arbitrary: s)
  case (Cons p ps)
  then have "P (decide p (w_decide W h) s)"
    using allow deny by (cases "w_decide W h") auto
  with Cons show ?case by (simp add: conn_simps)
qed simp

lemma remember_asked: "preserves (\<lambda>t. x_asked t = x_asked s) (remember_blocked k s)"
  by (auto simp: remember_blocked_def ring_at_def ring_store_def preserves_bind Let_def conn_simps
      split: option.splits)

lemma P_resolve: "P s \<Longrightarrow> own key \<Longrightarrow> preserves P (resolve W key h s)"
proof (cases "map_option cn_state (find_conn s key) = Some Wait")
  case True
  assume "P s" "own key"
  let ?s = "s\<lparr>x_asked := x_asked s @ [h]\<rparr>"
  from True obtain c where c: "find_conn s key = Some c" "cn_state c = Wait" by auto
  let ?d = "c\<lparr>cn_state := Block, cn_held := [], cn_stream := []\<rparr>"
  let ?mid = "if w_decide W h = BLOCK then remember_blocked key (put_conn key ?d ?s)
      else Some (erase_conn key ?s)"
  have "P ?s" using \<open>P s\<close> by (rule ask)
  then have "preserves P ?mid"
    using block [of ?s h key c ?d] c \<open>own key\<close> by (auto intro: P_remember forget)
  moreover have "preserves (\<lambda>t. h \<in> set (x_asked t)) ?mid"
    using remember_asked [of "put_conn key ?d ?s" key]
    by (auto simp: conn_simps elim!: preserves_mono)
  ultimately have mid: "preserves (\<lambda>t. P t \<and> h \<in> set (x_asked t)) ?mid"
    by (simp add: preserves_def)
  have fin: "P (foldl (\<lambda>t p. decide p (w_decide W h) t)
      (if cn_pcpp_key c \<noteq> 0 \<and> \<not> cn_pcpp_closed c
       then t\<lparr>x_to_close := x_to_close t @ [cn_pcpp_key c]\<rparr> else t) (cn_held c))"
    if "P t" "h \<in> set (x_asked t)" for t
    using that same [of t "t\<lparr>x_to_close := x_to_close t @ [cn_pcpp_key c]\<rparr>"]
    by (auto intro!: P_decide_all)
  show ?thesis
    unfolding resolve_def using c fin by (simp add: Let_def preserves_bind preserves_mono [OF mid])
next
  case False
  assume "P s"
  from False have "resolve W key h s = Some s"
    by (auto simp: resolve_def split: option.splits) (metis State.exhaust)
  with \<open>P s\<close> show ?thesis by simp
qed

end

text \<open>The elementary updates make up the steps, whatever the packet.\<close>

sublocale packet_audit \<subseteq> step?: step_audit P W now own pkt for pkt
proof
  fix s k h
  show "P s \<Longrightarrow> own k \<Longrightarrow> preserves P (resolve W k h s)" by (rule P_resolve)
qed (auto intro: same restate track allow deny_known)

text \<open>A property that the updates keep whichever flow they are made to.\<close>

locale update_audit = packet_audit W now "\<lambda>_. True" P
  for W :: "'r world" and now :: int and P :: "'r extractor \<Rightarrow> bool" +
  assumes clear: "P s \<Longrightarrow> P (s\<lparr>x_conns := []\<rparr>)"
begin

lemma P_expire: "P s \<Longrightarrow> preserves P (expire W k s)"
  by (auto simp: expire_def intro: forget_blocked P_resolve split: option.splits)

lemma P_sweep:
  assumes "P s"
  shows "preserves P (sweep W t s)"
proof -
  have "preserves P (mfold (expire W) ks (s\<lparr>x_blocked := n\<rparr>))" for ks n
    using assms by (auto intro!: preserves_mfold P_expire intro: same)
  then show ?thesis
    unfolding sweep_def Let_def preserves_bind
    by (rule preserves_mono)
      (auto intro!: preserves_mono [OF P_call] preserves_mono [OF P_drain] P_publish)
qed

lemma P_flush:
  assumes "P s"
  shows "preserves P (flush W s)"
proof -
  have "preserves P (mfold (\<lambda>key t. resolve W key None t) ks s)" for ks
    using assms by (auto intro!: preserves_mfold P_resolve)
  then show ?thesis
    unfolding flush_def Let_def preserves_bind
    by (rule preserves_mono) (auto intro!: preserves_mono [OF P_drain] P_publish clear)
qed

end

text \<open>The time of the last sweep is moved by \<^verbatim>\<open>tick\<close> alone.\<close>

interpretation sweep_mark: update_audit W now "\<lambda>s. x_lastSweep s = t" for W now t
  by unfold_locales (simp_all add: conn_simps)

lemma tick_not_due: "preserves (\<lambda>t. now - x_lastSweep t < kSweepInterval) (tick W now s)"
  using sweep_mark.P_sweep [of "s\<lparr>x_lastSweep := now\<rparr>" now W now]
  by (auto simp: tick_def kSweepInterval_def preserves_def)

text \<open>A property that does not depend on when the last sweep was is kept by every operation.\<close>

locale decision_audit = update_audit +
  assumes resweep: "P s \<Longrightarrow> P (s\<lparr>x_lastSweep := t\<rparr>)"
begin

lemma P_tick: "P s \<Longrightarrow> preserves P (tick W t s)"
  by (auto simp: tick_def intro!: P_sweep resweep)

lemma P_feed: "P s \<Longrightarrow> preserves P (feed W now pkt s)"
  using P_tick [of s now] tick_not_due [of now W s]
  by (intro P_feed_ticked) (simp_all add: preserves_def)

end

section \<open>Nothing is blocked unless the policy said so\<close>

text \<open>\<open>before\<close> says whether something was blocked earlier that is no longer in the buffer.\<close>

definition audited :: "'r world \<Rightarrow> bool \<Rightarrow> 'r extractor \<Rightarrow> bool" where
  "audited W before s \<longleftrightarrow>
     (before \<or> (\<exists>d\<in>set (x_decided s). dc_verdict d = BLOCK) \<or>
      (\<exists>k c. find_conn s k = Some c \<and> cn_state c = Block) \<longrightarrow>
        (\<exists>h\<in>set (x_asked s). w_decide W h = BLOCK))"

interpretation blame: decision_audit W now "audited W before" for W now before
proof
  fix s :: "'a extractor" and k and c d :: Conn
  assume "audited W before s" "find_conn s k = Some d" "cn_state c = cn_state d"
  then show "audited W before (put_conn k c s)"
    by (auto simp: audited_def conn_simps split: if_splits)
next
  fix s :: "'a extractor" and k
  assume "audited W before s"
  then show "audited W before (put_conn k (Conn0\<lparr>cn_last := now\<rparr>) s)"
    by (auto simp: audited_def conn_simps Conn0_def split: if_splits)
next
  fix s :: "'a extractor" and k
  assume "audited W before s"
  then show "audited W before (erase_conn k s)"
    by (auto simp: audited_def conn_simps split: if_splits)
qed (auto simp: audited_def conn_simps)

lemma new_extractor_audited: "audited W False (new_extractor r mf mb)"
  by (simp add: audited_def new_extractor_def Let_def)

end
