(* ===== verification/Worker_Proofs.thy ===== *)
theory Worker_Proofs
  imports Worker Extractor_Audit
begin

text \<open>
  The worker against the contract of the extractor: every packet the queue hands over is
  answered exactly once by the time the loop has been left, and until then it is either
  answered or held. The contract is a locale, the worker's theorems are proved in it, and
  it is interpreted on the operations of \<open>TcpTlsHostnameExtractor\<close>.
\<close>

section \<open>Threads\<close>

text \<open>Starting twice runs one thread, and no thread is running once its worker is destroyed.\<close>

lemma thread_started_once:
  assumes "\<not> th_joinable th"
  shows "th_spawned (start (start th)) = th_spawned th + 1" "\<not> th_joinable (delete_Worker (start th))"
  using assms by (simp_all add: start_def delete_Worker_def join_def)

section \<open>Messages\<close>

text \<open>A message whose payload lies inside the receive buffer.\<close>

definition message_ok :: "nfq_data \<Rightarrow> bool" where
  "message_ok m \<longleftrightarrow>
     nd_len m \<le> int kRecvBuf \<and> (\<forall>b. nd_payload m = Some b \<longrightarrow> nd_len m \<le> int (length b))"

definition turn_ok :: "turn \<Rightarrow> bool" where
  "turn_ok t \<longleftrightarrow> (\<forall>(now, m) \<in> set (t_msgs t). message_ok m)"

definition message_id :: "nfq_data \<Rightarrow> u32" where
  "message_id m = pk_id (message_packet m)"

lemma message_packet_ok:
  assumes "message_ok m"
  shows "packet_wf (message_packet m)" "pk_pending (message_packet m)"
    "tag (message_packet m) = (message_id m, True)"
proof -
  have "nat (nd_len m) \<le> kRecvBuf" using assms by (simp add: message_ok_def nat_le_iff)
  then have "nat (nd_len m) < U32_SPAN - 8" by (simp add: kRecvBuf_def)
  then show "packet_wf (message_packet m)"
    using assms by (auto simp: message_packet_def Let_def message_ok_def intro!: packet_wf_of)
  show "pk_pending (message_packet m)"
    by (simp add: message_packet_def Packet_of_def Let_def)
  then show "tag (message_packet m) = (message_id m, True)"
    by (simp add: tag_def message_id_def)
qed

text \<open>What a turn comes back with is settled by the system calls alone.\<close>

definition turn_event :: "int \<Rightarrow> turn \<Rightarrow> Event" where
  "turn_event fd t =
     (if t_poll t < 0 then (if t_poll_errno t = EINTR then Idle else Error)
      else if t_poll t = 0 then Idle
      else if fd \<ge> 0 \<and> t_stop_revents t \<noteq> 0 then Stop
      else if t_revents t AND POLLIN = 0 then
        (if t_revents t AND (POLLERR OR POLLHUP OR POLLNVAL) \<noteq> 0 then Error else Idle)
      else if t_recv t < 0 then
        (if t_recv_errno t \<in> {ENOBUFS, EINTR, EAGAIN} then Idle else Error)
      else if t_recv t = 0 then Idle
      else Packets)"

definition turn_messages :: "int \<Rightarrow> turn \<Rightarrow> nfq_data list" where
  "turn_messages fd t = (if turn_event fd t = Packets then map snd (t_msgs t) else [])"

fun loop_messages :: "int \<Rightarrow> turn list \<Rightarrow> nfq_data list" where
  "loop_messages fd [] = []"
| "loop_messages fd (t # ts) = turn_messages fd t @
     (if turn_event fd t \<in> {Stop, Error} then [] else loop_messages fd ts)"

lemma run_once_packets:
  assumes "turn_event (nq_stop_fd q) t = Packets"
  shows "run_once K cb t (q, x) =
    map_option (Pair Packets) (mfold (\<lambda>(now, nfa). handle K (cb now) nfa) (t_msgs t) (q, x))"
  using assms
  by (auto simp: run_once_def turn_event_def Let_def map_conv_bind_option comp_def
      case_prod_unfold split: if_splits)

text \<open>A turn without packets changes nothing, except that a failure is recorded.\<close>

lemma run_once_quiet:
  assumes "turn_event (nq_stop_fd q) t \<noteq> Packets"
  shows "\<exists>q'. run_once K cb t (q, x) = Some (turn_event (nq_stop_fd q) t, q', x) \<and>
    nq_log q' = nq_log q \<and> nq_stop_fd q' = nq_stop_fd q \<and> nq_received q' = nq_received q \<and>
    nq_verdicted q' = nq_verdicted q \<and> nq_undecided q' = nq_undecided q \<and>
    (if turn_event (nq_stop_fd q) t = Error then failed q' else q' = q)"
  using assms
  by (simp add: run_once_def turn_event_def Let_def record_error_def failed_def split: if_splits)

section \<open>The contract of an extractor\<close>

locale hostname_extractor =
  fixes E :: "'x HostnameExtractor"
    and inv :: "'x \<Rightarrow> bool"
    and owed :: "'x \<Rightarrow> (u32 \<times> bool) multiset"
  assumes feed_law: "inv x \<Longrightarrow> packet_wf p \<Longrightarrow>
      ensures (he_feed E now p x) (\<lambda>x'. inv x' \<and> owed x' = owed x + {#tag p#})"
    and tick_law: "inv x \<Longrightarrow> ensures (he_tick E now x) (\<lambda>x'. inv x' \<and> owed x' = owed x)"
    and flush_law: "inv x \<Longrightarrow> ensures (he_flush E x)
      (\<lambda>x'. inv x' \<and> owed x' = owed x \<and> owed (he_clear E x') = {#})"
    and clear_law: "inv x \<Longrightarrow> inv (he_clear E x) \<and> he_decided E (he_clear E x) = [] \<and>
      owed x = mset (map (\<lambda>d. tag (dc_pkt d)) (he_decided E x)) + owed (he_clear E x)"
begin

text \<open>
  The account of a worker: the ids it has answered together with those it owes. Everything
  it owes is pending, so that answering it reaches the kernel.
\<close>

definition account :: "'x worker \<Rightarrow> (u32 \<times> bool) multiset" where
  "account w = image_mset (\<lambda>i. (i, True)) (mset (map fst (nq_log (fst w)))) + owed (snd w)"

definition solvent :: "'x worker \<Rightarrow> bool" where
  "solvent w \<longleftrightarrow> inv (snd w) \<and> (\<forall>t \<in># owed (snd w). snd t)"

lemma submit_all:
  assumes "\<forall>d \<in> set ds. pk_pending (dc_pkt d)"
  shows "nq_log (foldl (\<lambda>q d. snd (submit K (dc_pkt d) (dc_verdict d) q)) q ds) =
      nq_log q @ map (\<lambda>d. (pk_id (dc_pkt d), nf_of (dc_verdict d))) ds \<and>
    nq_stop_fd (foldl (\<lambda>q d. snd (submit K (dc_pkt d) (dc_verdict d) q)) q ds) = nq_stop_fd q \<and>
    nq_received (foldl (\<lambda>q d. snd (submit K (dc_pkt d) (dc_verdict d) q)) q ds) = nq_received q \<and>
    nq_undecided (foldl (\<lambda>q d. snd (submit K (dc_pkt d) (dc_verdict d) q)) q ds) = nq_undecided q"
  using assms
  by (induction ds arbitrary: q) (simp_all add: submit_pending submit_fields)

lemma drain_conserves:
  assumes "solvent w"
  shows "solvent (drain_decided K E w) \<and> account (drain_decided K E w) = account w \<and>
    he_decided E (snd (drain_decided K E w)) = [] \<and>
    snd (drain_decided K E w) = he_clear E (snd w) \<and>
    nq_log (fst (drain_decided K E w)) = nq_log (fst w) @
      map (\<lambda>d. (pk_id (dc_pkt d), nf_of (dc_verdict d))) (he_decided E (snd w)) \<and>
    nq_stop_fd (fst (drain_decided K E w)) = nq_stop_fd (fst w) \<and>
    nq_received (fst (drain_decided K E w)) = nq_received (fst w) \<and>
    nq_undecided (fst (drain_decided K E w)) = nq_undecided (fst w)"
proof -
  obtain q x where w: "w = (q, x)" by (cases w)
  let ?ds = "he_decided E x"
  have law: "inv (he_clear E x)" "he_decided E (he_clear E x) = []"
    "owed x = mset (map (\<lambda>d. tag (dc_pkt d)) ?ds) + owed (he_clear E x)"
    using clear_law [of x] assms w by (simp_all add: solvent_def)
  have pend: "\<forall>d \<in> set ?ds. pk_pending (dc_pkt d)"
  proof
    fix d
    assume "d \<in> set ?ds"
    then have "tag (dc_pkt d) \<in># owed x" by (simp add: law(3))
    with assms w show "pk_pending (dc_pkt d)" by (auto simp: solvent_def tag_def)
  qed
  then have "map (\<lambda>d. tag (dc_pkt d)) ?ds = map (\<lambda>d. (pk_id (dc_pkt d), True)) ?ds"
    by (simp add: tag_def)
  with law assms w submit_all [OF pend, of K q] show ?thesis
    by (simp add: drain_decided_def Let_def account_def solvent_def multiset.map_comp comp_def
        ac_simps del: map_eq_conv)
qed

text \<open>A packet through the callback: on the account once, and never left undecided.\<close>

definition step_ok :: "nfq_data list \<Rightarrow> 'x worker \<Rightarrow> 'x worker \<Rightarrow> bool" where
  "step_ok ms w w' \<longleftrightarrow>
     solvent w' \<and> account w' = account w + mset (map (\<lambda>m. (message_id m, True)) ms) \<and>
     nq_stop_fd (fst w') = nq_stop_fd (fst w) \<and>
     nq_received (fst w') = nq_received (fst w) + of_nat (length ms) \<and>
     nq_undecided (fst w') = nq_undecided (fst w)"

lemma step_ok_refl: "solvent w \<Longrightarrow> step_ok [] w w"
  by (simp add: step_ok_def)

lemma step_ok_trans: "step_ok ms w w' \<Longrightarrow> step_ok ns w' w'' \<Longrightarrow> step_ok (ms @ ns) w w''"
  by (simp add: step_ok_def ac_simps)

lemma handle_ok:
  assumes "solvent w" "message_ok m"
  shows "ensures (handle K (worker_callback K E passthrough now) m w) (step_ok [m] w)"
proof -
  obtain q x where w: "w = (q, x)" by (cases w)
  note m = message_packet_ok [OF assms(2)]
  show ?thesis
  proof (cases passthrough)
    case True
    obtain p q' where sub: "submit K (message_packet m) ALLOW (q\<lparr>nq_received := nq_received q + 1\<rparr>) =
        (p, q')" by fastforce
    with submit_pending [OF m(2), of K ALLOW "q\<lparr>nq_received := nq_received q + 1\<rparr>"]
      submit_fields [of K "message_packet m" ALLOW "q\<lparr>nq_received := nq_received q + 1\<rparr>"]
    have "\<not> pk_pending p" "nq_log q' = nq_log q @ [(message_id m, NF_ACCEPT)]"
      "nq_received q' = nq_received q + 1" "nq_stop_fd q' = nq_stop_fd q"
      "nq_undecided q' = nq_undecided q"
      by (simp_all add: message_id_def nf_of_def)
    with True sub assms w show ?thesis
      by (simp add: handle_def worker_callback_def Let_def step_ok_def account_def solvent_def)
  next
    case False
    have "inv x" using assms(1) w by (simp add: solvent_def)
    from feed_law [OF this m(1), of now] obtain x' where
      x': "he_feed E now (message_packet m) x = Some x'" "inv x'"
        "owed x' = owed x + {#(message_id m, True)#}"
      by (auto simp: ensures_iff m(3))
    moreover obtain husk where "move_packet (message_packet m) = (message_packet m, husk)"
      "\<not> pk_pending husk"
      using move_packet_pending [of "message_packet m"] by (metis prod.collapse)
    ultimately show ?thesis
      using False assms(1) w
      by (simp add: handle_def worker_callback_def step_ok_def account_def solvent_def)
  qed
qed

lemma handle_all_ok:
  assumes "solvent w" "\<forall>(now, m) \<in> set ms. message_ok m"
  shows "ensures (mfold (\<lambda>(now, nfa). handle K (worker_callback K E passthrough now) nfa) ms w)
    (step_ok (map snd ms) w)"
  using assms
proof (induction ms arbitrary: w)
  case (Cons nm ms)
  obtain now m where nm: "nm = (now, m)" by (cases nm)
  from handle_ok [OF Cons.prems(1), of m K passthrough now] Cons.prems(2) nm obtain w' where
    w': "handle K (worker_callback K E passthrough now) m w = Some w'" "step_ok [m] w w'"
    by (auto simp: ensures_iff)
  then have "solvent w'" by (simp add: step_ok_def)
  from Cons.IH [OF this] Cons.prems(2) nm w' step_ok_trans [OF w'(2)] show ?case
    by (auto elim!: ensures_mono)
qed (simp add: step_ok_refl)

lemma drain_step_ok: "step_ok ms w w' \<Longrightarrow> step_ok ms w (drain_decided K E w')"
  using drain_conserves [of w' K] by (simp add: step_ok_def)

lemma run_once_ok:
  assumes "solvent w" "turn_ok t"
  shows "ensures (run_once K (worker_callback K E passthrough) t w)
    (\<lambda>(ev, w'). ev = turn_event (nq_stop_fd (fst w)) t \<and>
       step_ok (turn_messages (nq_stop_fd (fst w)) t) w w')"
proof -
  obtain q x where w: "w = (q, x)" by (cases w)
  show ?thesis
  proof (cases "turn_event (nq_stop_fd q) t = Packets")
    case True
    with handle_all_ok [OF assms(1), of "t_msgs t" K passthrough] assms(2) w show ?thesis
      by (simp add: run_once_packets ensures_map_option turn_messages_def turn_ok_def)
  next
    case False
    from run_once_quiet [OF this, of K "worker_callback K E passthrough" x] False assms(1) w
    show ?thesis
      by (auto simp: ensures_iff turn_messages_def step_ok_def account_def solvent_def)
  qed
qed

lemma shutdown_ok:
  assumes "step_ok ms w0 w"
  shows "ensures (shutdown K E w) (\<lambda>w'. step_ok ms w0 w' \<and> owed (snd w') = {#})"
proof -
  obtain q x where w: "w = (q, x)" by (cases w)
  have "inv x" using assms w by (simp add: step_ok_def solvent_def)
  from flush_law [OF this] obtain x' where
    x': "he_flush E x = Some x'" "inv x'" "owed x' = owed x" "owed (he_clear E x') = {#}"
    by (auto simp: ensures_iff)
  then have "step_ok ms w0 (q, x')"
    using assms w by (simp add: step_ok_def solvent_def account_def)
  with x' w drain_step_ok [OF this, of K] show ?thesis
    by (simp add: shutdown_def drain_decided_def Let_def)
qed

lemma worker_turn_ok:
  assumes "solvent w" "turn_ok t"
  shows "ensures (worker_turn K E passthrough t w) (\<lambda>(left, w').
    left = (turn_event (nq_stop_fd (fst w)) t \<in> {Stop, Error}) \<and>
    step_ok (turn_messages (nq_stop_fd (fst w)) t) w w' \<and>
    (left \<longrightarrow> owed (snd w') = {#}))"
proof -
  let ?fd = "nq_stop_fd (fst w)"
  obtain q x where run: "run_once K (worker_callback K E passthrough) t w =
      Some (turn_event ?fd t, q, x)" "step_ok (turn_messages ?fd t) w (q, x)"
    using run_once_ok [OF assms, of K passthrough] by (auto simp: ensures_iff)
  show ?thesis
  proof (cases "turn_event ?fd t \<in> {Stop, Error}")
    case True
    with run shutdown_ok [OF run(2), of K] show ?thesis
      by (auto simp: worker_turn_def ensures_map_option elim!: ensures_mono)
  next
    case False
    have "inv x" using run(2) by (simp add: step_ok_def solvent_def)
    from tick_law [OF this, of "t_now t"] obtain x' where
      x': "he_tick E (t_now t) x = Some x'" "inv x'" "owed x' = owed x"
      by (auto simp: ensures_iff)
    then have "step_ok (turn_messages ?fd t) w (q, x')"
      using run(2) by (simp add: step_ok_def solvent_def account_def)
    from drain_step_ok [OF this, of K] False run x' show ?thesis
      by (simp add: worker_turn_def)
  qed
qed

lemma worker_loop_ok:
  assumes "solvent w" "\<forall>t \<in> set ts. turn_ok t"
  shows "ensures (worker_loop K E passthrough ts w) (\<lambda>(left, w').
    left = (\<exists>t \<in> set ts. turn_event (nq_stop_fd (fst w)) t \<in> {Stop, Error}) \<and>
    step_ok (loop_messages (nq_stop_fd (fst w)) ts) w w' \<and>
    (left \<longrightarrow> owed (snd w') = {#}))"
  using assms
proof (induction ts arbitrary: w)
  case (Cons t ts)
  let ?fd = "nq_stop_fd (fst w)"
  obtain left w' where t: "worker_turn K E passthrough t w = Some (left, w')"
    "left = (turn_event ?fd t \<in> {Stop, Error})" "step_ok (turn_messages ?fd t) w w'"
    "left \<longrightarrow> owed (snd w') = {#}"
    using worker_turn_ok [OF Cons.prems(1), of t K passthrough] Cons.prems(2)
    by (auto simp: ensures_iff)
  show ?case
  proof (cases left)
    case True
    with t show ?thesis by auto
  next
    case False
    have "solvent w'" "nq_stop_fd (fst w') = ?fd" using t(3) by (simp_all add: step_ok_def)
    with Cons.IH [of w'] Cons.prems(2) False t step_ok_trans [OF t(3)] show ?thesis
      by (auto elim!: ensures_mono)
  qed
qed (simp add: step_ok_refl)

text \<open>The ids answered by the time the loop is left are the ids received, each once.\<close>

lemma loop_answers_all:
  assumes "solvent w" "account w = {#}" "\<forall>t \<in> set ts. turn_ok t"
    "worker_loop K E passthrough ts w = Some (True, w')"
  shows "mset (map fst (nq_log (fst w'))) =
    mset (map message_id (loop_messages (nq_stop_fd (fst w)) ts))"
proof -
  let ?ms = "loop_messages (nq_stop_fd (fst w)) ts"
  have "step_ok ?ms w w'" "owed (snd w') = {#}"
    using worker_loop_ok [OF assms(1,3), of K passthrough] assms(4) by auto
  then have "image_mset (\<lambda>i. (i, True)) (mset (map fst (nq_log (fst w')))) =
      mset (map (\<lambda>m. (message_id m, True)) ?ms)"
    using assms(2) by (simp add: step_ok_def account_def)
  then have "image_mset fst (image_mset (\<lambda>i. (i, True)) (mset (map fst (nq_log (fst w'))))) =
      image_mset fst (mset (map (\<lambda>m. (message_id m, True)) ?ms))"
    by (rule arg_cong)
  then show ?thesis by (simp add: multiset.map_comp comp_def)
qed

end

section \<open>The extractor keeps the contract\<close>

interpretation tcp: hostname_extractor "TcpTlsHostnameExtractor W" "\<lambda>x. world_ok W \<and> ready x" debt for W
proof
  fix x :: "'a extractor" and p now
  assume "world_ok W \<and> ready x" "packet_wf p"
  then show "ensures (he_feed (TcpTlsHostnameExtractor W) now p x)
      (\<lambda>x'. (world_ok W \<and> ready x') \<and> debt x' = debt x + {#tag p#})"
    using feed_safe [of W x p now] by (auto simp: accounts_def elim!: ensures_mono)
next
  fix x :: "'a extractor" and now
  assume "world_ok W \<and> ready x"
  then show "ensures (he_tick (TcpTlsHostnameExtractor W) now x)
      (\<lambda>x'. (world_ok W \<and> ready x') \<and> debt x' = debt x)"
    using tick_ok [of x W now] by (auto simp: accounts_def elim!: ensures_mono)
next
  fix x :: "'a extractor"
  assume "world_ok W \<and> ready x"
  then show "ensures (he_flush (TcpTlsHostnameExtractor W) x) (\<lambda>x'. (world_ok W \<and> ready x') \<and>
      debt x' = debt x \<and> debt (he_clear (TcpTlsHostnameExtractor W) x') = {#})"
    using flush_ok [of W x] by (auto simp: accounts_def debt_def elim!: ensures_mono)
qed (simp add: debt_def ready_def shells_def)

end
