(* ===== verification/Cli.thy ===== *)
theory Cli
  imports Blocklist
begin

text \<open>
  \<^verbatim>\<open>include/config.hpp\<close>, \<^verbatim>\<open>include/cli.hpp\<close> and \<^verbatim>\<open>src/cli.cpp\<close>: the configuration, its
  derived values and the command line parser. Output goes to an explicit list; the
  values parsed into a field keep the width of the field.
\<close>

section \<open>Configuration\<close>

record Config =
  cf_blocklist_path :: string
  cf_queue_num :: u16
  cf_queue_maxlen :: u32
  cf_jobs :: nat
  cf_recv_buf_bytes :: int
  cf_max_blocked_flows :: nat
  cf_pin_first_cpu :: int
  cf_pin_stride :: int
  cf_verbose :: bool
  cf_passthrough :: bool
  cf_stats_interval_s :: u32

definition Config0 :: Config where
  "Config0 = \<lparr>cf_blocklist_path = ''blocklist.txt'', cf_queue_num = 0, cf_queue_maxlen = 8192,
     cf_jobs = 4, cf_recv_buf_bytes = 256 * 1024 * 1024, cf_max_blocked_flows = 0,
     cf_pin_first_cpu = -1, cf_pin_stride = 1, cf_verbose = False, cf_passthrough = False,
     cf_stats_interval_s = 0\<rparr>"

definition worker_count :: "Config \<Rightarrow> nat" where
  "worker_count c = (if cf_jobs c > 0 then cf_jobs c else 1)"

definition last_queue_num :: "Config \<Rightarrow> u16" where
  "last_queue_num c = of_nat (unat (cf_queue_num c) + worker_count c - 1)"

text \<open>
  The conversion of a negative \<^verbatim>\<open>int\<close> to \<^verbatim>\<open>size_t\<close> and of the result back to
  \<^verbatim>\<open>int\<close> wraps, as the casts in the source do.
\<close>

definition recv_buf_per_worker :: "Config \<Rightarrow> int" where
  "recv_buf_per_worker c =
     (let share = unat (of_int (cf_recv_buf_bytes c) :: u64) div worker_count c;
          kFloor = 1024 * 1024
      in sint (of_nat (if share < kFloor then kFloor else share) :: u32))"

section \<open>Numbers\<close>

text \<open>\<^verbatim>\<open>std::to_string\<close> on an unsigned value.\<close>

definition digit_char :: "nat \<Rightarrow> char" where
  "digit_char d = char_of (48 + d)"

fun to_string :: "nat \<Rightarrow> string" where
  "to_string n = (if n < 10 then [digit_char n] else to_string (n div 10) @ [digit_char (n mod 10)])"

declare to_string.simps [simp del]

definition isdigit :: "char \<Rightarrow> bool" where
  "isdigit c \<longleftrightarrow> 48 \<le> (of_char c :: nat) \<and> (of_char c :: nat) \<le> 57"

definition digits_value :: "string \<Rightarrow> nat" where
  "digits_value ds = foldl (\<lambda>v c. 10 * v + (of_char c - 48)) 0 ds"

abbreviation ULLONG_MAX :: nat where
  "ULLONG_MAX \<equiv> 18446744073709551615"

text \<open>
  \<^verbatim>\<open>strtoull\<close> in base ten: the value, whether \<^verbatim>\<open>errno\<close> is set, and the text from the end
  pointer on, which is the whole text when there was nothing to convert.
\<close>

definition strtoull :: "string \<Rightarrow> nat \<times> bool \<times> string" where
  "strtoull s =
     (let body = dropWhile isspace s;
          neg = (body \<noteq> [] \<and> hd body = CHR ''-'');
          sign = (body \<noteq> [] \<and> hd body \<in> {CHR ''-'', CHR ''+''});
          num = (if sign then tl body else body);
          ds = takeWhile isdigit num;
          v = digits_value ds
      in if ds = [] then (0, False, s)
         else if v > ULLONG_MAX then (ULLONG_MAX, True, dropWhile isdigit num)
         else (if neg then (ULLONG_MAX + 1 - v) mod (ULLONG_MAX + 1) else v, False,
               dropWhile isdigit num))"

text \<open>
  \<^verbatim>\<open>parse_uint\<close>: \<open>None\<close> when it returns \<^verbatim>\<open>false\<close>. A C string ends at its first NUL.
\<close>

definition parse_uint :: "string \<Rightarrow> nat \<Rightarrow> nat \<Rightarrow> nat option" where
  "parse_uint s lo hi =
     (if s = [] then None
      else
        let tmp = takeWhile (\<lambda>c. c \<noteq> CHR 0x00) s;
            (v, erange, rest) = strtoull tmp
        in if erange \<or> rest = tmp \<or> rest \<noteq> [] \<or> v < lo \<or> v > hi then None else Some v)"

section \<open>The parser\<close>

record ParseResult =
  pr_config :: Config
  pr_should_exit :: bool
  pr_exit_code :: int

datatype out_line = Stdout string | Stderr string

text \<open>The help text, the part printed by \<^verbatim>\<open>usage\<close>.\<close>

definition usage_lines :: "string list" where
  "usage_lines = [
     ''usage: PacketInspector [options] [blocklist]'',
     [],
     ''Attach to an NFQUEUE and DROP flows whose TLS SNI is on the blocklist;'',
     ''everything else is ACCEPTed.'',
     [],
     ''options:'',
     ''  -j <n>          workers to run. Each owns one NFQUEUE, one thread'',
     ''                  and one reassembler                    (default 4)'',
     ''  -nfq <n>        FIRST NFQUEUE number; worker i binds <n>+i, so the'',
     ''                  set must match iptables --queue-balance (default 0)'',
     ''  -nfq-size <n>   NFQUEUE depth in packets, per worker    (default 8192)'',
     ''  -rcvbuf <n>     netlink recv buffer in bytes, TOTAL across workers'',
     ''                                                     (default 256MiB)'',
     ''  -max-blocked <n>  blocked flows a worker remembers, so they cannot'',
     ''                  crowd out flows still awaiting a verdict'',
     ''                                            (default: a quarter of the'',
     ''                                             flow cap, i.e. 16384)'',
     ''  -b <path>       blocklist file (or pass it positionally)'',
     ''                                                 (default blocklist.txt)'',
     ''  -pin <cpu>      pin worker i to CPU <cpu> + i*stride; off by default'',
     ''  -pin-stride <n> CPU stride between workers, for SMT   (default 1)'',
     ''  -v, --verbose   log a line per resolved flow; off by default because'',
     ''                  at load it costs a write() per flow'',
     ''  --passthrough   allow every packet without inspecting; benchmark'',
     ''                  baseline for the NFQUEUE round trip alone'',
     ''  --stats <n>     print a counters line to stderr every n seconds'',
     ''                                                        (default off)'',
     ''  -h, --help      show this help and exit'']"

definition usage :: string where
  "usage = concat (map (\<lambda>l. l @ [CHR 0x0A]) usage_lines)"

text \<open>Leaving with a message: the result keeps the configuration read so far.\<close>

definition fail :: "string \<Rightarrow> Config \<Rightarrow> ParseResult \<times> out_line list" where
  "fail msg cfg =
     (\<lparr>pr_config = cfg, pr_should_exit = True, pr_exit_code = 2\<rparr>,
      [Stderr (''PacketInspector: '' @ msg @ [CHR 0x0A]), Stderr usage])"

definition quote :: char where
  "quote = CHR 0x27"

text \<open>
  The options that take a number: the range, how a wrong value is reported, and the field
  the number goes to, converted to its width.
\<close>

definition number_flag :: "string \<Rightarrow> (nat \<times> nat \<times> string \<times> (nat \<Rightarrow> Config \<Rightarrow> Config)) option" where
  "number_flag arg =
     (if arg = ''-j'' then
        Some (1, 4096, ''an integer 1..4096'', \<lambda>n cfg. cfg\<lparr>cf_jobs := n\<rparr>)
      else if arg = ''-nfq'' then
        Some (0, 65535, ''a queue number 0..65535'', \<lambda>n cfg. cfg\<lparr>cf_queue_num := of_nat n\<rparr>)
      else if arg = ''-nfq-size'' then
        Some (1, 4294967295, ''a positive integer'', \<lambda>n cfg. cfg\<lparr>cf_queue_maxlen := of_nat n\<rparr>)
      else if arg = ''-max-blocked'' then
        Some (1, 4294967295, ''a positive integer'', \<lambda>n cfg. cfg\<lparr>cf_max_blocked_flows := n\<rparr>)
      else if arg = ''-pin'' then
        Some (0, 4095, ''a CPU number 0..4095'', \<lambda>n cfg. cfg\<lparr>cf_pin_first_cpu := int n\<rparr>)
      else if arg = ''-pin-stride'' then
        Some (1, 64, ''1..64'', \<lambda>n cfg. cfg\<lparr>cf_pin_stride := int n\<rparr>)
      else if arg = ''-rcvbuf'' then
        Some (1, 2147483647, ''a positive byte count'', \<lambda>n cfg. cfg\<lparr>cf_recv_buf_bytes := int n\<rparr>)
      else if arg = ''--stats'' then
        Some (0, 86400, ''seconds 0..86400'', \<lambda>n cfg. cfg\<lparr>cf_stats_interval_s := of_nat n\<rparr>)
      else None)"

text \<open>The lambda \<^verbatim>\<open>value\<close>: the argument that must follow an option.\<close>

definition missing_value :: "string \<Rightarrow> Config \<Rightarrow> ParseResult \<times> out_line list" where
  "missing_value flag cfg = fail (''option '' @ flag @ '' requires a value'') cfg"

definition bad_value :: "string \<Rightarrow> string \<Rightarrow> string \<Rightarrow> Config \<Rightarrow> ParseResult \<times> out_line list" where
  "bad_value flag expects val cfg =
     fail (flag @ '' expects '' @ expects @ '', got '' @ [quote] @ val @ [quote]) cfg"

text \<open>The check after the loop over the arguments.\<close>

definition finish :: "Config \<Rightarrow> ParseResult \<times> out_line list" where
  "finish cfg =
     (let top = unat (cf_queue_num cfg) + worker_count cfg - 1 in
      if top > 65535
      then fail (''-nfq '' @ to_string (unat (cf_queue_num cfg)) @ '' with -j '' @
                 to_string (cf_jobs cfg) @ '' would need queues up to '' @ to_string top @
                 '', past the 65535 maximum'') cfg
      else (\<lparr>pr_config = cfg, pr_should_exit = False, pr_exit_code = 0\<rparr>, []))"

text \<open>The loop over the arguments after the program's name.\<close>

fun parse_args :: "Config \<Rightarrow> string list \<Rightarrow> ParseResult \<times> out_line list" where
  "parse_args cfg [] = finish cfg"
| "parse_args cfg (arg # rest) =
     (if arg = ''-h'' \<or> arg = ''--help'' then
        (\<lparr>pr_config = cfg, pr_should_exit = True, pr_exit_code = 0\<rparr>, [Stdout usage])
      else (case number_flag arg of
        Some (lo, hi, expects, store) \<Rightarrow>
          (case rest of
             [] \<Rightarrow> missing_value arg cfg
           | val # rest' \<Rightarrow>
               (case parse_uint val lo hi of
                  None \<Rightarrow> bad_value arg expects val cfg
                | Some n \<Rightarrow> parse_args (store n cfg) rest'))
      | None \<Rightarrow>
          if arg = ''-b'' then
            (case rest of
               [] \<Rightarrow> missing_value arg cfg
             | val # rest' \<Rightarrow> parse_args (cfg\<lparr>cf_blocklist_path := val\<rparr>) rest')
          else if arg = ''-v'' \<or> arg = ''--verbose'' then
            parse_args (cfg\<lparr>cf_verbose := True\<rparr>) rest
          else if arg = ''--passthrough'' then
            parse_args (cfg\<lparr>cf_passthrough := True\<rparr>) rest
          else if arg \<noteq> [] \<and> hd arg = CHR ''-'' then
            fail (''unknown option: '' @ arg) cfg
          else parse_args (cfg\<lparr>cf_blocklist_path := arg\<rparr>) rest))"

declare parse_args.simps(2) [simp del]

definition parse :: "string list \<Rightarrow> ParseResult \<times> out_line list" where
  "parse argv = parse_args Config0 (drop 1 argv)"

section \<open>Numbers round trip\<close>

lemma of_char_digit [simp]: "d < 10 \<Longrightarrow> (of_char (digit_char d) :: nat) = 48 + d"
  by (simp add: digit_char_def of_char_of)

lemma digits_value_snoc: "digits_value (ds @ [c]) = 10 * digits_value ds + (of_char c - 48)"
  by (simp add: digits_value_def)

lemma to_string_digits: "to_string n \<noteq> [] \<and> list_all isdigit (to_string n) \<and>
  digits_value (to_string n) = n"
proof (induction n rule: to_string.induct)
  case (1 n)
  show ?case
  proof (cases "n < 10")
    case True
    then show ?thesis
      by (subst to_string.simps, simp) (simp add: to_string.simps isdigit_def digits_value_def)
  next
    case False
    have "isdigit (digit_char (n mod 10))" by (simp add: isdigit_def)
    with False 1 show ?thesis
      by (subst to_string.simps, subst (2) to_string.simps, subst (3) to_string.simps)
        (simp add: digits_value_snoc)
  qed
qed

lemma isdigit_facts:
  assumes "isdigit c"
  shows "\<not> isspace c" "c \<noteq> CHR ''-''" "c \<noteq> CHR ''+''" "c \<noteq> CHR 0x00"
  using assms by (auto simp: isdigit_def isspace_def)

lemma strtoull_digits:
  assumes "list_all isdigit ds" "ds \<noteq> []" "digits_value ds \<le> ULLONG_MAX"
  shows "strtoull ds = (digits_value ds, False, [])"
proof -
  have hd: "isdigit (hd ds)" using assms by (cases ds) auto
  have sp: "dropWhile isspace ds = ds"
    using hd isdigit_facts(1) assms(2) by (cases ds) auto
  have dg: "takeWhile isdigit ds = ds" "dropWhile isdigit ds = []"
    using assms(1) by (simp_all add: takeWhile_eq_all_conv dropWhile_eq_Nil_conv list_all_iff)
  have "hd ds \<noteq> CHR ''-''" "hd ds \<noteq> CHR ''+''" using isdigit_facts [OF hd] by simp_all
  with assms(2,3) show ?thesis by (simp add: strtoull_def Let_def sp dg)
qed

text \<open>
  C37. A number of at most 64 bits written in decimal is read back by the option parser, and
  rejected exactly when it is outside the range the option allows.
\<close>

lemma parse_uint_to_string:
  assumes "n \<le> ULLONG_MAX"
  shows "parse_uint (to_string n) lo hi = (if lo \<le> n \<and> n \<le> hi then Some n else None)"
proof -
  note ds = to_string_digits [of n]
  have nul: "takeWhile (\<lambda>c. c \<noteq> CHR 0x00) (to_string n) = to_string n"
    using ds isdigit_facts(4) by (auto simp: takeWhile_eq_all_conv list_all_iff)
  have "strtoull (to_string n) = (n, False, [])"
    using ds assms strtoull_digits [of "to_string n"] by simp
  then show ?thesis using ds by (auto simp: parse_uint_def Let_def nul)
qed

lemma parse_uint_range: "parse_uint s lo hi = Some n \<Longrightarrow> lo \<le> n \<and> n \<le> hi"
  by (auto simp: parse_uint_def Let_def split: if_splits prod.splits)

text \<open>\<^verbatim>\<open>strtoull\<close> takes a sign and leading space, and a minus sign wraps.\<close>

lemma parse_uint_signed:
  "parse_uint ''-18446744073709551612'' 1 4096 = Some 4"
  "parse_uint '' +4'' 1 4096 = Some 4"
  by (simp_all add: parse_uint_def strtoull_def Let_def isspace_def isdigit_def digits_value_def)

section \<open>What a parsed configuration satisfies\<close>

definition config_ok :: "Config \<Rightarrow> bool" where
  "config_ok c \<longleftrightarrow>
     1 \<le> cf_jobs c \<and> cf_jobs c \<le> 4096 \<and>
     1 \<le> cf_recv_buf_bytes c \<and> cf_recv_buf_bytes c \<le> 2147483647 \<and>
     -1 \<le> cf_pin_first_cpu c \<and> cf_pin_first_cpu c \<le> 4095 \<and>
     1 \<le> cf_pin_stride c \<and> cf_pin_stride c \<le> 64 \<and>
     1 \<le> unat (cf_queue_maxlen c) \<and> cf_max_blocked_flows c \<le> 4294967295 \<and>
     unat (cf_stats_interval_s c) \<le> 86400"

definition queues_fit :: "Config \<Rightarrow> bool" where
  "queues_fit c \<longleftrightarrow> unat (cf_queue_num c) + worker_count c - 1 \<le> 65535"

lemma Config0_ok: "config_ok Config0"
  by (simp add: config_ok_def Config0_def)

lemma unat_of_nat_u32: "n \<le> 4294967295 \<Longrightarrow> unat (of_nat n :: u32) = n"
  by (simp add: unat_of_nat take_bit_nat_eq_self_iff)

lemma if_SomeE:
  "(if b then Some x else y) = Some z \<Longrightarrow> (x = z \<Longrightarrow> P) \<Longrightarrow> (y = Some z \<Longrightarrow> P) \<Longrightarrow> P"
  by (simp split: if_splits)

lemma number_flag_ok:
  assumes "number_flag arg = Some (lo, hi, expects, store)" "config_ok c" "lo \<le> n" "n \<le> hi"
  shows "config_ok (store n c)"
  using assms(1) unfolding number_flag_def
  by (elim if_SomeE)
    (use assms(2-4) in \<open>auto simp: config_ok_def unat_of_nat_u32\<close>)

text \<open>An argument ends the parse with the help text or an error, or is taken in.\<close>

lemma config_ok_keep:
  "config_ok cfg \<Longrightarrow> config_ok (cfg\<lparr>cf_blocklist_path := p\<rparr>)"
  "config_ok cfg \<Longrightarrow> config_ok (cfg\<lparr>cf_verbose := b\<rparr>)"
  "config_ok cfg \<Longrightarrow> config_ok (cfg\<lparr>cf_passthrough := b\<rparr>)"
  by (simp_all add: config_ok_def)

text \<open>One argument that is not a numeric option.\<close>

lemma parse_args_word:
  assumes "number_flag arg = None \<or> arg = ''-h'' \<or> arg = ''--help''"
  obtains (helped) "parse_args cfg (arg # rest) =
      (\<lparr>pr_config = cfg, pr_should_exit = True, pr_exit_code = 0\<rparr>, [Stdout usage])"
  | (error) msg where "parse_args cfg (arg # rest) = fail msg cfg"
  | (taken) cfg' rest' where "parse_args cfg (arg # rest) = parse_args cfg' rest'"
      "length rest' \<le> length rest" "config_ok cfg \<Longrightarrow> config_ok cfg'"
proof -
  define A where "A \<longleftrightarrow> arg = ''-h'' \<or> arg = ''--help''"
  define B where "B \<longleftrightarrow> arg = ''-b''"
  define C where "C \<longleftrightarrow> arg = ''-v'' \<or> arg = ''--verbose''"
  define D where "D \<longleftrightarrow> arg = ''--passthrough''"
  define F where "F \<longleftrightarrow> arg \<noteq> [] \<and> hd arg = CHR ''-''"
  note step = parse_args.simps(2) [of cfg arg rest, folded A_def B_def C_def D_def F_def]
  note keep = config_ok_keep [of cfg]
  have none: "\<not> A \<Longrightarrow> number_flag arg = None" using assms by (simp add: A_def)
  consider "A" | "\<not> A" "B" "rest = []" | v rest' where "\<not> A" "B" "rest = v # rest'"
    | "\<not> A" "\<not> B" "C" | "\<not> A" "\<not> B" "\<not> C" "D" | "\<not> A" "\<not> B" "\<not> C" "\<not> D" "F"
    | "\<not> A" "\<not> B" "\<not> C" "\<not> D" "\<not> F"
    by (cases rest) blast+
  then show thesis
  proof cases
    case 1
    then show thesis by (intro helped) (simp add: step)
  next
    case 2
    with step none show thesis by (intro error) (simp add: missing_value_def)
  next
    case (3 v rest')
    with step none show thesis by (intro taken [OF _ _ keep(1) [of v]]) auto
  next
    case 4
    then show thesis by (intro taken [OF _ _ keep(2) [of True]]) (auto simp: step none)
  next
    case 5
    then show thesis by (intro taken [OF _ _ keep(3) [of True]]) (auto simp: step none)
  next
    case 6
    then show thesis by (intro error) (simp add: step none)
  next
    case 7
    then show thesis by (intro taken [OF _ _ keep(1) [of arg]]) (auto simp: step none)
  qed
qed

lemma parse_args_step:
  obtains (helped) "parse_args cfg (arg # rest) =
      (\<lparr>pr_config = cfg, pr_should_exit = True, pr_exit_code = 0\<rparr>, [Stdout usage])"
  | (error) msg where "parse_args cfg (arg # rest) = fail msg cfg"
  | (taken) cfg' rest' where "parse_args cfg (arg # rest) = parse_args cfg' rest'"
      "length rest' \<le> length rest" "config_ok cfg \<Longrightarrow> config_ok cfg'"
proof -
  define A where "A \<longleftrightarrow> arg = ''-h'' \<or> arg = ''--help''"
  note step = parse_args.simps(2) [of cfg arg rest, folded A_def]
  show thesis
  proof (cases "number_flag arg = None \<or> A")
    case True
    then show thesis unfolding A_def by (rule parse_args_word [of arg cfg rest]) (fact that)+
  next
    case False
    then obtain lo hi expects store where flag: "number_flag arg = Some (lo, hi, expects, store)"
      by auto
    show thesis
    proof (cases rest)
      case Nil
      with False flag step show thesis by (intro error) (simp add: missing_value_def)
    next
      case (Cons v rest')
      show thesis
      proof (cases "parse_uint v lo hi")
        case None
        with False flag Cons step show thesis by (intro error) (simp add: bad_value_def)
      next
        case (Some n)
        have "config_ok cfg \<Longrightarrow> config_ok (store n cfg)"
          using number_flag_ok [OF flag] parse_uint_range [OF Some] by simp
        with False flag Cons Some step show thesis by (intro taken) auto
      qed
    qed
  qed
qed

lemma parse_args_ok: "config_ok c \<Longrightarrow> config_ok (pr_config (fst (parse_args c args)))"
proof (induction args arbitrary: c rule: length_induct)
  case (1 args)
  show ?case
  proof (cases args)
    case Nil
    with "1.prems" show ?thesis by (simp add: finish_def fail_def Let_def)
  next
    case (Cons arg rest)
    show ?thesis
    proof (cases rule: parse_args_step [of c arg rest])
      case (taken c' rest')
      with 1 Cons show ?thesis by auto
    qed (use "1.prems" Cons in \<open>simp_all add: fail_def\<close>)
  qed
qed

lemma parse_args_exit:
  "case parse_args c args of (r, outs) \<Rightarrow>
    if pr_should_exit r then pr_exit_code r \<in> {0, 2} \<and> outs \<noteq> [] \<and>
      (pr_exit_code r = 0 \<longleftrightarrow> outs = [Stdout usage])
    else queues_fit (pr_config r) \<and> pr_exit_code r = 0 \<and> outs = []"
proof (induction args arbitrary: c rule: length_induct)
  case (1 args)
  show ?case
  proof (cases args)
    case Nil
    then show ?thesis by (simp add: finish_def fail_def queues_fit_def Let_def)
  next
    case (Cons arg rest)
    show ?thesis
    proof (cases rule: parse_args_step [of c arg rest])
      case (taken c' rest')
      with 1 Cons show ?thesis by auto
    qed (use Cons in \<open>simp_all add: fail_def\<close>)
  qed
qed

section \<open>Derived values\<close>

lemma last_queue_num_exact:
  assumes "queues_fit c"
  shows "unat (last_queue_num c) = unat (cf_queue_num c) + worker_count c - 1"
  using assms by (simp add: last_queue_num_def queues_fit_def unat_of_nat take_bit_nat_eq_self_iff)

text \<open>The queue number of worker \<open>i\<close>, as \<^verbatim>\<open>main\<close> computes it.\<close>

definition worker_queue :: "Config \<Rightarrow> nat \<Rightarrow> u16" where
  "worker_queue c i = of_nat (unat (cf_queue_num c) + i)"

lemma worker_queue_exact:
  assumes "queues_fit c" "i < worker_count c"
  shows "unat (worker_queue c i) = unat (cf_queue_num c) + i"
proof -
  have "unat (cf_queue_num c) + i \<le> 65535" using assms by (simp add: queues_fit_def)
  then show ?thesis
    unfolding worker_queue_def by (simp only: unat_of_nat) (simp add: take_bit_nat_eq_self_iff)
qed

text \<open>
  When the configuration was accepted the workers bind pairwise different queues, and together
  exactly the range that is printed for the firewall rule.
\<close>

lemma worker_queues_range:
  assumes "queues_fit c"
  shows "inj_on (worker_queue c) {..<worker_count c} \<and>
    unat ` worker_queue c ` {..<worker_count c} =
      {unat (cf_queue_num c)..unat (last_queue_num c)}"
proof
  show "inj_on (worker_queue c) {..<worker_count c}"
    by (rule inj_onI) (metis worker_queue_exact [OF assms] add_left_cancel lessThan_iff)
  have pos: "worker_count c > 0" by (simp add: worker_count_def)
  have "unat ` worker_queue c ` {..<worker_count c} =
      (\<lambda>i. unat (cf_queue_num c) + i) ` {..<worker_count c}"
    unfolding image_image by (rule image_cong) (simp_all add: worker_queue_exact [OF assms])
  also have "\<dots> = {unat (cf_queue_num c)..<unat (cf_queue_num c) + worker_count c}"
    by (simp add: lessThan_atLeast0 add.commute)
  finally show "unat ` worker_queue c ` {..<worker_count c} =
      {unat (cf_queue_num c)..unat (last_queue_num c)}"
    using pos last_queue_num_exact [OF assms] by auto
qed

lemma sint_small: "m \<le> 2147483647 \<Longrightarrow> sint (of_nat m :: u32) = int m"
  by (simp add: signed_of_nat signed_take_bit_int_eq_self)

text \<open>
  Each worker gets its share of the receive buffer but at least 1 MiB; no conversion of the
  computation loses anything.
\<close>

lemma recv_buf_per_worker_exact:
  assumes "config_ok c"
  shows "recv_buf_per_worker c =
    max (1024 * 1024) (cf_recv_buf_bytes c div int (worker_count c))"
proof -
  let ?n = "worker_count c"
  obtain b where b: "b \<le> 2147483647" "cf_recv_buf_bytes c = int b"
    using assms by (intro that [of "nat (cf_recv_buf_bytes c)"]) (auto simp: config_ok_def)
  have "unat (of_int (int b) :: u64) = b"
    using b(1) by (simp add: unat_of_nat take_bit_nat_eq_self_iff)
  moreover have "b div ?n \<le> 2147483647" using b(1) by (simp add: le_trans [OF div_le_dividend])
  ultimately show ?thesis
    unfolding recv_buf_per_worker_def Let_def b(2)
    by (cases "b div ?n < 1048576") (simp_all add: sint_small zdiv_int [symmetric])
qed

end
