(* ===== verification/Stop_Descriptor.thy ===== *)
theory Stop_Descriptor
  imports NF_Queue
begin

text \<open>
  The stop descriptor of \<^verbatim>\<open>src/main.cpp\<close>: one eventfd that every worker polls and none
  reads, and \<^verbatim>\<open>on_signal\<close>, which writes it, as the handler of signals and when \<^verbatim>\<open>main\<close>
  itself calls it at the end.
\<close>

section \<open>The counter and its writer\<close>

text \<open>
  The counter behind the eventfd. It is created with value 0 in non-blocking mode: a
  write adds to it unless that would go past its maximum, when the write fails and leaves
  it as it is. Poll reports the descriptor readable while the counter is positive.
\<close>

definition eventfd_write :: "u64 \<Rightarrow> u64 \<Rightarrow> u64" where
  "eventfd_write n c = (if unat c + unat n < 2 ^ 64 - 1 then c + n else c)"

definition eventfd_readable :: "u64 \<Rightarrow> bool" where
  "eventfd_readable c \<longleftrightarrow> c \<noteq> 0"

definition on_signal :: "int \<Rightarrow> u64 \<Rightarrow> u64" where
  "on_signal g_stop_fd c = (if g_stop_fd < 0 then c else eventfd_write 1 c)"

lemma on_signal_readable:
  assumes "fd \<ge> 0"
  shows "eventfd_readable (on_signal fd c)"
proof (cases "c = 0")
  case True
  with assms show ?thesis by (simp add: on_signal_def eventfd_write_def eventfd_readable_def)
next
  case False
  have "c + 1 \<noteq> 0" if "unat c + 1 < 2 ^ 64 - 1"
  proof -
    have "unat (c + 1) = unat c + 1" using that by (simp add: unat_word_ariths)
    then show ?thesis by (metis add_is_0 unat_0 zero_neq_one)
  qed
  with False assms show ?thesis
    by (simp add: on_signal_def eventfd_write_def eventfd_readable_def)
qed

section \<open>What poll sees of it\<close>

text \<open>
  A turn agrees with the counter if poll, unless it was interrupted, reports the stop
  descriptor exactly while the counter is positive. \<open>observes c t\<close> is the turn \<open>t\<close> with poll
  reporting the descriptor as the counter \<open>c\<close> has it.
\<close>

definition polls :: "u64 \<Rightarrow> turn \<Rightarrow> bool" where
  "polls c t \<longleftrightarrow> t_poll t < 0 \<or>
     (if eventfd_readable c then t_poll t > 0 \<and> t_stop_revents t \<noteq> 0 else t_stop_revents t = 0)"

definition observes :: "u64 \<Rightarrow> turn \<Rightarrow> turn" where
  "observes c t =
     (if t_poll t < 0 then t
      else if eventfd_readable c
      then t\<lparr>t_poll := max 1 (t_poll t), t_stop_revents := POLLIN\<rparr>
      else t\<lparr>t_stop_revents := 0\<rparr>)"

lemma polls_observes: "polls c (observes c t)"
  by (simp add: polls_def observes_def max_def)

lemma observes_messages [simp]: "t_msgs (observes c t) = t_msgs t"
  by (simp add: observes_def)

end
