(* ===== verification/Main_Program.thy ===== *)
theory Main_Program
  imports Worker_Proofs Cli Stop_Descriptor
begin

text \<open>
  \<^verbatim>\<open>src/main.cpp\<close>: reading the configuration, loading the block list, binding every queue
  before any thread starts, running the workers, the counters line and the exit code. A
  worker's run is given as the list of its turns. Signals and their interleaving with the
  turns, and the timing of the counters thread, whose lines are not part of the output here, are
  modelled in \<open>Stop_Signal\<close>; what is modelled here of stopping is the write of the stop
  descriptor by \<^verbatim>\<open>main\<close> itself.
\<close>

section \<open>Counters\<close>

definition tracked_flows :: "'r extractor \<Rightarrow> nat" where
  "tracked_flows x = x_flows x"

definition blocked_flows :: "'r extractor \<Rightarrow> nat" where
  "blocked_flows x = x_blocked x"

definition flows_dropped_at_cap :: "'r extractor \<Rightarrow> u64" where
  "flows_dropped_at_cap x = x_dropped_at_cap x"

text \<open>What a worker passes on of its queue and its extractor.\<close>

definition worker_queue_of :: "'r extractor worker \<Rightarrow> NFQueue" where
  "worker_queue_of w = fst w"

definition worker_queue_num :: "'r extractor worker \<Rightarrow> u16" where
  "worker_queue_num w = queue_num (worker_queue_of w)"

definition worker_tracked_flows :: "'r extractor worker \<Rightarrow> nat" where
  "worker_tracked_flows w = tracked_flows (snd w)"

definition worker_blocked_flows :: "'r extractor worker \<Rightarrow> nat" where
  "worker_blocked_flows w = blocked_flows (snd w)"

definition worker_flows_dropped_at_cap :: "'r extractor worker \<Rightarrow> u64" where
  "worker_flows_dropped_at_cap w = flows_dropped_at_cap (snd w)"

text \<open>One line of counters; the 64-bit ones wrap.\<close>

definition stats_line :: "'r extractor worker list \<Rightarrow> string" where
  "stats_line ws =
     (let flows = sum_list (map worker_tracked_flows ws);
          blocked = sum_list (map worker_blocked_flows ws);
          dropped = sum_list (map worker_flows_dropped_at_cap ws);
          received = sum_list (map (\<lambda>w. packets_received (worker_queue_of w)) ws);
          verdicted = sum_list (map (\<lambda>w. verdicts_issued (worker_queue_of w)) ws);
          outst = sum_list (map (\<lambda>w. outstanding (worker_queue_of w)) ws);
          undec = sum_list (map (\<lambda>w. packets_undecided (worker_queue_of w)) ws)
      in ''rx='' @ to_string (unat received) @ '' verdicts='' @ to_string (unat verdicted) @
         '' outstanding='' @ to_string (unat outst) @ '' flows='' @ to_string flows @
         '' blocked='' @ to_string blocked @ '' dropped_at_cap='' @ to_string (unat dropped) @
         '' undecided='' @ to_string (unat undec))"

section \<open>Startup\<close>

text \<open>
  The surroundings of the process: the files, the answer of \<^verbatim>\<open>eventfd\<close>, the kernel as
  each worker sees it, the reassembler, the turns of each worker, for each
  \<^verbatim>\<open>std::thread\<close> the text of the exception with which its constructor fails, if it does, and
  the answer of \<^verbatim>\<open>pthread_setaffinity_np\<close> for each worker. For a run in which \<^verbatim>\<open>main\<close> itself
  writes the stop descriptor: how many signals were handled before, and the turns the workers
  take after the write, in which poll reports the descriptor as \<open>observes\<close> says.
\<close>

record 'r process_env =
  pe_file :: "string \<Rightarrow> string option"
  pe_open_error :: "string \<Rightarrow> string"
  pe_eventfd :: int
  pe_errno :: int
  pe_kernel :: "nat \<Rightarrow> kernel"
  pe_reassembly :: 'r
  pe_world :: "'r world"
  pe_turns :: "nat \<Rightarrow> turn list"
  pe_spawn :: "nat \<Rightarrow> string option"
  pe_affinity :: "nat \<Rightarrow> int"
  pe_signals :: nat
  pe_late :: "nat \<Rightarrow> turn list"

definition worker_config_of :: "Config \<Rightarrow> nat \<Rightarrow> worker_config" where
  "worker_config_of cfg i = \<lparr>wc_id = int i, wc_queue_num = worker_queue cfg i,
     wc_passthrough = cf_passthrough cfg,
     wc_pin_cpu = (if cf_pin_first_cpu cfg \<ge> 0
                   then cf_pin_first_cpu cfg + int i * cf_pin_stride cfg else -1)\<rparr>"

text \<open>\<^verbatim>\<open>std::system_error::what\<close>.\<close>

definition what_text :: "kernel \<Rightarrow> system_error \<Rightarrow> string" where
  "what_text K e = se_what e @ '': '' @ k_strerror K (se_code e)"

definition make_worker ::
    "'r process_env \<Rightarrow> Config \<Rightarrow> nat \<Rightarrow> (string + 'r extractor worker)" where
  "make_worker env cfg i =
     (case fst (new_Worker (pe_kernel env i) (pe_reassembly env) (worker_config_of cfg i)
                 (pe_eventfd env) (cf_queue_maxlen cfg) (recv_buf_per_worker cfg)
                 kDefaultMaxFlows (cf_max_blocked_flows cfg)) of
        Inl e \<Rightarrow> Inl (what_text (pe_kernel env i) e)
      | Inr w \<Rightarrow> Inr w)"

text \<open>
  The loop that builds the workers; the first failure ends it, with the workers built so far.
\<close>

fun make_workers ::
    "'r process_env \<Rightarrow> Config \<Rightarrow> nat list \<Rightarrow> 'r extractor worker list \<Rightarrow>
     (string \<times> 'r extractor worker list + 'r extractor worker list)" where
  "make_workers env cfg [] ws = Inr ws"
| "make_workers env cfg (i # is) ws =
     (case make_worker env cfg i of
        Inl e \<Rightarrow> Inl (e, ws)
      | Inr w \<Rightarrow> make_workers env cfg is (ws @ [w]))"

section \<open>Running the workers\<close>

text \<open>
  A worker's thread: it has a state of its own and whether it has left its loop. One step
  of the system is one turn of one worker.
\<close>

type_synonym 'x thread = "bool \<times> 'x worker"

definition thread_step ::
    "(nat \<Rightarrow> kernel) \<Rightarrow> 'x HostnameExtractor \<Rightarrow> bool \<Rightarrow> nat \<Rightarrow> turn \<Rightarrow> 'x thread \<Rightarrow> 'x thread option" where
  "thread_step K E passthrough i t th =
     (if fst th then Some th else worker_turn (K i) E passthrough t (snd th))"

text \<open>Joining: each worker in turn has run until it left its loop.\<close>

fun join_all ::
    "(nat \<Rightarrow> kernel) \<Rightarrow> 'x HostnameExtractor \<Rightarrow> bool \<Rightarrow> (nat \<Rightarrow> turn list) \<Rightarrow> nat \<Rightarrow> 'x worker list \<Rightarrow>
     'x worker list option" where
  "join_all K E passthrough turns i [] = Some []"
| "join_all K E passthrough turns i (w # ws) = do {
     (left, w') \<leftarrow> worker_loop (K i) E passthrough (turns i) w;
     if left then map_option (Cons w') (join_all K E passthrough turns (Suc i) ws) else None
   }"

section \<open>The report at the end\<close>

definition newline :: string where
  "newline = [CHR 0x0A]"

definition worker_report :: "(nat \<Rightarrow> kernel) \<Rightarrow> nat \<Rightarrow> 'r extractor worker \<Rightarrow> out_line list" where
  "worker_report K i w =
     (if packets_undecided (worker_queue_of w) \<noteq> 0
      then [Stderr (''warning: worker '' @ to_string i @ '' had '' @
              to_string (unat (packets_undecided (worker_queue_of w))) @
              '' packet(s) reach the end of the callback undecided; they were allowed'' @ newline)]
      else []) @
     (if failed (worker_queue_of w)
      then [Stderr (''fatal: worker '' @ to_string i @ '' (queue '' @
              to_string (unat (worker_queue_num w)) @ ''): '' @ error_text (K i) (worker_queue_of w) @ newline)]
      else [])"

definition exit_code :: "'r extractor worker list \<Rightarrow> int" where
  "exit_code ws = (if list_ex (\<lambda>w. failed (fst w)) ws then 1 else 0)"

definition banner :: "Config \<Rightarrow> string" where
  "banner cfg =
     ''PacketInspector: '' @ to_string (worker_count cfg) @ '' worker(s) on queues '' @
     to_string (unat (cf_queue_num cfg)) @ ''..'' @ to_string (unat (last_queue_num cfg)) @
     '', maxlen '' @ to_string (unat (cf_queue_maxlen cfg)) @ ''/queue, rcvbuf '' @
     to_string (nat (recv_buf_per_worker cfg div (1024 * 1024))) @ '' MiB/queue, blocklist '' @
     [quote] @ cf_blocklist_path cfg @ [quote] @ newline @
     ''iptables must route to this exact range, e.g.'' @ newline @
     ''  -j NFQUEUE --queue-balance '' @ to_string (unat (cf_queue_num cfg)) @ '':'' @
     to_string (unat (last_queue_num cfg)) @ '' --queue-bypass'' @ newline"

text \<open>What is printed once every worker has been joined.\<close>

definition final_report :: "(nat \<Rightarrow> kernel) \<Rightarrow> Config \<Rightarrow> 'r extractor worker list \<Rightarrow> out_line list" where
  "final_report K cfg ws =
     (if cf_verbose cfg then [Stdout (newline @ ''shutting down...'' @ newline)] else []) @
     [Stderr (''final: '' @ stats_line ws @ newline)] @
     concat (map (\<lambda>(i, w). worker_report K i w) (enumerate 0 ws))"

text \<open>
  The threads in the order they are started, the workers' and then the counters', up to the
  first that cannot be.
\<close>

definition threads :: "Config \<Rightarrow> nat \<Rightarrow> nat list" where
  "threads cfg n = [0..<n] @ (if cf_stats_interval_s cfg > 0 then [n] else [])"

fun start_threads :: "'r process_env \<Rightarrow> nat list \<Rightarrow> (nat \<times> string) option" where
  "start_threads env [] = None"
| "start_threads env (i # is) =
     (case pe_spawn env i of
        Some what \<Rightarrow> Some (i, what)
      | None \<Rightarrow> start_threads env is)"

text \<open>
  What \<^verbatim>\<open>Worker::start\<close> prints on \<^verbatim>\<open>main\<close>'s thread for the first \<open>n\<close> workers: a warning for
  each that could not be pinned.
\<close>

definition pinning_output :: "'r process_env \<Rightarrow> Config \<Rightarrow> nat \<Rightarrow> out_line list" where
  "pinning_output env cfg n =
     concat (map (\<lambda>i. case pin_warning (\<lambda>k. to_string (nat k)) (k_strerror (pe_kernel env i))
                            (worker_config_of cfg i) (pe_affinity env i) of
                        Some line \<Rightarrow> [Stderr line] | None \<Rightarrow> []) [0..<n])"

text \<open>
  The counter of the stop descriptor once \<^verbatim>\<open>main\<close> has called \<^verbatim>\<open>on_signal\<close> itself, after the
  signals handled before; and a worker's turns when it is stopped this way.
\<close>

definition stop_counter :: "'r process_env \<Rightarrow> u64" where
  "stop_counter env = on_signal (pe_eventfd env) ((on_signal (pe_eventfd env) ^^ pe_signals env) 0)"

definition stopped_turns :: "'r process_env \<Rightarrow> nat \<Rightarrow> turn list" where
  "stopped_turns env i = pe_turns env i @ map (observes (stop_counter env)) (pe_late env i)"

text \<open>
  From the bound workers to the exit: the exit code, the output and the workers as they are
  destroyed. When a thread cannot be started the exception ends the \<^verbatim>\<open>try\<close> block: its text is
  printed, the stop descriptor is written, and destroying the workers joins those that run.
  Otherwise the workers have been joined when the descriptor is written.
\<close>

definition run_and_report ::
    "'r process_env \<Rightarrow> Config \<Rightarrow> BlockList \<Rightarrow> 'r extractor worker list \<Rightarrow>
     (int \<times> out_line list \<times> 'r extractor worker list) option" where
  "run_and_report env cfg blocklist ws =
     (let E = TcpTlsHostnameExtractor (inspecting (pe_world env) blocklist);
          K = pe_kernel env
      in
      case start_threads env (threads cfg (length ws)) of
        Some (i, what) \<Rightarrow> do {
          ws' \<leftarrow> join_all K E (cf_passthrough cfg) (stopped_turns env) 0 (take i ws);
          Some (1, pinning_output env cfg i @ [Stderr (''fatal: '' @ what @ newline)], ws' @ drop i ws)
        }
      | None \<Rightarrow> do {
          ws' \<leftarrow> join_all K E (cf_passthrough cfg) (pe_turns env) 0 ws;
          Some (exit_code ws', pinning_output env cfg (length ws) @ final_report K cfg ws', ws')
        })"

text \<open>
  \<^verbatim>\<open>main\<close>: the exit code, the output of its thread and the workers as they are destroyed. \<open>None\<close> stands for
  a run in which some worker is still in its loop.
\<close>

definition main ::
    "'r process_env \<Rightarrow> string list \<Rightarrow> (int \<times> out_line list \<times> 'r extractor worker list) option" where
  "main env argv =
     (let (parsed, outs) = parse argv;
          cfg = pr_config parsed
      in
      if pr_should_exit parsed then Some (pr_exit_code parsed, outs, [])
      else (case load_blocklist (pe_file env (cf_blocklist_path cfg)) of
        None \<Rightarrow>
          Some (1, [Stderr (''fatal: cannot load blocklist '' @ [quote] @ cf_blocklist_path cfg @
                  [quote] @ '': '' @ pe_open_error env (cf_blocklist_path cfg) @ newline)], [])
      | Some blocklist \<Rightarrow>
          if pe_eventfd env < 0
          then Some (1, [Stderr (''fatal: eventfd: '' @
                  k_strerror (pe_kernel env 0) (pe_errno env) @ newline)], [])
          else (case make_workers env cfg [0..<worker_count cfg] [] of
            Inl (what, ws) \<Rightarrow> Some (1, [Stdout (banner cfg), Stderr (''fatal: '' @ what @ newline)], ws)
          | Inr ws \<Rightarrow>
              map_option (\<lambda>(rc, report, ws'). (rc, Stdout (banner cfg) # report, ws'))
                (run_and_report env cfg blocklist ws))))"

end
