(* ===== verification/Inspector.thy ===== *)
theory Inspector
  imports Main_Program
begin

text \<open>
  The system as a whole: the states a worker can be in as a step relation over its turns,
  what holds in all of them, why a packet is dropped, what the counters mean, and the program
  from its start to its exit code.
\<close>

section \<open>The states of a worker\<close>

text \<open>
  \<open>runs K E p w0 ms left w\<close>: from \<open>w0\<close> the worker has come to \<open>w\<close> after receiving
  the messages \<open>ms\<close>, and \<open>left\<close> says whether it has left its loop.
\<close>

inductive runs ::
    "kernel \<Rightarrow> 'x HostnameExtractor \<Rightarrow> bool \<Rightarrow> 'x worker \<Rightarrow> nfq_data list \<Rightarrow> bool \<Rightarrow> 'x worker \<Rightarrow> bool"
  for K E p w0 where
  begin_run: "runs K E p w0 [] False w0"
| turn_run: "runs K E p w0 ms False w \<Longrightarrow> turn_ok t \<Longrightarrow> worker_turn K E p t w = Some (left, w') \<Longrightarrow>
    runs K E p w0 (ms @ turn_messages (nq_stop_fd (fst w)) t) left w'"

inductive_cases runs_leftE: "runs K E p w0 ms True w"

context hostname_extractor
begin

lemma runs_step_ok:
  assumes "runs K E p w0 ms left w" "solvent w0"
  shows "step_ok ms w0 w \<and> (left \<longrightarrow> owed (snd w) = {#})"
  using assms
proof (induction rule: runs.induct)
  case begin_run
  then show ?case by (simp add: step_ok_refl)
next
  case (turn_run ms w t left w')
  then have w: "step_ok ms w0 w" "solvent w" by (simp_all add: step_ok_def)
  from worker_turn_ok [OF w(2) turn_run.hyps(2), of K p] turn_run.hyps(3)
  have "step_ok (turn_messages (nq_stop_fd (fst w)) t) w w'" "left \<longrightarrow> owed (snd w') = {#}"
    by simp_all
  with step_ok_trans [OF w(1)] show ?case by blast
qed

text \<open>No state is stuck: a worker in its loop can take any turn.\<close>

lemma runs_progress:
  assumes "runs K E p w0 ms False w" "solvent w0" "turn_ok t"
  shows "\<exists>left w'. runs K E p w0 (ms @ turn_messages (nq_stop_fd (fst w)) t) left w'"
proof -
  have "solvent w" using runs_step_ok [OF assms(1,2)] by (simp add: step_ok_def)
  from worker_turn_ok [OF this assms(3), of K p] obtain left w' where
    "worker_turn K E p t w = Some (left, w')" by (auto simp: ensures_iff)
  with assms(1,3) show ?thesis by (blast intro: turn_run)
qed

end

lemma runs_loop:
  assumes "runs K E p w0 ms False w" "worker_loop K E p ts w = Some (left, w')"
    "\<forall>t \<in> set ts. turn_ok t"
  shows "\<exists>ns. runs K E p w0 (ms @ ns) left w'"
  using assms
proof (induction ts arbitrary: ms w)
  case Nil
  then show ?case by (auto intro: exI [of _ "[]"])
next
  case (Cons t ts)
  from Cons.prems(2) obtain l u where t: "worker_turn K E p t w = Some (l, u)"
    "if l then left \<and> w' = u else worker_loop K E p ts u = Some (left, w')"
    by (auto split: Option.bind_splits if_splits)
  let ?ns = "turn_messages (nq_stop_fd (fst w)) t"
  have r: "runs K E p w0 (ms @ ?ns) l u"
    using Cons.prems t(1) by (intro turn_run) auto
  show ?case
  proof (cases l)
    case True
    with r t(2) show ?thesis by auto
  next
    case False
    with Cons.IH [of "ms @ ?ns" u] r t(2) Cons.prems(3) show ?thesis by auto
  qed
qed

section \<open>Why a packet is dropped\<close>

definition dropped_any :: "NFQueue \<Rightarrow> bool" where
  "dropped_any q \<longleftrightarrow> NF_DROP \<in> snd ` set (nq_log q)"

definition honest :: "'r world \<Rightarrow> 'r extractor worker \<Rightarrow> bool" where
  "honest W w \<longleftrightarrow> audited W (dropped_any (fst w)) (snd w)"

lemma dropped_submit: "dropped_any (snd (submit K p v q)) \<Longrightarrow> dropped_any q \<or> v = BLOCK"
  by (auto simp: dropped_any_def submit_def Let_def nf_of_def split: if_splits)

lemma dropped_submit_all:
  "dropped_any (foldl (\<lambda>q d. snd (submit K (dc_pkt d) (dc_verdict d) q)) q ds) \<Longrightarrow>
   dropped_any q \<or> (\<exists>d \<in> set ds. dc_verdict d = BLOCK)"
  by (induction ds arbitrary: q) (auto dest: dropped_submit)

lemma honest_drain:
  assumes "honest W w"
  shows "honest W (drain_decided K (TcpTlsHostnameExtractor W) w)"
proof -
  obtain q x where w: "w = (q, x)" by (cases w)
  with assms dropped_submit_all [of K q "x_decided x"] show ?thesis
    by (auto simp: honest_def audited_def drain_decided_def Let_def)
qed

lemma honest_same_log:
  "honest W (q, x) \<Longrightarrow> dropped_any q' = dropped_any q \<Longrightarrow> honest W (q', x)"
  by (simp add: honest_def)

lemma honest_callback:
  assumes "honest W (q, x)"
  shows "preserves (\<lambda>(pkt, w). honest W w)
    (worker_callback K (TcpTlsHostnameExtractor W) p now pkt (q, x))"
proof (cases p)
  case True
  have "dropped_any (snd (submit K pkt ALLOW q)) = dropped_any q"
    by (auto simp: dropped_any_def submit_def Let_def nf_of_def)
  with True assms show ?thesis
    by (simp add: worker_callback_def Let_def honest_same_log split: prod.split)
       (metis honest_same_log snd_conv)
next
  case False
  have "preserves (audited W (dropped_any q)) (feed W now a x)" for a
    using assms by (intro blame.P_feed) (simp add: honest_def)
  with False show ?thesis
    by (auto simp: worker_callback_def Let_def preserves_bind honest_def split: prod.split elim!: preserves_mono)
qed

lemma honest_handle:
  assumes "honest W w"
  shows "preserves (honest W) (handle K (worker_callback K (TcpTlsHostnameExtractor W) p now) m w)"
proof -
  obtain q x where w: "w = (q, x)" by (cases w)
  let ?q = "q\<lparr>nq_received := nq_received q + 1\<rparr>"
  have q: "honest W (?q, x)"
    using assms w by (auto intro: honest_same_log simp: dropped_any_def)
  have "honest W (snd (submit K pkt ALLOW (q'\<lparr>nq_undecided := nq_undecided q' + 1\<rparr>)), x')"
    if "honest W (q', x')" for pkt q' x'
    using that by (rule honest_same_log) (auto simp: dropped_any_def submit_def Let_def nf_of_def)
  with w show ?thesis
    by (auto simp: handle_def preserves_bind
        intro!: preserves_mono [OF honest_callback [OF q]])
qed

lemma honest_run_once:
  assumes "honest W w"
  shows "preserves (\<lambda>(ev, w'). honest W w')
    (run_once K (worker_callback K (TcpTlsHostnameExtractor W) p) t w)"
proof -
  obtain q x where w: "w = (q, x)" by (cases w)
  show ?thesis
  proof (cases "turn_event (nq_stop_fd q) t = Packets")
    case True
    have "preserves (honest W) (mfold (\<lambda>(now, nfa).
        handle K (worker_callback K (TcpTlsHostnameExtractor W) p now) nfa) (t_msgs t) w)"
      using assms by (intro preserves_mfold) (auto intro: honest_handle)
    with True w show ?thesis by (simp add: run_once_packets preserves_map)
  next
    case False
    from run_once_quiet [OF this, of K "worker_callback K (TcpTlsHostnameExtractor W) p" x] w assms
    show ?thesis by (auto simp: honest_def dropped_any_def)
  qed
qed

lemma audited_drain:
  "audited W (dropped_any q) x \<Longrightarrow> honest W (drain_decided K (TcpTlsHostnameExtractor W) (q, x))"
  by (rule honest_drain) (simp add: honest_def)

lemma honest_turn:
  assumes "honest W w"
  shows "preserves (\<lambda>(left, w'). honest W w') (worker_turn K (TcpTlsHostnameExtractor W) p t w)"
proof -
  have flush: "preserves (honest W) (shutdown K (TcpTlsHostnameExtractor W) (q, x))"
    if "honest W (q, x)" for q x
  proof -
    have "audited W (dropped_any q) x" using that by (simp add: honest_def)
    from preserves_mono [OF blame.P_flush [OF this] audited_drain] show ?thesis
      by (simp add: shutdown_def preserves_bind)
  qed
  have tick: "preserves (\<lambda>x'. honest W (drain_decided K (TcpTlsHostnameExtractor W) (q, x')))
      (tick W now x)" if "honest W (q, x)" for q x now
  proof -
    have "audited W (dropped_any q) x" using that by (simp add: honest_def)
    from preserves_mono [OF blame.P_tick [OF this] audited_drain] show ?thesis .
  qed
  show ?thesis
    unfolding worker_turn_def preserves_bind
    by (rule preserves_mono [OF honest_run_once [OF assms]])
      (auto simp: preserves_map preserves_bind intro: flush tick)
qed

lemma honest_runs:
  assumes "runs K (TcpTlsHostnameExtractor W) p w0 ms left w" "honest W w0"
  shows "honest W w"
  using assms
proof (induction rule: runs.induct)
  case (turn_run ms w t left w')
  with honest_turn [of W w K p t] show ?case by simp
qed

section \<open>What the queue keeps\<close>

text \<open>
  A property of the queue that submitting a verdict, counting and recording an error keep
  holds after every turn, whatever the extractor does.
\<close>

locale queue_invariant =
  fixes K :: kernel
    and P :: "NFQueue \<Rightarrow> bool"
  assumes P_submit: "P q \<Longrightarrow> P (snd (submit K p v q))"
    and P_received: "P q \<Longrightarrow> P (q\<lparr>nq_received := n\<rparr>)"
    and P_undecided: "P q \<Longrightarrow> P (q\<lparr>nq_undecided := n\<rparr>)"
    and P_error: "P q \<Longrightarrow> P (record_error what e q)"
begin

lemma P_submit_all:
  "P q \<Longrightarrow> P (foldl (\<lambda>q d. snd (submit K (dc_pkt d) (dc_verdict d) q)) q ds)"
  by (induction ds arbitrary: q) (simp_all add: P_submit)

lemma P_drain: "P (fst w) \<Longrightarrow> P (fst (drain_decided K E w))"
  by (cases w) (simp add: drain_decided_def Let_def P_submit_all)

lemma P_callback:
  "P q \<Longrightarrow> preserves (\<lambda>(pkt, w). P (fst w)) (worker_callback K E p now pkt (q, x))"
  using P_submit [of q pkt ALLOW]
  by (cases p; cases "submit K pkt ALLOW q"; cases "move_packet pkt")
    (simp_all add: worker_callback_def preserves_bind preserves_triv)

lemma P_handle:
  assumes "P (fst w)"
  shows "preserves (\<lambda>w. P (fst w)) (handle K (worker_callback K E p now) m w)"
proof -
  obtain q x where w: "w = (q, x)" by (cases w)
  have q: "P (q\<lparr>nq_received := nq_received q + 1\<rparr>)" using assms w by (simp add: P_received)
  show ?thesis
    using w by (auto simp: handle_def preserves_bind intro!: P_submit P_undecided
        preserves_mono [OF P_callback [OF q]])
qed

lemma P_run_once:
  assumes "P (fst w)"
  shows "preserves (\<lambda>(ev, w'). P (fst w')) (run_once K (worker_callback K E p) t w)"
proof -
  obtain q x where w: "w = (q, x)" by (cases w)
  have "preserves (\<lambda>w. P (fst w)) (mfold (\<lambda>(now, nfa).
      handle K (worker_callback K E p now) nfa) (t_msgs t) w)"
    using assms by (intro preserves_mfold) (auto intro: P_handle)
  with w assms show ?thesis
    by (cases "turn_event (nq_stop_fd q) t = Packets")
      (auto simp: run_once_packets preserves_map,
       auto simp: run_once_def Let_def preserves_bind turn_event_def intro: P_error split: if_splits)
qed

lemma P_turn:
  assumes "P (fst w)"
  shows "preserves (\<lambda>(left, w'). P (fst w')) (worker_turn K E p t w)"
proof -
  have drain: "P (fst (drain_decided K E (q, x)))" if "P q" for q x
    using P_drain [of "(q, x)" E] that by simp
  have "preserves (\<lambda>w'. P (fst w')) (shutdown K E (q, x))" if "P q" for q x
    using drain [OF that] by (simp add: shutdown_def preserves_bind preserves_triv)
  then show ?thesis
    unfolding worker_turn_def preserves_bind
    by (intro preserves_mono [OF P_run_once [OF assms]])
      (auto simp: preserves_map preserves_bind drain preserves_triv)
qed

lemma P_runs: "runs K E p w0 ms left w \<Longrightarrow> P (fst w0) \<Longrightarrow> P (fst w)"
proof (induction rule: runs.induct)
  case (turn_run ms w t left w')
  with P_turn [of w E p t] show ?case by simp
qed

end

text \<open>A kernel that takes every verdict; then the counter counts the verdicts.\<close>

definition accepting :: "kernel \<Rightarrow> bool" where
  "accepting K \<longleftrightarrow> (\<forall>l i v. k_set_verdict K l i v \<ge> 0)"

definition counted :: "NFQueue \<Rightarrow> bool" where
  "counted q \<longleftrightarrow> nq_verdicted q = of_nat (length (nq_log q))"

interpretation counting: queue_invariant K "\<lambda>q. accepting K \<longrightarrow> counted q" for K
  by unfold_locales (auto simp: counted_def submit_def Let_def accepting_def record_error_def)

text \<open>Verdicts are never taken back.\<close>

interpretation logging: queue_invariant K "\<lambda>q. prefix l (nq_log q)" for K l
  by unfold_locales (auto simp: submit_def Let_def record_error_def)

context hostname_extractor
begin

lemma outstanding_is_owed:
  assumes "runs K E p w0 ms left w" "solvent w0" "accepting K"
    "nq_log (fst w0) = []" "nq_received (fst w0) = 0" "nq_verdicted (fst w0) = 0" "owed (snd w0) = {#}"
  shows "outstanding (fst w) = of_nat (size (owed (snd w)))"
proof -
  have "step_ok ms w0 w" using runs_step_ok [OF assms(1,2)] by simp
  then have rx: "nq_received (fst w) = of_nat (length ms)"
    and acc: "account w = mset (map (\<lambda>m. (message_id m, True)) ms)"
    using assms(4,5,7) by (simp_all add: step_ok_def account_def)
  from acc have "size (account w) = length ms" by simp
  then have "length ms = length (nq_log (fst w)) + size (owed (snd w))"
    by (simp add: account_def)
  moreover have "counted (fst w)"
    using counting.P_runs [OF assms(1)] assms(3,4,6) by (simp add: counted_def)
  ultimately show ?thesis
    using rx by (simp add: outstanding_def counted_def)
qed

end

section \<open>Threads\<close>

text \<open>A thread's turns are its loop.\<close>

lemma thread_loop:
  "mfold (thread_step K E p i) ts (False, w) = worker_loop (K i) E p ts w"
proof (induction ts arbitrary: w)
  case (Cons t ts)
  have stop: "mfold (thread_step K E p i) ts (True, v) = Some (True, v)" for v
    by (induction ts) (simp_all add: thread_step_def)
  have run: "thread_step K E p i t (False, w) = worker_turn (K i) E p t w"
    by (simp add: thread_step_def)
  show ?case
  proof (cases "worker_turn (K i) E p t w")
    case (Some r)
    obtain left v where "r = (left, v)" by (cases r)
    with Some Cons.IH [of v] stop [of v] show ?thesis by (cases left) (simp_all add: run)
  qed (simp add: run)
qed simp

section \<open>A worker as it is built\<close>

lemma new_Worker_fresh:
  assumes "new_Worker K r cfg fd ml rb mf mb = (Inr w, calls)"
  shows "snd w = new_extractor r mf mb" "nq_log (fst w) = []" "nq_received (fst w) = 0"
    "nq_verdicted (fst w) = 0" "nq_undecided (fst w) = 0" "nq_stop_fd (fst w) = fd"
    "\<not> failed (fst w)" "nq_queue_num (fst w) = wc_queue_num cfg"
  using assms
  by (auto simp: new_Worker_def new_NFQueue_def bail_def fresh_queue_def failed_def Let_def
      split: if_splits sum.splits prod.splits)

lemma world_ok_inspecting [simp]: "world_ok (inspecting W bl) = world_ok W"
  by (simp add: world_ok_def inspecting_def)

lemma fail_open_inspecting [simp]: "fail_open (inspecting W bl)"
  by (simp add: fail_open_def inspecting_def policy_def)

lemma w_decide_inspecting:
  "w_decide (inspecting W bl) h = BLOCK \<longleftrightarrow> (\<exists>name. h = Some name \<and> isHostnameBlocked bl name)"
  by (simp add: inspecting_def policy_def split: option.split)

lemma policy_of_file:
  assumes "load_blocklist (Some content) = Some bl"
  shows "w_decide (inspecting W bl) (Some h) =
    (if \<exists>raw \<in> set (getlines content). line_blocks raw h then BLOCK else ALLOW)"
  using bl.blocked_lines [of "getlines content"] assms
  by (auto simp: inspecting_def policy_def load_blocklist_def)

lemma fresh_solvent:
  assumes "new_Worker K r cfg fd ml rb mf mb = (Inr w, calls)" "world_ok W"
  shows "tcp.solvent W w" "tcp.account w = {#}"
  unfolding tcp.solvent_def tcp.account_def
  using new_Worker_fresh [OF assms(1)] assms(2)
  by (simp_all add: new_extractor_ready new_extractor_debt)

lemma fresh_honest:
  "new_Worker K r cfg fd ml rb mf mb = (Inr w, calls) \<Longrightarrow> honest W w"
  using new_Worker_fresh(1,2) [of K r cfg fd ml rb mf mb w calls]
  by (simp add: honest_def dropped_any_def new_extractor_audited)

section \<open>The program\<close>

lemma make_workers_all:
  "make_workers env cfg is ws0 = Inr ws \<Longrightarrow>
   \<exists>new. ws = ws0 @ new \<and> length new = length is \<and>
     (\<forall>j < length is. make_worker env cfg (is ! j) = Inr (new ! j))"
proof (induction "is" arbitrary: ws0)
  case (Cons i "is")
  then obtain w where w: "make_worker env cfg i = Inr w" "make_workers env cfg is (ws0 @ [w]) = Inr ws"
    by (auto split: sum.splits)
  from Cons.IH [OF w(2)] obtain new where
    new: "ws = ws0 @ [w] @ new" "length new = length is"
      "\<forall>j < length is. make_worker env cfg (is ! j) = Inr (new ! j)" by auto
  with w(1) show ?case
    by (intro exI [of _ "w # new"]) (auto simp: nth_Cons split: nat.split)
qed simp

text \<open>The loop ends at the first worker that cannot be built, with those before it.\<close>

lemma make_workers_stop:
  assumes "make_workers env cfg is ws0 = Inl (what, ws)"
  shows "\<exists>j new. j < length is \<and> make_worker env cfg (is ! j) = Inl what \<and> ws = ws0 @ new \<and>
    length new = j \<and> (\<forall>i < j. make_worker env cfg (is ! i) = Inr (new ! i))"
  using assms
proof (induction "is" arbitrary: ws0)
  case (Cons i "is")
  show ?case
  proof (cases "make_worker env cfg i")
    case (Inl e)
    with Cons.prems show ?thesis by (intro exI [of _ 0] exI [of _ "[]"]) simp
  next
    case (Inr w)
    with Cons.prems have "make_workers env cfg is (ws0 @ [w]) = Inl (what, ws)" by simp
    from Cons.IH [OF this] obtain j new where
      "j < length is" "make_worker env cfg (is ! j) = Inl what" "ws = ws0 @ [w] @ new" "length new = j"
      "\<forall>i < j. make_worker env cfg (is ! i) = Inr (new ! i)" by auto
    with Inr show ?thesis
      by (intro exI [of _ "Suc j"] exI [of _ "w # new"]) (auto simp: nth_Cons split: nat.split)
  qed
qed simp

lemma make_workers_failure:
  "(\<exists>e. make_workers env cfg is ws0 = Inl e) \<longleftrightarrow> (\<exists>i \<in> set is. \<exists>e. make_worker env cfg i = Inl e)"
  by (induction "is" arbitrary: ws0) (auto split: sum.splits)

lemma make_worker_failure:
  "(\<exists>e. make_worker env cfg i = Inl e) \<longleftrightarrow>
   \<not> (k_open (pe_kernel env i) \<and> k_bind_pf (pe_kernel env i) \<ge> 0 \<and>
      k_create_queue (pe_kernel env i) \<and> k_set_mode (pe_kernel env i) \<ge> 0)"
  by (auto simp: make_worker_def new_Worker_def new_NFQueue_def bail_def Let_def)

lemma make_worker_reason:
  assumes "make_worker env cfg i = Inl what"
  shows "\<exists>pre c. fails_at (setup_steps (pe_kernel env i) (worker_queue cfg i)) pre c \<and>
    what = call_name c @ '': '' @ k_strerror (pe_kernel env i) (k_errno (pe_kernel env i) c)"
proof -
  from assms obtain e calls where "new_NFQueue (pe_kernel env i) (worker_queue cfg i) (pe_eventfd env)
      (cf_queue_maxlen cfg) (recv_buf_per_worker cfg) = (Inl e, calls)" "what = what_text (pe_kernel env i) e"
    by (auto simp: make_worker_def new_Worker_def worker_config_of_def split: sum.splits prod.splits)
  then show ?thesis using new_NFQueue_error by (fastforce simp: what_text_def)
qed

lemma join_all_loops:
  "join_all K E p turns i ws = Some ws' \<Longrightarrow> length ws' = length ws \<and>
   (\<forall>j < length ws. worker_loop (K (i + j)) E p (turns (i + j)) (ws ! j) = Some (True, ws' ! j))"
proof (induction ws arbitrary: i ws')
  case (Cons w ws)
  then obtain v vs where v: "worker_loop (K i) E p (turns i) w = Some (True, v)"
    "join_all K E p turns (Suc i) ws = Some vs" "ws' = v # vs"
    by (auto split: Option.bind_splits if_splits prod.splits)
  with Cons.IH [OF v(2)] show ?case by (auto simp: nth_Cons split: nat.split)
qed simp

text \<open>What \<^verbatim>\<open>main\<close> does once the command line, the block list and the stop descriptor are fine.\<close>

lemma main_starts:
  assumes "parse argv = (parsed, outs)" "\<not> pr_should_exit parsed"
    "load_blocklist (pe_file env (cf_blocklist_path (pr_config parsed))) = Some bl"
    "pe_eventfd env \<ge> 0"
  shows "main env argv = (let cfg = pr_config parsed in
    case make_workers env cfg [0..<worker_count cfg] [] of
      Inl (what, ws) \<Rightarrow> Some (1, [Stdout (banner cfg), Stderr (''fatal: '' @ what @ newline)], ws)
    | Inr ws \<Rightarrow> map_option (\<lambda>(rc, report, ws'). (rc, Stdout (banner cfg) # report, ws'))
        (run_and_report env cfg bl ws))"
  using assms by (simp add: main_def Let_def)

text \<open>Starting threads fails exactly when one of them cannot be started, at the first such.\<close>

lemma start_threads_None: "start_threads env is = None \<longleftrightarrow> (\<forall>i \<in> set is. pe_spawn env i = None)"
  by (induction "is") (auto split: option.splits)

lemma start_threads_Some:
  "start_threads env is = Some (i, what) \<Longrightarrow> i \<in> set is \<and> pe_spawn env i = Some what"
  by (induction "is") (auto split: option.splits)

lemma start_threads_first:
  "start_threads env is = Some (i, what) \<Longrightarrow> sorted is \<Longrightarrow> k \<in> set is \<Longrightarrow> k < i \<Longrightarrow> pe_spawn env k = None"
  by (induction "is") (auto split: option.splits)

lemma sorted_threads: "sorted (threads cfg n)"
  by (auto simp: threads_def sorted_append)

lemma set_threads: "set (threads cfg n) \<subseteq> {0..n}" "{0..<n} \<subseteq> set (threads cfg n)"
  by (auto simp: threads_def)

text \<open>One worker of a run that ended: it answered for what it received.\<close>

lemma made_worker_answers:
  assumes "make_worker env cfg i = Inr w" "world_ok (pe_world env)"
    "\<forall>t \<in> set ts. turn_ok t"
    "worker_loop (pe_kernel env i) (TcpTlsHostnameExtractor (inspecting (pe_world env) bl)) p ts w =
       Some (True, w')"
  shows "mset (map fst (nq_log (fst w'))) = mset (map message_id (loop_messages (pe_eventfd env) ts))"
proof -
  from assms(1) obtain calls where w: "new_Worker (pe_kernel env i) (pe_reassembly env)
      (worker_config_of cfg i) (pe_eventfd env) (cf_queue_maxlen cfg) (recv_buf_per_worker cfg)
      kDefaultMaxFlows (cf_max_blocked_flows cfg) = (Inr w, calls)"
    by (auto simp: make_worker_def split: sum.splits) (metis prod.collapse)
  have "world_ok (inspecting (pe_world env) bl)" using assms(2) by simp
  from tcp.loop_answers_all [OF fresh_solvent [OF w this] assms(3,4)] new_Worker_fresh(6) [OF w]
  show ?thesis by simp
qed

lemma made_worker_fresh:
  assumes "make_worker env cfg i = Inr w"
  shows "nq_received (fst w) = 0 \<and> nq_log (fst w) = []"
proof -
  from assms obtain calls where "new_Worker (pe_kernel env i) (pe_reassembly env)
      (worker_config_of cfg i) (pe_eventfd env) (cf_queue_maxlen cfg) (recv_buf_per_worker cfg)
      kDefaultMaxFlows (cf_max_blocked_flows cfg) = (Inr w, calls)"
    by (auto simp: make_worker_def split: sum.splits) (metis prod.collapse)
  from new_Worker_fresh(2,3) [OF this] show ?thesis by simp
qed

section \<open>Bounds in every state\<close>

text \<open>The same contract with the caps the extractor was built with.\<close>

interpretation capped: hostname_extractor "TcpTlsHostnameExtractor W"
  "\<lambda>x. world_ok W \<and> ready x \<and> x_max_flows x = F \<and> x_max_blocked x = B" debt for W F B
proof
  fix x :: "'a extractor" and p now
  assume "world_ok W \<and> ready x \<and> x_max_flows x = F \<and> x_max_blocked x = B" "packet_wf p"
  then show "ensures (he_feed (TcpTlsHostnameExtractor W) now p x)
      (\<lambda>x'. (world_ok W \<and> ready x' \<and> x_max_flows x' = F \<and> x_max_blocked x' = B) \<and>
        debt x' = debt x + {#tag p#})"
    using feed_safe [of W x p now] by (auto simp: accounts_def elim!: ensures_mono)
next
  fix x :: "'a extractor" and now
  assume "world_ok W \<and> ready x \<and> x_max_flows x = F \<and> x_max_blocked x = B"
  then show "ensures (he_tick (TcpTlsHostnameExtractor W) now x)
      (\<lambda>x'. (world_ok W \<and> ready x' \<and> x_max_flows x' = F \<and> x_max_blocked x' = B) \<and> debt x' = debt x)"
    using tick_ok [of x W now] by (auto simp: accounts_def elim!: ensures_mono)
next
  fix x :: "'a extractor"
  assume "world_ok W \<and> ready x \<and> x_max_flows x = F \<and> x_max_blocked x = B"
  then show "ensures (he_flush (TcpTlsHostnameExtractor W) x)
      (\<lambda>x'. (world_ok W \<and> ready x' \<and> x_max_flows x' = F \<and> x_max_blocked x' = B) \<and>
      debt x' = debt x \<and> debt (he_clear (TcpTlsHostnameExtractor W) x') = {#})"
    using flush_ok [of W x] by (auto simp: accounts_def debt_def elim!: ensures_mono)
qed (simp add: debt_def ready_def shells_def)

lemma reachable_inv:
  assumes "new_Worker K r cfg fd ml rb mf mb = (Inr w0, calls)" "world_ok W"
    "runs K (TcpTlsHostnameExtractor W) p w0 ms left w"
  shows "ready (snd w) \<and> x_max_flows (snd w) = x_max_flows (new_extractor r mf mb) \<and>
    x_max_blocked (snd w) = x_max_blocked (new_extractor r mf mb)"
proof -
  let ?x = "new_extractor r mf mb"
  have "capped.solvent W (x_max_flows ?x) (x_max_blocked ?x) w0"
    unfolding capped.solvent_def
    using new_Worker_fresh(1) [OF assms(1)] assms(2)
    by (simp add: new_extractor_ready new_extractor_debt)
  from capped.runs_step_ok [OF assms(3) this] show ?thesis
    by (simp add: capped.step_ok_def capped.solvent_def)
qed

lemma ready_bounds:
  assumes "ready s"
  shows "length (x_conns s) \<le> x_max_flows s"
    "find_conn s k = Some c \<Longrightarrow> length (cn_held c) \<le> kMaxPacketsPerConn \<and>
      length (cn_stream c) \<le> kMaxStreamBytes \<and> (\<forall>q \<in> set (cn_held c). \<not> has_bytes q)"
proof -
  show "length (x_conns s) \<le> x_max_flows s"
    using assms by (simp add: ready_def xinv_def table_ok_def)
  assume "find_conn s k = Some c"
  moreover from this assms have "conn_ok c" by (auto simp: ready_def xinv_def table_ok_def)
  ultimately show "length (cn_held c) \<le> kMaxPacketsPerConn \<and>
      length (cn_stream c) \<le> kMaxStreamBytes \<and> (\<forall>q \<in> set (cn_held c). \<not> has_bytes q)"
    using assms by (auto simp: ready_def shells_def conn_ok_def split: State.splits)
qed

text \<open>After a turn the buffer of decided packets is empty, so what is owed is what is held.\<close>

lemma turn_drained:
  "preserves (\<lambda>(left, w'). x_decided (snd w') = []) (worker_turn K (TcpTlsHostnameExtractor W) p t w)"
proof -
  have "x_decided (snd (drain_decided K (TcpTlsHostnameExtractor W) v)) = []" for v
    by (cases v) (simp add: drain_decided_def Let_def)
  note drain = this
  show ?thesis
    unfolding worker_turn_def preserves_bind
    by (rule preserves_triv) (auto simp: drain shutdown_def preserves_bind preserves_map preserves_triv)
qed

lemma runs_drained:
  "runs K (TcpTlsHostnameExtractor W) p w0 ms left w \<Longrightarrow> x_decided (snd w0) = [] \<Longrightarrow>
   x_decided (snd w) = []"
proof (induction rule: runs.induct)
  case (turn_run ms w t left w')
  with turn_drained [of K W p t w] show ?case by simp
qed

lemma size_held_tags: "size (held_tags cs) = sum_list (map (\<lambda>(k, c). length (cn_held c)) cs)"
  by (induction cs) (auto simp: held_tags_def)

section \<open>Passthrough\<close>

lemma passthrough_handle:
  assumes "message_ok m"
  shows "\<exists>q'. handle K (worker_callback K E True now) m (q, x) = Some (q', x) \<and>
    nq_log q' = nq_log q @ [(message_id m, NF_ACCEPT)] \<and> nq_stop_fd q' = nq_stop_fd q"
proof -
  let ?q = "q\<lparr>nq_received := nq_received q + 1\<rparr>"
  have pend: "pk_pending (message_packet m)" using message_packet_ok [OF assms] by simp
  obtain pkt q' where sub: "submit K (message_packet m) ALLOW ?q = (pkt, q')" by fastforce
  with submit_pending [OF pend, of K ALLOW ?q] submit_fields(4) [of K "message_packet m" ALLOW ?q]
  show ?thesis
    by (intro exI [of _ q']) (simp add: handle_def worker_callback_def message_id_def nf_of_def)
qed

lemma passthrough_handle_all:
  "\<forall>(now, m) \<in> set ms. message_ok m \<Longrightarrow>
   \<exists>q'. mfold (\<lambda>(now, m). handle K (worker_callback K E True now) m) ms (q, x) = Some (q', x) \<and>
     nq_log q' = nq_log q @ map (\<lambda>(now, m). (message_id m, NF_ACCEPT)) ms"
proof (induction ms arbitrary: q)
  case (Cons nm ms)
  obtain now m where nm: "nm = (now, m)" by (cases nm)
  with Cons.prems have "message_ok m" by simp
  from passthrough_handle [OF this, of K E now q x] obtain q1 where
    "handle K (worker_callback K E True now) m (q, x) = Some (q1, x)"
    "nq_log q1 = nq_log q @ [(message_id m, NF_ACCEPT)]" by blast
  with Cons.IH [of q1] Cons.prems nm show ?case by auto
qed simp

lemma passthrough_turn:
  assumes "world_ok W" "ready (snd w)" "debt (snd w) = {#}" "turn_ok t"
    "worker_turn K (TcpTlsHostnameExtractor W) True t w = Some (left, w')"
  shows "debt (snd w') = {#} \<and> nq_log (fst w') = nq_log (fst w) @
    map (\<lambda>m. (message_id m, NF_ACCEPT)) (turn_messages (nq_stop_fd (fst w)) t)"
proof -
  let ?E = "TcpTlsHostnameExtractor W"
  obtain q x where w: "w = (q, x)" by (cases w)
  obtain ev q1 where once: "run_once K (worker_callback K ?E True) t (q, x) = Some (ev, q1, x)"
    "nq_log q1 = nq_log q @ map (\<lambda>m. (message_id m, NF_ACCEPT)) (turn_messages (nq_stop_fd q) t)"
  proof (cases "turn_event (nq_stop_fd q) t = Packets")
    case True
    then show ?thesis
      using that passthrough_handle_all [of "t_msgs t" K ?E q x] assms(4)
      by (auto simp: run_once_packets turn_messages_def turn_ok_def case_prod_unfold comp_def)
  next
    case False
    then show ?thesis
      using that run_once_quiet [OF False, of K "worker_callback K ?E True" x]
      by (auto simp: turn_messages_def)
  qed
  have drain: "debt (snd (drain_decided K ?E (q1, y))) = {#} \<and>
      nq_log (fst (drain_decided K ?E (q1, y))) = nq_log q1" if "debt y = {#}" for y
    using that by (simp add: drain_decided_def Let_def debt_def)
  have "ensures (flush W x) (\<lambda>y. debt y = {#})" "ensures (tick W now x) (\<lambda>y. debt y = {#})" for now
    using flush_ok [of W x] tick_ok [of x W now] assms(1-3) w
    by (auto simp: accounts_def elim!: ensures_mono)
  then obtain y z where "flush W x = Some y" "debt y = {#}" "tick W (t_now t) x = Some z" "debt z = {#}"
    by (meson ensures_iff)
  with assms(5) w once drain [of y] drain [of z] show ?thesis
    by (auto simp: worker_turn_def shutdown_def split: if_splits)
qed

lemma passthrough_runs:
  assumes "runs K (TcpTlsHostnameExtractor W) True w0 ms left w" "world_ok W" "ready (snd w0)"
    "debt (snd w0) = {#}"
  shows "ready (snd w) \<and> debt (snd w) = {#} \<and>
    nq_log (fst w) = nq_log (fst w0) @ map (\<lambda>m. (message_id m, NF_ACCEPT)) ms"
  using assms
proof (induction rule: runs.induct)
  case (turn_run ms w t left w')
  then have w: "ready (snd w)" "debt (snd w) = {#}"
    "nq_log (fst w) = nq_log (fst w0) @ map (\<lambda>m. (message_id m, NF_ACCEPT)) ms" by simp_all
  have "tcp.solvent W w" 
    unfolding tcp.solvent_def using w turn_run.prems(1) by simp
  from tcp.worker_turn_ok [OF this turn_run.hyps(2), of K True] turn_run.hyps(3)
  have "ready (snd w')" by (simp add: tcp.step_ok_def tcp.solvent_def)
  with passthrough_turn [OF turn_run.prems(1) w(1,2) turn_run.hyps(2,3)] w(3) show ?case by simp
qed simp

section \<open>Every worker ends\<close>

lemma join_all_ends:
  "(\<And>j. j < length ws \<Longrightarrow> \<exists>v. worker_loop (K (i + j)) E p (turns (i + j)) (ws ! j) = Some (True, v)) \<Longrightarrow>
   \<exists>ws'. join_all K E p turns i ws = Some ws'"
proof (induction ws arbitrary: i)
  case (Cons w ws)
  obtain v where "worker_loop (K i) E p (turns i) w = Some (True, v)"
    using Cons.prems [of 0] by auto
  moreover have "\<exists>ws'. join_all K E p turns (Suc i) ws = Some ws'"
    using Cons.prems [of "Suc _"] by (intro Cons.IH) auto
  ultimately show ?case by auto
qed simp

text \<open>A kernel that lets the queue be bound.\<close>

definition binds :: "kernel \<Rightarrow> bool" where
  "binds K \<longleftrightarrow> k_open K \<and> k_bind_pf K \<ge> 0 \<and> k_create_queue K \<and> k_set_mode K \<ge> 0"

lemma made_worker_binds: "make_worker env cfg i = Inr w \<Longrightarrow> binds (pe_kernel env i)"
  using make_worker_failure [of env cfg i] by (simp add: binds_def)

lemma made_worker_ends:
  assumes "make_worker env cfg i = Inr w" "world_ok (pe_world env)"
    "\<forall>t \<in> set ts. turn_ok t" "\<exists>t \<in> set ts. turn_event (pe_eventfd env) t \<in> {Stop, Error}"
  shows "\<exists>v. worker_loop (pe_kernel env i) (TcpTlsHostnameExtractor (inspecting (pe_world env) bl)) p
       ts w = Some (True, v)"
proof -
  from assms(1) obtain calls where w: "new_Worker (pe_kernel env i) (pe_reassembly env)
      (worker_config_of cfg i) (pe_eventfd env) (cf_queue_maxlen cfg) (recv_buf_per_worker cfg)
      kDefaultMaxFlows (cf_max_blocked_flows cfg) = (Inr w, calls)"
    by (auto simp: make_worker_def split: sum.splits) (metis prod.collapse)
  have "world_ok (inspecting (pe_world env) bl)" using assms(2) by simp
  from tcp.worker_loop_ok [OF fresh_solvent(1) [OF w this] assms(3), of "pe_kernel env i" p]
    new_Worker_fresh(6) [OF w] assms(4)
  show ?thesis by (auto simp: ensures_iff)
qed

lemma workers_made:
  assumes "\<forall>i < worker_count cfg. binds (pe_kernel env i)"
  obtains ws where "make_workers env cfg [0..<worker_count cfg] [] = Inr ws"
    "length ws = worker_count cfg"
    "\<And>j. j < worker_count cfg \<Longrightarrow> make_worker env cfg j = Inr (ws ! j)"
proof -
  have "\<not> (\<exists>i \<in> set [0..<worker_count cfg]. \<exists>e. make_worker env cfg i = Inl e)"
    using assms by (simp add: make_worker_failure binds_def)
  then obtain ws where ws: "make_workers env cfg [0..<worker_count cfg] [] = Inr ws"
    using make_workers_failure [of env cfg "[0..<worker_count cfg]" "[]"]
    by (cases "make_workers env cfg [0..<worker_count cfg] []") auto
  with make_workers_all [OF ws] show thesis by (intro that) auto
qed

text \<open>
  The workers that were started, the first \<open>j\<close>, are joined: each has left its loop and has
  answered each packet it received.
\<close>

definition answered :: "int \<Rightarrow> turn list \<Rightarrow> 'x worker \<Rightarrow> bool" where
  "answered fd ts w \<longleftrightarrow>
     mset (map fst (nq_log (fst w))) = mset (map message_id (loop_messages fd ts))"

lemma started_joined:
  fixes env :: "'r process_env" and bl :: BlockList
  assumes "world_ok (pe_world env)" "\<And>i. i < length ws \<Longrightarrow> make_worker env cfg i = Inr (ws ! i)"
    "\<And>i t. i < length ws \<Longrightarrow> t \<in> set (turns i) \<Longrightarrow> turn_ok t"
    "\<And>i. i < length ws \<Longrightarrow> \<exists>t \<in> set (turns i). turn_event (pe_eventfd env) t \<in> {Stop, Error}"
  obtains ws' where "join_all (pe_kernel env) (TcpTlsHostnameExtractor (inspecting (pe_world env) bl)) p
      turns 0 (take j ws) = Some ws'"
    "length ws' = min j (length ws)" "\<And>i. i < length ws' \<Longrightarrow> answered (pe_eventfd env) (turns i) (ws' ! i)"
proof -
  let ?E = "TcpTlsHostnameExtractor (inspecting (pe_world env) bl)"
  have "\<exists>v. worker_loop (pe_kernel env (0 + i)) ?E p (turns (0 + i)) (take j ws ! i) = Some (True, v)"
    if "i < length (take j ws)" for i
  proof -
    have i: "i < length ws" using that by simp
    have "\<exists>v. worker_loop (pe_kernel env i) ?E p (turns i) (ws ! i) = Some (True, v)"
      using assms(3,4) i by (intro made_worker_ends [OF assms(2) [OF i] assms(1)]) auto
    then show ?thesis using that by simp
  qed
  from join_all_ends [OF this] obtain ws' where
    join: "join_all (pe_kernel env) ?E p turns 0 (take j ws) = Some ws'" by blast
  note run = join_all_loops [OF join]
  have "answered (pe_eventfd env) (turns i) (ws' ! i)" if "i < length ws'" for i
    unfolding answered_def
    by (rule made_worker_answers [OF assms(2) [of i] assms(1)])
      (use that run assms(3) in auto)
  with join run show thesis by (intro that) auto
qed

lemma main_runs:
  fixes env :: "'r process_env"
  assumes "parse argv = (parsed, outs)" "\<not> pr_should_exit parsed"
    "load_blocklist (pe_file env (cf_blocklist_path (pr_config parsed))) = Some bl"
    "pe_eventfd env \<ge> 0" "world_ok (pe_world env)"
    "\<forall>i < worker_count (pr_config parsed). binds (pe_kernel env i) \<and>
       (\<forall>t \<in> set (pe_turns env i). turn_ok t) \<and>
       (\<exists>t \<in> set (pe_turns env i). turn_event (pe_eventfd env) t \<in> {Stop, Error})"
    "\<forall>i \<le> worker_count (pr_config parsed). pe_spawn env i = None"
  shows "\<exists>ws. length ws = worker_count (pr_config parsed) \<and>
    (\<forall>i < length ws. answered (pe_eventfd env) (pe_turns env i) (ws ! i)) \<and>
    main env argv = Some (exit_code ws, Stdout (banner (pr_config parsed)) #
      pinning_output env (pr_config parsed) (length ws) @ final_report (pe_kernel env) (pr_config parsed) ws, ws)"
proof -
  let ?cfg = "pr_config parsed" and ?E = "TcpTlsHostnameExtractor (inspecting (pe_world env) bl)"
  obtain ws where ws: "make_workers env ?cfg [0..<worker_count ?cfg] [] = Inr ws"
    and made: "length ws = worker_count ?cfg"
      "\<And>j. j < worker_count ?cfg \<Longrightarrow> make_worker env ?cfg j = Inr (ws ! j)"
    using workers_made assms(6) by blast
  have "start_threads env (threads ?cfg (length ws)) = None"
    using assms(7) made(1) set_threads(1) [of ?cfg "length ws"] by (auto simp: start_threads_None)
  moreover obtain ws' where "join_all (pe_kernel env) ?E (cf_passthrough ?cfg) (pe_turns env) 0 (take (length ws) ws) = Some ws'"
    "length ws' = min (length ws) (length ws)"
    "\<And>i. i < length ws' \<Longrightarrow> answered (pe_eventfd env) (pe_turns env i) (ws' ! i)"
    by (rule started_joined [OF assms(5), of ws ?cfg "pe_turns env" bl "cf_passthrough ?cfg" "length ws"])
      (use made assms(6) in auto)
  ultimately show ?thesis
    using main_starts [OF assms(1-4)] ws made(1)
    by (intro exI [of _ ws']) (simp add: run_and_report_def Let_def)
qed

section \<open>A thread that cannot be started\<close>

text \<open>Once \<^verbatim>\<open>main\<close> has written the stop descriptor, poll reports it unless it is interrupted.\<close>

lemma stop_counter_readable: "pe_eventfd env \<ge> 0 \<Longrightarrow> eventfd_readable (stop_counter env)"
  by (simp add: stop_counter_def on_signal_readable)

lemma observed_stop:
  assumes "eventfd_readable c" "fd \<ge> 0" "t_poll t \<ge> 0"
  shows "turn_event fd (observes c t) = Stop"
  using assms by (simp add: turn_event_def observes_def)

lemma turn_ok_observes [simp]: "turn_ok (observes c t) = turn_ok t"
  by (simp add: turn_ok_def)

lemma stopped_turns_end:
  assumes "pe_eventfd env \<ge> 0" "\<exists>t \<in> set (pe_late env i). t_poll t \<ge> 0"
  shows "\<exists>t \<in> set (stopped_turns env i). turn_event (pe_eventfd env) t \<in> {Stop, Error}"
  using assms observed_stop [OF stop_counter_readable] by (fastforce simp: stopped_turns_def)

lemma thread_failure_joins:
  fixes env :: "'r process_env"
  assumes "start_threads env (threads cfg (length ws)) = Some (j, what)" "world_ok (pe_world env)"
    "\<And>i. i < length ws \<Longrightarrow> make_worker env cfg i = Inr (ws ! i)" "pe_eventfd env \<ge> 0"
    "\<And>i t. i < length ws \<Longrightarrow> t \<in> set (pe_turns env i) \<union> set (pe_late env i) \<Longrightarrow> turn_ok t"
    "\<And>i. i < length ws \<Longrightarrow> \<exists>t \<in> set (pe_late env i). t_poll t \<ge> 0"
  shows "\<exists>ws'. run_and_report env cfg bl ws =
      Some (1, pinning_output env cfg j @ [Stderr (''fatal: '' @ what @ newline)], ws' @ drop j ws) \<and>
    length ws' = j \<and> j \<le> length ws \<and>
    (\<forall>i < j. answered (pe_eventfd env) (stopped_turns env i) (ws' ! i))"
proof -
  have j: "j \<le> length ws" using start_threads_Some [OF assms(1)] set_threads(1) [of cfg "length ws"] by auto
  have ok: "turn_ok t" if "i < length ws" "t \<in> set (stopped_turns env i)" for i t
    using assms(5) that by (auto simp: stopped_turns_def)
  obtain ws' where "join_all (pe_kernel env) (TcpTlsHostnameExtractor (inspecting (pe_world env) bl))
      (cf_passthrough cfg) (stopped_turns env) 0 (take j ws) = Some ws'" "length ws' = min j (length ws)"
    "\<And>i. i < length ws' \<Longrightarrow> answered (pe_eventfd env) (stopped_turns env i) (ws' ! i)"
    by (rule started_joined [OF assms(2), of ws cfg "stopped_turns env" bl "cf_passthrough cfg" j])
      (use assms(3,6) ok stopped_turns_end [OF assms(4)] in blast)+
  with j assms(1) show ?thesis by (intro exI [of _ ws']) (simp add: run_and_report_def Let_def)
qed

end
