(* ===== verification/Answering.thy ===== *)
theory Answering
  imports Inspector
begin

text \<open>
  What a worker promises the kernel, as an abstract service, and that the worker implements
  it. The service knows the ids it owes an answer for and the answers it has given; it may
  take in an id, answer one it owes, and halt when it owes nothing. Holding packets, flows,
  sweeps and buffers are all absent from it.
\<close>

section \<open>The service\<close>

record service =
  sv_halted :: bool
  sv_owes :: "u32 multiset"
  sv_answers :: "(u32 \<times> nf_verdict) list"

definition idle_service :: service where
  "idle_service = \<lparr>sv_halted = False, sv_owes = {#}, sv_answers = []\<rparr>"

datatype action = Take u32 | Answer u32 nf_verdict | Halt

inductive service_step :: "service \<Rightarrow> action \<Rightarrow> service \<Rightarrow> bool" where
  take_id: "\<not> sv_halted a \<Longrightarrow> service_step a (Take i) (a\<lparr>sv_owes := add_mset i (sv_owes a)\<rparr>)"
| answer_id: "\<not> sv_halted a \<Longrightarrow> i \<in># sv_owes a \<Longrightarrow>
    service_step a (Answer i v)
      (a\<lparr>sv_owes := sv_owes a - {#i#}, sv_answers := sv_answers a @ [(i, v)]\<rparr>)"
| halt: "\<not> sv_halted a \<Longrightarrow> sv_owes a = {#} \<Longrightarrow> service_step a Halt (a\<lparr>sv_halted := True\<rparr>)"

inductive service_run :: "service \<Rightarrow> action list \<Rightarrow> service \<Rightarrow> bool" where
  no_action: "service_run a [] a"
| one_action: "service_step a x b \<Longrightarrow> service_run b xs c \<Longrightarrow> service_run a (x # xs) c"

inductive_simps service_step_Take: "service_step a (Take i) b"
inductive_simps service_step_Answer: "service_step a (Answer i v) b"
inductive_simps service_step_Halt: "service_step a Halt b"
inductive_cases service_run_ConsE: "service_run a (x # xs) c"

lemmas service_steps = service_step_Take service_step_Answer service_step_Halt

lemma service_run_append:
  "service_run a xs b \<Longrightarrow> service_run b ys c \<Longrightarrow> service_run a (xs @ ys) c"
  by (induction rule: service_run.induct) (auto intro: one_action)

lemma service_run_snoc:
  "service_run a xs b \<Longrightarrow> service_step b x c \<Longrightarrow> service_run a (xs @ [x]) c"
  by (rule service_run_append) (auto intro: service_run.intros)

text \<open>Taking in a list of ids, and answering a list of ids that are owed.\<close>

lemma service_takes:
  "\<not> sv_halted a \<Longrightarrow>
   service_run a (map Take is) (a\<lparr>sv_owes := sv_owes a + mset is\<rparr>)"
proof (induction "is" arbitrary: a)
  case (Cons i "is")
  from Cons.prems have "service_step a (Take i) (a\<lparr>sv_owes := add_mset i (sv_owes a)\<rparr>)"
    by (rule take_id)
  with Cons.IH [of "a\<lparr>sv_owes := add_mset i (sv_owes a)\<rparr>"] Cons.prems show ?case
    by (auto intro: one_action)
qed (auto intro: no_action)

lemma service_answers:
  assumes "\<not> sv_halted a" "sv_owes a = mset (map fst ls) + left"
  shows "service_run a (map (\<lambda>(i, v). Answer i v) ls)
    (a\<lparr>sv_owes := left, sv_answers := sv_answers a @ ls\<rparr>)"
  using assms
proof (induction ls arbitrary: a)
  case Nil
  then have "a\<lparr>sv_owes := left, sv_answers := sv_answers a @ []\<rparr> = a" by simp
  then show ?case using no_action [of a] by simp
next
  case (Cons iv ls)
  obtain i v where iv: "iv = (i, v)" by (cases iv)
  let ?b = "a\<lparr>sv_owes := sv_owes a - {#i#}, sv_answers := sv_answers a @ [(i, v)]\<rparr>"
  have step: "service_step a (Answer i v) ?b" using Cons.prems iv by (intro answer_id) simp_all
  from Cons.prems iv Cons.IH [of ?b] have
    "service_run ?b (map (\<lambda>(i, v). Answer i v) ls)
       (?b\<lparr>sv_owes := left, sv_answers := sv_answers ?b @ ls\<rparr>)" by simp
  with step have "service_run a (Answer i v # map (\<lambda>(i, v). Answer i v) ls)
      (?b\<lparr>sv_owes := left, sv_answers := sv_answers ?b @ ls\<rparr>)" by (rule one_action)
  with iv show ?case by simp
qed

section \<open>What the service guarantees\<close>

text \<open>The ids in a list of actions.\<close>

definition taken :: "action list \<Rightarrow> u32 multiset" where
  "taken xs = mset (concat (map (\<lambda>x. case x of Take i \<Rightarrow> [i] | _ \<Rightarrow> []) xs))"

lemma taken_simps [simp]:
  "taken [] = {#}" "taken (xs @ ys) = taken xs + taken ys"
  "taken (Take i # xs) = add_mset i (taken xs)" "taken (Answer i v # xs) = taken xs"
  "taken (Halt # xs) = taken xs"
  by (simp_all add: taken_def)

lemma taken_map [simp]:
  "taken (map Take is) = mset is" "taken (map (\<lambda>(i, v). Answer i v) ls) = {#}"
  by (induction "is", simp_all, induction ls, auto)

lemma service_balance:
  "service_run a xs b \<Longrightarrow>
   mset (map fst (sv_answers b)) + sv_owes b = mset (map fst (sv_answers a)) + sv_owes a + taken xs"
proof (induction rule: service_run.induct)
  case (one_action a x b xs c)
  from one_action.hyps(1) one_action.IH show ?case by cases auto
qed simp

lemma halted_owes_nothing:
  "service_run a xs b \<Longrightarrow> (sv_halted a \<longrightarrow> sv_owes a = {#}) \<Longrightarrow> sv_halted b \<longrightarrow> sv_owes b = {#}"
proof (induction rule: service_run.induct)
  case (one_action a x b xs c)
  from one_action.hyps(1) one_action.prems have "sv_halted b \<longrightarrow> sv_owes b = {#}"
    by cases auto
  with one_action.IH show ?case by blast
qed

section \<open>The worker implements it\<close>

context hostname_extractor
begin

definition serves :: "bool \<Rightarrow> 'x worker \<Rightarrow> service" where
  "serves left w = \<lparr>sv_halted = left, sv_owes = image_mset fst (owed (snd w)),
     sv_answers = nq_log (fst w)\<rparr>"

lemma turn_implements:
  assumes "solvent w" "turn_ok t" "worker_turn K E p t w = Some (left, w')"
  shows "\<exists>xs. service_run (serves False w) xs (serves left w') \<and>
    taken xs = mset (map message_id (turn_messages (nq_stop_fd (fst w)) t))"
proof -
  let ?is = "map message_id (turn_messages (nq_stop_fd (fst w)) t)"
  from worker_turn_ok [OF assms(1,2), of K p] assms(3)
  have ok: "step_ok (turn_messages (nq_stop_fd (fst w)) t) w w'" "left \<longrightarrow> owed (snd w') = {#}"
    by simp_all
  from logging.P_turn [of "nq_log (fst w)" w K E p t] assms(3) obtain ls where
    ls: "nq_log (fst w') = nq_log (fst w) @ ls" by (auto simp: prefix_def)
  have "image_mset fst (account w') = image_mset fst (account w) + mset ?is"
    using ok(1) by (simp add: step_ok_def multiset.map_comp comp_def)
  then have owes: "image_mset fst (owed (snd w)) + mset ?is =
      mset (map fst ls) + image_mset fst (owed (snd w'))"
    by (simp add: account_def ls multiset.map_comp comp_def ac_simps)
  let ?taken = "(serves False w)\<lparr>sv_owes := sv_owes (serves False w) + mset ?is\<rparr>"
  have "service_run (serves False w) (map Take ?is) ?taken"
    by (rule service_takes) (simp add: serves_def)
  moreover have "service_run ?taken (map (\<lambda>(i, v). Answer i v) ls) (serves False w')"
    using service_answers [of ?taken ls "image_mset fst (owed (snd w'))"] owes ls
    by (simp add: serves_def)
  ultimately have run: "service_run (serves False w)
      (map Take ?is @ map (\<lambda>(i, v). Answer i v) ls) (serves False w')"
    by (rule service_run_append)
  let ?xs = "map Take ?is @ map (\<lambda>(i, v). Answer i v) ls"
  have xs: "taken ?xs = mset ?is" "taken (?xs @ [Halt]) = mset ?is"
    by (simp_all only: taken_simps taken_map) simp_all
  show ?thesis
  proof (cases left)
    case True
    then have "service_step (serves False w') Halt (serves left w')"
      using halt [of "serves False w'"] ok(2) by (simp add: serves_def)
    with service_run_snoc [OF run] xs(2) show ?thesis by blast
  next
    case False
    then have "left = False" by simp
    with run xs(1) show ?thesis by blast
  qed
qed

lemma runs_implement:
  assumes "runs K E p w0 ms left w" "solvent w0"
  shows "\<exists>xs. service_run (serves False w0) xs (serves left w) \<and>
    taken xs = mset (map message_id ms)"
  using assms
proof (induction rule: runs.induct)
  case begin_run
  then show ?case by (auto intro!: exI [of _ "[]"] no_action)
next
  case (turn_run ms w t left w')
  then obtain xs where xs: "service_run (serves False w0) xs (serves False w)"
    "taken xs = mset (map message_id ms)" by blast
  have "solvent w" using runs_step_ok [OF turn_run.hyps(1) turn_run.prems] by (simp add: step_ok_def)
  from turn_implements [OF this turn_run.hyps(2,3)] obtain ys where
    "service_run (serves False w) ys (serves left w')"
    "taken ys = mset (map message_id (turn_messages (nq_stop_fd (fst w)) t))" by blast
  with xs show ?case
    by (intro exI [of _ "xs @ ys"]) (auto intro: service_run_append)
qed

end

section \<open>The worker of the program\<close>

definition worker_service :: "bool \<Rightarrow> 'r extractor worker \<Rightarrow> service" where
  "worker_service left w = \<lparr>sv_halted = left, sv_owes = image_mset fst (debt (snd w)),
     sv_answers = nq_log (fst w)\<rparr>"

lemma serves_worker_service: "tcp.serves = worker_service"
  unfolding tcp.serves_def worker_service_def by (rule refl)

lemma fresh_service:
  "new_Worker K r cfg fd ml rb mf mb = (Inr w, calls) \<Longrightarrow> worker_service False w = idle_service"
  using new_Worker_fresh(1,2) [of K r cfg fd ml rb mf mb w calls]
  by (simp add: worker_service_def idle_service_def new_extractor_debt)

end
