(* ===== verification/Stop_Signal.thy ===== *)
theory Stop_Signal
  imports Inspector
begin

text \<open>
  How the threads of the process are told to stop (\<^verbatim>\<open>src/main.cpp\<close>): the dispositions of
  signals, that one signal reaches every worker through the stop descriptor, and the flag that
  ends the statistics thread.
\<close>

section \<open>Signals\<close>

text \<open>
  What the process does with a signal: end, ignore it, or run \<^verbatim>\<open>on_signal\<close>. The
  dispositions the process starts with are given by the system.
\<close>

datatype disposition = Terminates | Ignored | Handled

abbreviation (input) SIGINT :: nat where "SIGINT \<equiv> 2"
abbreviation (input) SIGPIPE :: nat where "SIGPIPE \<equiv> 13"
abbreviation (input) SIGTERM :: nat where "SIGTERM \<equiv> 15"

definition install_signal_handlers :: "(nat \<Rightarrow> disposition) \<Rightarrow> nat \<Rightarrow> disposition" where
  "install_signal_handlers d = d(SIGINT := Handled, SIGTERM := Handled, SIGPIPE := Ignored)"

text \<open>\<open>None\<close>: the process is gone.\<close>

definition deliver :: "(nat \<Rightarrow> disposition) \<Rightarrow> int \<Rightarrow> nat \<Rightarrow> u64 \<Rightarrow> u64 option" where
  "deliver d fd sig c =
     (case d sig of
        Handled \<Rightarrow> Some (on_signal fd c)
      | Ignored \<Rightarrow> Some c
      | Terminates \<Rightarrow> None)"

lemma deliver_readable:
  assumes "deliver d fd sig c = Some c'" "fd \<ge> 0" "eventfd_readable c \<or> d sig = Handled"
  shows "eventfd_readable c'"
  using assms on_signal_readable [OF assms(2), of c]
  by (auto simp: deliver_def split: disposition.splits)

lemma installed_dispositions:
  "install_signal_handlers d SIGINT = Handled" "install_signal_handlers d SIGTERM = Handled"
  "install_signal_handlers d SIGPIPE = Ignored"
  by (simp_all add: install_signal_handlers_def)

section \<open>The process as it runs\<close>

text \<open>
  An event of the process is a signal or a turn of worker \<open>i\<close>, which agrees with the counter.
\<close>

datatype process_event = Signal nat | Turn nat turn

fun process_step ::
    "(nat \<Rightarrow> kernel) \<Rightarrow> 'x HostnameExtractor \<Rightarrow> bool \<Rightarrow> int \<Rightarrow> (nat \<Rightarrow> disposition) \<Rightarrow> process_event \<Rightarrow>
     u64 \<times> 'x thread list \<Rightarrow> (u64 \<times> 'x thread list) option" where
  "process_step K E p fd d (Signal sig) (c, ths) = map_option (\<lambda>c'. (c', ths)) (deliver d fd sig c)"
| "process_step K E p fd d (Turn i t) (c, ths) =
     (if i < length ths \<and> polls c t
      then map_option (\<lambda>th. (c, ths[i := th])) (thread_step K E p i t (ths ! i))
      else None)"

text \<open>The counter never goes back, whatever the workers do.\<close>

lemma process_keeps_readable:
  assumes "mfold (process_step K E p fd d) es (c, ths) = Some (c', ths')" "fd \<ge> 0"
    "eventfd_readable c \<or> (\<exists>sig. Signal sig \<in> set es \<and> d sig = Handled)"
  shows "eventfd_readable c'"
  using assms
proof (induction es arbitrary: c ths)
  case (Cons e es)
  show ?case
  proof (cases e)
    case (Signal sig)
    with Cons.prems(1) obtain c1 where c1: "deliver d fd sig c = Some c1"
      "mfold (process_step K E p fd d) es (c1, ths) = Some (c', ths')"
      by (auto split: Option.bind_splits)
    with Cons.IH [OF c1(2)] Cons.prems(2,3) Signal deliver_readable [OF c1(1)] show ?thesis by auto
  next
    case (Turn i t)
    with Cons.prems Cons.IH show ?thesis
      by (auto split: if_splits Option.bind_splits)
  qed
qed auto

lemma process_length:
  "mfold (process_step K E p fd d) es (c, ths) = Some (c', ths') \<Longrightarrow> length ths' = length ths"
proof (induction es arbitrary: c ths)
  case (Cons e es)
  then show ?case
    by (cases e) (fastforce split: if_splits Option.bind_splits)+
qed simp

text \<open>Once a worker has left its loop it stays out.\<close>

lemma process_left_stays:
  assumes "mfold (process_step K E p fd d) es (c, ths) = Some (c', ths')" "i < length ths" "fst (ths ! i)"
  shows "ths' ! i = ths ! i"
  using assms
proof (induction es arbitrary: c ths)
  case (Cons e es)
  show ?case
  proof (cases e)
    case (Signal sig)
    with Cons.prems Cons.IH show ?thesis by (auto split: Option.bind_splits)
  next
    case (Turn j t)
    with Cons.prems obtain th where th: "j < length ths" "thread_step K E p j t (ths ! j) = Some th"
      "mfold (process_step K E p fd d) es (c, ths[j := th]) = Some (c', ths')"
      by (auto split: if_splits Option.bind_splits)
    moreover have "ths[j := th] ! i = ths ! i"
      using th(1,2) Cons.prems(2,3) by (cases "j = i") (auto simp: thread_step_def)
    ultimately show ?thesis using Cons.IH [OF th(3)] Cons.prems(2,3) by simp
  qed
qed simp

section \<open>A signal reaches every worker\<close>

text \<open>The stop descriptor a queue was given is never changed.\<close>

interpretation borrowing: queue_invariant K "\<lambda>q. nq_stop_fd q = fd" for K fd
  by unfold_locales (simp_all add: submit_fields record_error_def)

definition watches :: "int \<Rightarrow> 'x thread list \<Rightarrow> bool" where
  "watches fd ths \<longleftrightarrow> (\<forall>th \<in> set ths. nq_stop_fd (fst (snd th)) = fd)"

lemma thread_watches:
  "thread_step K E p i t th = Some th' \<Longrightarrow> nq_stop_fd (fst (snd th)) = fd \<Longrightarrow>
   nq_stop_fd (fst (snd th')) = fd"
  using borrowing.P_turn [of "snd th" fd "K i" E p t]
  by (cases th') (auto simp: thread_step_def split: if_splits)

lemma process_watches:
  "mfold (process_step K E p fd d) es (c, ths) = Some (c', ths') \<Longrightarrow> watches fd ths \<Longrightarrow> watches fd ths'"
proof (induction es arbitrary: c ths)
  case (Cons e es)
  show ?case
  proof (cases e)
    case (Signal sig)
    with Cons.prems Cons.IH show ?thesis by (auto split: Option.bind_splits)
  next
    case (Turn j t)
    with Cons.prems(1) obtain th where th: "j < length ths" "thread_step K E p j t (ths ! j) = Some th"
      "mfold (process_step K E p fd d) es (c, ths[j := th]) = Some (c', ths')"
      by (auto split: if_splits Option.bind_splits)
    have "watches fd (ths[j := th])"
      using thread_watches [OF th(2), of fd] Cons.prems(2) th(1)
      by (auto simp: watches_def dest!: set_update_subset_insert [THEN subsetD])
    then show ?thesis using Cons.IH [OF th(3)] by blast
  qed
qed simp

text \<open>A turn that sees the stop descriptor is the last one.\<close>

lemma stopped_thread_leaves:
  assumes "thread_step K E p i t th = Some th'" "nq_stop_fd (fst (snd th)) = fd" "fd \<ge> 0"
    "polls c t" "eventfd_readable c" "t_poll t \<ge> 0"
  shows "fst th'"
proof (cases "fst th")
  case False
  obtain q x where w: "snd th = (q, x)" by (cases "snd th")
  have ev: "turn_event (nq_stop_fd q) t = Stop"
    using assms(2-6) w by (simp add: turn_event_def polls_def)
  then have "run_once (K i) (worker_callback (K i) E p) t (q, x) = Some (Stop, q, x)"
    using run_once_quiet [of q t "K i" "worker_callback (K i) E p" x] by auto
  with assms(1) w False show ?thesis by (auto simp: thread_step_def worker_turn_def)
qed (use assms(1) in \<open>auto simp: thread_step_def\<close>)

lemma readable_process_stops:
  assumes "mfold (process_step K E p fd d) es (c, ths) = Some (c', ths')" "fd \<ge> 0" "watches fd ths"
    "eventfd_readable c" "i < length ths" "Turn i t \<in> set es" "t_poll t \<ge> 0"
  shows "fst (ths' ! i)"
proof -
  obtain pre post where es: "es = pre @ Turn i t # post" using assms(6) by (meson split_list)
  with assms(1) obtain c1 ths1 where pre: "mfold (process_step K E p fd d) pre (c, ths) = Some (c1, ths1)"
    "mfold (process_step K E p fd d) (Turn i t # post) (c1, ths1) = Some (c', ths')"
    by (auto simp: mfold_append split: Option.bind_splits)
  then obtain th where th: "thread_step K E p i t (ths1 ! i) = Some th" "polls c1 t" "i < length ths1"
    "mfold (process_step K E p fd d) post (c1, ths1[i := th]) = Some (c', ths')"
    by (auto split: if_splits Option.bind_splits)
  have "nq_stop_fd (fst (snd (ths1 ! i))) = fd"
    using process_watches [OF pre(1) assms(3)] th(3) by (simp add: watches_def)
  moreover have "eventfd_readable c1"
    using process_keeps_readable [OF pre(1) assms(2)] assms(4) by blast
  ultimately have "fst th" using stopped_thread_leaves [OF th(1)] th(2) assms(2,7) by blast
  with process_left_stays [OF th(4)] th(3) show ?thesis by simp
qed

section \<open>The statistics thread\<close>

text \<open>
  The optional thread that prints a line of counters every interval. Each step is driven by
  what one load of the flag \<^verbatim>\<open>reporting\<close> returns: \<open>Outer\<close> is the loop condition,
  \<open>Waiting slept\<close> the condition of the sleeping loop with the milliseconds slept so far,
  \<open>Woken\<close> the check after it.
\<close>

datatype stats_pc = Outer | Waiting nat | Woken | Ended

datatype stats_event = Slept | Reported

definition woken_step :: "bool \<Rightarrow> stats_pc \<times> stats_event list" where
  "woken_step reporting = (if reporting then (Outer, [Reported]) else (Ended, []))"

text \<open>When the interval has passed the sleeping loop ends without a load of the flag.\<close>

fun stats_step :: "nat \<Rightarrow> bool \<Rightarrow> stats_pc \<Rightarrow> stats_pc \<times> stats_event list" where
  "stats_step interval reporting Outer = (if reporting then Waiting 0 else Ended, [])"
| "stats_step interval reporting (Waiting slept) =
     (if slept < interval
      then (if reporting then (Waiting (slept + 100), [Slept]) else (Woken, []))
      else woken_step reporting)"
| "stats_step interval reporting Woken = woken_step reporting"
| "stats_step interval reporting Ended = (Ended, [])"

fun stats_thread :: "nat \<Rightarrow> bool list \<Rightarrow> stats_pc \<Rightarrow> stats_pc \<times> stats_event list" where
  "stats_thread interval [] pc = (pc, [])"
| "stats_thread interval (b # bs) pc =
     (let (pc', out) = stats_step interval b pc; (pc'', outs) = stats_thread interval bs pc'
      in (pc'', out @ outs))"

text \<open>Once the flag is false the thread does nothing more and has ended after two loads.\<close>

lemma stats_ended: "stats_thread interval bs Ended = (Ended, [])"
  by (induction bs) simp_all

lemma stats_stops:
  "stats_thread interval (replicate (2 + n) False) pc = (Ended, [])"
  by (cases pc) (auto simp: stats_ended woken_step_def numeral_2_eq_2)

lemma stats_append:
  "stats_thread interval (bs @ cs) pc =
     (let (pc', out) = stats_thread interval bs pc; (pc'', outs) = stats_thread interval cs pc'
      in (pc'', out @ outs))"
  by (induction bs arbitrary: pc) (auto simp: Let_def split: prod.splits)

lemma stats_sleeps:
  "slept + 100 * n \<le> interval \<Longrightarrow>
   stats_thread interval (replicate n True) (Waiting slept) = (Waiting (slept + 100 * n), replicate n Slept)"
proof (induction n arbitrary: slept)
  case (Suc n)
  then have "stats_thread interval (replicate n True) (Waiting (slept + 100)) =
      (Waiting (slept + 100 + 100 * n), replicate n Slept)" by (intro Suc.IH) simp
  with Suc.prems show ?case by simp
qed simp

text \<open>While the flag is true: \<open>10 * s\<close> sleeps of 100 ms, then a line.\<close>

lemma stats_round:
  "stats_thread (1000 * s) (replicate (10 * s + 2) True) Outer = (Outer, replicate (10 * s) Slept @ [Reported])"
proof -
  have "replicate (10 * s + 2) True = True # replicate (10 * s) True @ [True]"
    by (simp add: replicate_append_same numeral_2_eq_2)
  with stats_sleeps [of 0 "10 * s" "1000 * s"] show ?thesis
    by (simp add: stats_append woken_step_def)
qed

lemma stats_rounds:
  "stats_thread (1000 * s) (replicate (n * (10 * s + 2)) True) Outer =
     (Outer, concat (replicate n (replicate (10 * s) Slept @ [Reported])))"
proof (induction n)
  case (Suc n)
  have "replicate (Suc n * (10 * s + 2)) True =
      replicate (10 * s + 2) True @ replicate (n * (10 * s + 2)) True"
    by (simp only: mult_Suc replicate_add)
  with Suc stats_round [of s] show ?case by (simp only: stats_append) (simp add: Let_def)
qed simp

end
