(* ===== verification/Extractor_Reentry.thy ===== *)
theory Extractor_Reentry
  imports Extractor_Audit
begin

text \<open>
  Callbacks that the reassembler makes while it closes or purges connections, outside the
  handling of a packet: the extractor ignores them, so that it behaves as with a
  reassembler that makes none.
\<close>

section \<open>A reassembler that is quiet on close and purge\<close>

definition quiet :: "'r world \<Rightarrow> 'r world" where
  "quiet W = W\<lparr>w_close := \<lambda>r k. (fst (w_close W r k), []), w_purge := \<lambda>r. (fst (w_purge W r), [])\<rparr>"

lemma quiet_simps [simp]:
  "w_reassemble (quiet W) = w_reassemble W" "w_traverse (quiet W) = w_traverse W"
  "w_decide (quiet W) = w_decide W" "fst (w_close (quiet W) r k) = fst (w_close W r k)"
  "fst (w_purge (quiet W) r) = fst (w_purge W r)"
  by (simp_all add: quiet_def)

lemma resolve_quiet [simp]: "resolve (quiet W) = resolve W"
  by (intro ext) (unfold resolve_def quiet_simps, rule refl)

lemma expire_quiet [simp]: "expire (quiet W) = expire W"
  by (intro ext) (unfold expire_def resolve_quiet, rule refl)

lemma visit_quiet [simp]: "visit (quiet W) = visit W"
  by (intro ext) (unfold visit_def quiet_simps, rule refl)

lemma on_event_cases:
  "on_event W e s = (case e of ConnectionStart k \<Rightarrow> onConnectionStart k s
     | MessageReady side k data \<Rightarrow> onMessageReady W side k data s
     | ConnectionEnd \<Rightarrow> onConnectionEnd W s)"
  by (cases e) simp_all

lemma on_event_quiet [simp]: "on_event (quiet W) = on_event W"
proof (intro ext)
  show "on_event (quiet W) e s = on_event W e s" for e s
    unfolding on_event_cases onMessageReady_def onConnectionEnd_def resolve_quiet by (rule refl)
qed

lemma drain_closes_quiet: "\<not> x_feeding s \<Longrightarrow> drain_closes (quiet W) s = drain_closes W s"
  by (simp add: drain_closes_idle)

lemma purge_quiet:
  "\<not> x_feeding s \<Longrightarrow> pcpp_call (quiet W) (w_purge (quiet W)) s = pcpp_call W (w_purge W) s"
  by (simp add: pcpp_call_idle)

lemma remember_feeding: "preserves (\<lambda>t. x_feeding t = x_feeding s) (remember_blocked k s)"
  unfolding remember_blocked_def ring_at_def ring_store_def
  by (auto simp: preserves_bind Let_def conn_simps split: option.splits)

lemma resolve_feeding: "preserves (\<lambda>t. x_feeding t = x_feeding s) (resolve W k h s)"
  using remember_feeding [of "put_conn k c (s\<lparr>x_asked := a\<rparr>)" for c a]
  by (auto simp: resolve_def Let_def preserves_bind decide_all conn_simps
      split: option.splits intro: preserves_mono)

lemma expire_feeding: "preserves (\<lambda>t. x_feeding t = x_feeding s) (expire W k s)"
  using resolve_feeding [of s W k None] by (simp add: expire_def conn_simps split: option.split)

lemma mfold_feeding:
  assumes "\<And>x s. preserves (\<lambda>t. x_feeding t = x_feeding s) (f x s)" "mfold f xs s = Some t"
  shows "x_feeding t = x_feeding s"
  using preserves_mfold [of "\<lambda>t. x_feeding t = x_feeding s" f s xs] assms
  by (auto intro: preserves_mono)

lemma sweep_quiet:
  assumes "\<not> x_feeding s"
  shows "sweep (quiet W) now s = sweep W now s"
proof -
  have "Option.bind (pcpp_call (quiet W) (w_purge (quiet W)) t)
        (\<lambda>s2. Option.bind (drain_closes (quiet W) s2) (\<lambda>s3. Some (publish s3))) =
      Option.bind (pcpp_call W (w_purge W) t)
        (\<lambda>s2. Option.bind (drain_closes W s2) (\<lambda>s3. Some (publish s3)))"
    if "mfold (expire W) ks (s\<lparr>x_blocked := n\<rparr>) = Some t" for ks n t
    using mfold_feeding [OF expire_feeding that] assms
    by (simp add: pcpp_call_idle drain_closes_idle)
  then show ?thesis
    unfolding sweep_def Let_def expire_quiet visit_quiet by (auto intro: Option.bind_cong)
qed

lemma tick_quiet: "\<not> x_feeding s \<Longrightarrow> tick (quiet W) now s = tick W now s"
  by (simp add: tick_def sweep_quiet)

lemma flush_quiet:
  assumes "\<not> x_feeding s"
  shows "flush (quiet W) s = flush W s"
proof -
  have "drain_closes (quiet W) (t\<lparr>x_conns := []\<rparr>) = drain_closes W (t\<lparr>x_conns := []\<rparr>)"
    if "mfold (\<lambda>key t. resolve W key None t) ks s = Some t" for ks t
    using mfold_feeding [OF resolve_feeding that] assms by (simp add: drain_closes_quiet)
  then show ?thesis unfolding flush_def Let_def resolve_quiet visit_quiet by (auto intro!: Option.bind_cong)
qed

lemma make_room_quiet: "\<not> x_feeding s \<Longrightarrow> make_room (quiet W) now s = make_room W now s"
  by (simp add: make_room_def sweep_quiet)

lemma start_tracking_quiet:
  assumes "\<not> x_feeding s"
  shows "start_tracking (quiet W) now f pkt s = start_tracking W now f pkt s"
  unfolding start_tracking_def make_room_quiet [OF assms] by (rule refl)

lemma reassemble_quiet: "reassemble (quiet W) key raw s = reassemble W key raw s"
  by (simp add: reassemble_def pcpp_call_def drain_closes_quiet)

lemma feed_tracked_quiet: "feed_tracked (quiet W) now f pkt s = feed_tracked W now f pkt s"
  unfolding feed_tracked_def reassemble_quiet resolve_quiet by (rule refl)

lemma feed_quiet:
  assumes "ready s"
  shows "feed (quiet W) now pkt s = feed W now pkt s"
proof -
  have "\<not> x_feeding s" using assms by (simp add: ready_def)
  moreover have "routed (quiet W) now f pkt t = routed W now f pkt t" if "tick W now s = Some t" for f t
  proof -
    have "\<not> x_feeding t" using tick_ok [OF assms, of W now] that by (simp add: ready_def)
    then show ?thesis
      unfolding routed_def feed_tracked_quiet by (simp add: start_tracking_quiet split: option.split)
  qed
  ultimately show ?thesis
    unfolding feed_routed by (auto simp: tick_quiet intro!: Option.bind_cong)
qed

end
