(* ===== verification/Hello_Roundtrip.thy ===== *)
theory Hello_Roundtrip
  imports Hello_Safety
begin

unbundle bit_operations_syntax

text \<open>
  The parser against the wire format it reads. A ClientHello is given by its abstract
  syntax and encoded as RFC 8446 lays it out; the parser applied to the encoding returns
  the first host name of the first server_name extension, whatever the other fields hold.
  The record layer is the second half: however the message is cut into TLS records, the
  collection reassembles exactly that message.
\<close>

section \<open>Encoders\<close>

definition enc16 :: "nat \<Rightarrow> bytes" where
  "enc16 n = [of_nat (n div 256), of_nat n]"

definition enc24 :: "nat \<Rightarrow> bytes" where
  "enc24 n = [of_nat (n div 65536), of_nat (n div 256), of_nat n]"

type_synonym server_name = "u8 \<times> bytes"

datatype Ext = ServerName "server_name list" | OtherExt u16 bytes

record ClientHello =
  ch_version :: bytes
  ch_random :: bytes
  ch_session :: bytes
  ch_ciphers :: bytes
  ch_compression :: bytes
  ch_exts :: "Ext list"

definition enc_name :: "server_name \<Rightarrow> bytes" where
  "enc_name n = fst n # enc16 (length (snd n)) @ snd n"

abbreviation enc_names :: "server_name list \<Rightarrow> bytes" where
  "enc_names ns \<equiv> concat (map enc_name ns)"

fun enc_ext :: "Ext \<Rightarrow> bytes" where
  "enc_ext (ServerName ns) =
     enc16 0 @ enc16 (2 + length (enc_names ns)) @ enc16 (length (enc_names ns)) @ enc_names ns"
| "enc_ext (OtherExt t b) = enc16 (unat t) @ enc16 (length b) @ b"

abbreviation enc_exts :: "Ext list \<Rightarrow> bytes" where
  "enc_exts es \<equiv> concat (map enc_ext es)"

definition enc_body :: "ClientHello \<Rightarrow> bytes" where
  "enc_body c = ch_version c @ ch_random c @
     of_nat (length (ch_session c)) # ch_session c @
     enc16 (length (ch_ciphers c)) @ ch_ciphers c @
     of_nat (length (ch_compression c)) # ch_compression c @
     enc16 (length (enc_exts (ch_exts c))) @ enc_exts (ch_exts c)"

definition enc_hello :: "ClientHello \<Rightarrow> bytes" where
  "enc_hello c = 0x01 # enc24 (length (enc_body c)) @ enc_body c"

text \<open>The answer the parser owes: the first host name of the first server_name list.\<close>

fun first_host :: "server_name list \<Rightarrow> bytes HostnameResult" where
  "first_host [] = NotFound"
| "first_host ((t, n) # ns) = (if t = 0 then Found n else first_host ns)"

fun sni_of :: "Ext list \<Rightarrow> bytes HostnameResult" where
  "sni_of [] = NotFound"
| "sni_of (ServerName ns # es) = first_host ns"
| "sni_of (OtherExt t b # es) = sni_of es"

text \<open>Every length fits its field, and only server_name extensions have type zero.\<close>

fun ext_ok :: "Ext \<Rightarrow> bool" where
  "ext_ok (ServerName ns) \<longleftrightarrow> list_all (\<lambda>n. length (snd n) < 65536) ns \<and> length (enc_names ns) < 65534"
| "ext_ok (OtherExt t b) \<longleftrightarrow> t \<noteq> 0 \<and> length b < 65536"

definition hello_ok :: "ClientHello \<Rightarrow> bool" where
  "hello_ok c \<longleftrightarrow> length (ch_version c) = 2 \<and> length (ch_random c) = 32 \<and>
     length (ch_session c) < 256 \<and> length (ch_ciphers c) < 65536 \<and>
     length (ch_compression c) < 256 \<and> list_all ext_ok (ch_exts c) \<and>
     length (enc_exts (ch_exts c)) < 65536 \<and> length (enc_body c) \<le> 65535"

section \<open>Reading an encoding back\<close>

lemma length_enc16 [simp]: "length (enc16 n) = 2"
  by (simp add: enc16_def)

lemma length_enc24 [simp]: "length (enc24 n) = 3"
  by (simp add: enc24_def)

lemma unat_of_nat_u8: "unat (of_nat n :: u8) = n mod 256"
  by (simp add: unat_of_nat)

lemma rd8_at: "rd8 (pre @ b # post) (length pre) = Some b"
  by (simp add: rd8_def)

lemma rd8_shift: "rd8 (pre @ q) (length pre + i) = rd8 q i"
  by (simp add: rd8_def nth_append)

lemma rd24_shift: "rd24 (pre @ q) (length pre + i) = rd24 q i"
  by (simp add: rd24_def rd8_shift add.assoc del: add_Suc_right)

lemma rd16_at:
  assumes "n < 65536"
  obtains w where "rd16 (pre @ enc16 n @ post) (length pre) = Some w" "unat w = n"
proof -
  let ?w = "push_bit 8 (ucast (of_nat (n div 256) :: u8)) OR ucast (of_nat n :: u8) :: u16"
  have "rd16 (pre @ enc16 n @ post) (length pre) = Some ?w"
    by (simp add: rd16_def rd8_def enc16_def nth_append)
  moreover have "unat ?w = n"
    using assms by (simp add: unat_be16 unat_of_nat_u8)
  ultimately show ?thesis by (rule that)
qed

lemma rd24_at:
  assumes "n < 16777216"
  obtains w where "rd24 (pre @ enc24 n @ post) (length pre) = Some w" "unat w = n"
proof -
  let ?w = "push_bit 16 (ucast (of_nat (n div 65536) :: u8)) OR
    push_bit 8 (ucast (of_nat (n div 256) :: u8)) OR ucast (of_nat n :: u8) :: u32"
  have "rd24 (pre @ enc24 n @ post) (length pre) = Some ?w"
    by (simp add: rd24_def rd8_def enc24_def nth_append)
  moreover have "unat ?w = n"
  proof -
    have "n mod 65536 = 256 * (n div 256 mod 256) + n mod 256"
      using mod_mult2_eq [of n 256 256] by simp
    moreover have "65536 * (n div 65536) + n mod 65536 = n" by simp
    moreover have "n div 65536 mod 256 = n div 65536" using assms by simp
    ultimately show ?thesis unfolding unat_be24 unat_of_nat_u8 by linarith
  qed
  ultimately show ?thesis by (rule that)
qed

section \<open>The ClientHello parser on an encoded hello\<close>

lemma enc_name_pair: "enc_name (t, n) = t # enc16 (length n) @ n"
  by (simp add: enc_name_def)

lemma length_enc_name [simp]: "length (enc_name n) = 3 + length (snd n)"
  by (simp add: enc_name_def)

lemma name_walk_enc:
  assumes "p = pre @ enc_names ns @ post" "length p < SAFE_LEN"
    "list_all (\<lambda>n. length (snd n) < 65536) ns"
  shows "ensures (name_walk p (length pre + length (enc_names ns)) (length pre))
    (\<lambda>r. host_at p r = first_host ns)"
  using assms
proof (induction ns arbitrary: pre)
  case Nil
  then have "add32 (length pre) 3 = length pre + 3" by (simp add: add32_exact)
  then show ?case by (subst name_walk.simps) simp
next
  case (Cons a ns)
  obtain t n where a: "a = (t, n)" by (cases a)
  let ?q = "length pre" and ?e = "length pre + length (enc_names (a # ns))"
  have p: "p = pre @ t # enc16 (length n) @ n @ enc_names ns @ post"
    using Cons.prems(1) by (simp add: a enc_name_pair)
  have q: "?q \<le> length p" using p by simp
  note adv = advance [OF q Cons.prems(2)]
  have t: "rd8 p ?q = Some t" unfolding p by (rule rd8_at)
  obtain w where w: "rd16 p (?q + 1) = Some w" "unat w = length n"
    using rd16_at [of "length n" "pre @ [t]" "n @ enc_names ns @ post"] Cons.prems(3) a p
    by auto
  show ?case
  proof (cases "t = 0")
    case True
    then have "name_walk p ?e ?q = Some (Found (?q + 3, length n))"
      using t w(1) by (subst name_walk.simps) (simp add: a Let_def adv flip: w(2))
    moreover have "take (length n) (drop (?q + 3) p) = n" by (simp add: p)
    ultimately show ?thesis using True by (simp add: a)
  next
    case False
    have "ensures (name_walk p (length (pre @ enc_name a) + length (enc_names ns))
        (length (pre @ enc_name a))) (\<lambda>r. host_at p r = first_host ns)"
      using Cons.prems by (intro Cons.IH) auto
    moreover have "name_walk p ?e ?q = name_walk p ?e (?q + 3 + length n)"
      using t w(1) False by (subst name_walk.simps) (simp add: a Let_def adv flip: w(2))
    ultimately show ?thesis using False by (simp add: a algebra_simps)
  qed
qed

lemma server_names_enc:
  assumes "p = pre @ enc16 (length (enc_names ns)) @ enc_names ns @ post" "length p < SAFE_LEN"
    "list_all (\<lambda>n. length (snd n) < 65536) ns" "length (enc_names ns) < 65534"
  shows "ensures (server_names p (length pre) (2 + length (enc_names ns)))
    (\<lambda>r. host_at p r = first_host ns)"
proof -
  let ?n = "length (enc_names ns)" and ?q = "length pre"
  have q: "?q \<le> length p" using assms(1) by simp
  obtain w where w: "rd16 p ?q = Some w" "unat w = ?n"
    using rd16_at [of ?n pre "enc_names ns @ post"] assms(1,4) by auto
  have adv: "add32 ?q 2 = ?q + 2" "add32 ?q (2 + ?n) = ?q + 2 + ?n"
    "add32 (?q + 2) ?n = ?q + 2 + ?n"
    using assms(1,2) by (simp_all add: add32_exact)
  have "ensures (name_walk p (length (pre @ enc16 ?n) + ?n) (length (pre @ enc16 ?n)))
      (\<lambda>r. host_at p r = first_host ns)"
    using assms by (intro name_walk_enc) auto
  then show ?thesis
    using w by (simp add: server_names_def Let_def adv)
qed

text \<open>One extension: the server names end the walk, any other is skipped.\<close>

lemma ext_walk_server_name:
  assumes "p = pre @ enc_ext (ServerName ns) @ post" "length p < SAFE_LEN" "ext_ok (ServerName ns)"
    "length pre + length (enc_ext (ServerName ns)) \<le> e" "e \<le> length p"
  shows "ensures (ext_walk p e (length pre)) (\<lambda>r. host_at p r = first_host ns)"
proof -
  let ?q = "length pre" and ?n = "length (enc_names ns)"
  have q: "?q \<le> length p" using assms(1) by simp
  note adv = advance [OF q assms(2)]
  from assms(3) have ok: "list_all (\<lambda>n. length (snd n) < 65536) ns" "?n < 65534" by auto
  have p: "p = pre @ enc16 0 @ enc16 (2 + ?n) @ enc16 ?n @ enc_names ns @ post"
    using assms(1) by simp
  obtain w where w: "rd16 p ?q = Some w" "unat w = 0"
    using rd16_at [of 0 pre "enc16 (2 + ?n) @ enc16 ?n @ enc_names ns @ post"] p by auto
  obtain l where l: "rd16 p (?q + 2) = Some l" "unat l = 2 + ?n"
    using rd16_at [of "2 + ?n" "pre @ enc16 0" "enc16 ?n @ enc_names ns @ post"] p ok by auto
  have "ensures (server_names p (length (pre @ enc16 0 @ enc16 (2 + ?n))) (2 + ?n))
      (\<lambda>r. host_at p r = first_host ns)"
    using p ok assms(2) by (intro server_names_enc) auto
  moreover have "w = 0" using w by (simp add: unat_eq_0)
  ultimately show ?thesis
    using w l assms(4) by (subst ext_walk.simps) (simp add: Let_def adv)
qed

lemma ext_walk_other:
  assumes "p = pre @ enc_ext (OtherExt t b) @ post" "length p < SAFE_LEN" "ext_ok (OtherExt t b)"
    "length pre + length (enc_ext (OtherExt t b)) \<le> e"
  shows "ext_walk p e (length pre) = ext_walk p e (length (pre @ enc_ext (OtherExt t b)))"
proof -
  let ?q = "length pre"
  have q: "?q \<le> length p" using assms(1) by simp
  note adv = advance [OF q assms(2)]
  have p: "p = pre @ enc16 (unat t) @ enc16 (length b) @ b @ post" using assms(1) by simp
  obtain w where w: "rd16 p ?q = Some w" "unat w = unat t"
    using rd16_at [of "unat t" pre "enc16 (length b) @ b @ post"] p by auto
  obtain l where l: "rd16 p (?q + 2) = Some l" "unat l = length b"
    using rd16_at [of "length b" "pre @ enc16 (unat t)" "b @ post"] p assms(3) by auto
  have "w \<noteq> 0" using w(2) assms(3) by (auto simp: unat_eq_0)
  then have "ext_walk p e ?q = ext_walk p e (?q + 4 + length b)"
    using w l(1) assms(4) by (subst ext_walk.simps) (simp add: Let_def adv flip: l(2))
  then show ?thesis by (simp add: algebra_simps)
qed

lemma ext_walk_enc:
  assumes "p = pre @ enc_exts es @ post" "length p < SAFE_LEN" "list_all ext_ok es"
  shows "ensures (ext_walk p (length pre + length (enc_exts es)) (length pre))
    (\<lambda>r. host_at p r = sni_of es)"
  using assms
proof (induction es arbitrary: pre)
  case Nil
  then have "add32 (length pre) 4 = length pre + 4" by (simp add: add32_exact)
  then show ?case by (subst ext_walk.simps) simp
next
  case (Cons e es)
  let ?e = "length pre + length (enc_exts (e # es))"
  show ?case
  proof (cases e)
    case (ServerName ns)
    have "ensures (ext_walk p ?e (length pre)) (\<lambda>r. host_at p r = first_host ns)"
      using Cons.prems ServerName by (intro ext_walk_server_name [of p pre ns "enc_exts es @ post"]) auto
    with ServerName show ?thesis by simp
  next
    case (OtherExt t b)
    have "ext_walk p ?e (length pre) = ext_walk p ?e (length (pre @ enc_ext e))"
      unfolding OtherExt using Cons.prems OtherExt
      by (intro ext_walk_other [of p pre t b "enc_exts es @ post"]) auto
    moreover have "ensures (ext_walk p (length (pre @ enc_ext e) + length (enc_exts es))
        (length (pre @ enc_ext e))) (\<lambda>r. host_at p r = sni_of es)"
      using Cons.prems by (intro Cons.IH) auto
    ultimately show ?thesis by (simp add: OtherExt add.assoc)
  qed
qed

lemma length_enc_hello: "length (enc_hello c) = 4 + length (enc_body c)"
  by (simp add: enc_hello_def)

lemma hello_extensions_enc:
  assumes "p = pre @ enc16 (length (enc_exts es)) @ enc_exts es" "length p < SAFE_LEN"
    "list_all ext_ok es" "length (enc_exts es) < 65536"
  shows "ensures (hello_extensions p (length p) (length pre)) (\<lambda>r. host_at p r = sni_of es)"
proof -
  let ?n = "length (enc_exts es)" and ?q = "length pre"
  obtain w where w: "rd16 p ?q = Some w" "unat w = ?n"
    using rd16_at [of ?n pre "enc_exts es"] assms(1,4) by auto
  have adv: "add32 ?q 2 = ?q + 2" "add32 (?q + 2) ?n = ?q + 2 + ?n" and len: "length p = ?q + 2 + ?n"
    using assms(1,2) by (simp_all add: add32_exact)
  have "ensures (ext_walk p (length (pre @ enc16 ?n) + ?n) (length (pre @ enc16 ?n)))
      (\<lambda>r. host_at p r = sni_of es)"
    using assms by (intro ext_walk_enc [where post = "[]"]) auto
  then show ?thesis
    using w by (simp add: hello_extensions_def Let_def adv len)
qed

lemma hello_compression_enc:
  assumes "p = pre @ of_nat (length cm) # cm @ enc16 (length (enc_exts es)) @ enc_exts es"
    "length p < SAFE_LEN" "length cm < 256" "list_all ext_ok es" "length (enc_exts es) < 65536"
  shows "ensures (hello_compression p (length p) (length pre)) (\<lambda>r. host_at p r = sni_of es)"
proof -
  let ?q = "length pre" and ?b = "of_nat (length cm) :: u8"
  have b: "rd8 p ?q = Some ?b" "unat ?b = length cm"
    using assms(1,3) by (simp_all add: rd8_def unat_of_nat_u8)
  have adv: "add32 ?q 1 = ?q + 1" "add32 1 (length cm) = 1 + length cm"
    "add32 ?q (1 + length cm) = ?q + 1 + length cm"
    using assms(1,2) by (simp_all add: add32_exact)
  have "ensures (hello_extensions p (length p) (length (pre @ ?b # cm)))
      (\<lambda>r. host_at p r = sni_of es)"
    using assms by (intro hello_extensions_enc) auto
  moreover have "?q + 1 \<le> length p" using assms(1) by simp
  ultimately show ?thesis
    using b adv by (simp add: hello_compression_def)
qed

lemma hello_ciphers_enc:
  assumes "p = pre @ enc16 (length cs) @ cs @ of_nat (length cm) # cm @
      enc16 (length (enc_exts es)) @ enc_exts es"
    "length p < SAFE_LEN" "length cs < 65536" "length cm < 256" "list_all ext_ok es"
    "length (enc_exts es) < 65536"
  shows "ensures (hello_ciphers p (length p) (length pre)) (\<lambda>r. host_at p r = sni_of es)"
proof -
  let ?q = "length pre"
  obtain w where w: "rd16 p ?q = Some w" "unat w = length cs"
    using rd16_at [of "length cs" pre "cs @ of_nat (length cm) # cm @
        enc16 (length (enc_exts es)) @ enc_exts es"] assms(1,3) by auto
  have adv: "add32 ?q 2 = ?q + 2" "add32 2 (length cs) = 2 + length cs"
    "add32 ?q (2 + length cs) = ?q + 2 + length cs"
    using assms(1,2) by (simp_all add: add32_exact)
  have "ensures (hello_compression p (length p) (length (pre @ enc16 (length cs) @ cs)))
      (\<lambda>r. host_at p r = sni_of es)"
    using assms by (intro hello_compression_enc) auto
  moreover have "?q + 2 \<le> length p" using assms(1) by simp
  ultimately show ?thesis
    using w adv by (simp add: hello_ciphers_def add.assoc)
qed

lemma hello_host_enc:
  assumes "hello_ok c"
  shows "hello_host (enc_hello c) = Some (sni_of (ch_exts c))"
proof -
  let ?p = "enc_hello c"
  let ?tail = "enc16 (length (ch_ciphers c)) @ ch_ciphers c @
    of_nat (length (ch_compression c)) # ch_compression c @
    enc16 (length (enc_exts (ch_exts c))) @ enc_exts (ch_exts c)"
  let ?front = "0x01 # enc24 (length (enc_body c)) @ ch_version c @ ch_random c"
  let ?b = "of_nat (length (ch_session c)) :: u8"
  from assms have ok: "length (ch_version c) = 2" "length (ch_random c) = 32"
    "length (ch_session c) < 256" "length (enc_body c) \<le> 65535"
    by (auto simp: hello_ok_def)
  have p: "?p = ?front @ ?b # ch_session c @ ?tail"
    by (simp add: enc_hello_def enc_body_def)
  have front: "length ?front = 38" using ok by simp
  have len: "length ?p < SAFE_LEN" using ok by (simp add: length_enc_hello)
  have b: "rd8 ?p 38 = Some ?b" "unat ?b = length (ch_session c)"
    using ok rd8_at [of ?front ?b "ch_session c @ ?tail"]
    unfolding p front by (simp_all add: unat_of_nat_u8)
  have cursor: "39 + length (ch_session c) = length (?front @ ?b # ch_session c)"
    using front by simp
  have "ensures (hello_ciphers ?p (length ?p) (39 + length (ch_session c)))
      (\<lambda>r. host_at ?p r = sni_of (ch_exts c))"
    unfolding cursor using assms len p by (intro hello_ciphers_enc) (auto simp: hello_ok_def)
  moreover have "add32 38 (add32 1 (length (ch_session c))) = 39 + length (ch_session c)"
    using ok by (simp add: add32_exact)
  moreover have "rd8 ?p 0 = Some 1" "39 \<le> length ?p"
    using front by (simp_all add: p rd8_def)
  ultimately show ?thesis
    using b by (simp add: hello_host_def parseClientHello_def Let_def add32_exact ensures_iff)
qed

section \<open>The record layer on a fragmented message\<close>

text \<open>
  A handshake record: content type, version 3.\<open>v\<close>, length, payload. A fragmentation
  is a list of version and payload pairs.
\<close>

definition enc_record :: "u8 \<times> bytes \<Rightarrow> bytes" where
  "enc_record r = 0x16 # 0x03 # fst r # enc16 (length (snd r)) @ snd r"

abbreviation enc_records :: "(u8 \<times> bytes) list \<Rightarrow> bytes" where
  "enc_records rs \<equiv> concat (map enc_record rs)"

abbreviation payloads :: "(u8 \<times> bytes) list \<Rightarrow> bytes" where
  "payloads rs \<equiv> concat (map snd rs)"

definition records_ok :: "(u8 \<times> bytes) list \<Rightarrow> bool" where
  "records_ok rs = list_all (\<lambda>r. 0 < length (snd r) \<and> length (snd r) \<le> 16384) rs"

text \<open>A ClientHello message of a length the collection accepts.\<close>

definition hello_message :: "bytes \<Rightarrow> bool" where
  "hello_message m \<longleftrightarrow>
     (\<exists>body. m = 0x01 # enc24 (length body) @ body \<and> 34 \<le> length body \<and> length body \<le> 65535)"

lemma enc_record_pair: "enc_record (v, f) = 0x16 # 0x03 # v # enc16 (length f) @ f"
  by (simp add: enc_record_def)

lemma length_enc_record [simp]: "length (enc_record r) = 5 + length (snd r)"
  by (simp add: enc_record_def)

lemma record_step_enc:
  assumes "p = pre @ enc_record (v, f) @ post" "length p < U32_SPAN" "0 < length f" "length f \<le> 16384"
  shows "record_step p (length p) (length pre) = Some (Found (f, length pre + 5 + length f))"
proof -
  let ?q = "length pre"
  have p: "p = pre @ 0x16 # 0x03 # v # enc16 (length f) @ f @ post"
    using assms(1) by (simp add: enc_record_pair)
  have sub: "sub32 (length p) ?q = length p - ?q" "sub32 (length p - ?q) 5 = length p - ?q - 5"
    and adv: "add32 ?q (5 + length f) = ?q + 5 + length f"
    using p assms(2) by (simp_all add: sub32_exact add32_exact)
  have c: "rd8 p ?q = Some 0x16" "rd8 p (?q + 1) = Some 0x03"
    by (simp_all add: p rd8_def nth_append)
  have "length f < 65536" using assms(4) by simp
  then obtain w where "rd16 ((pre @ [0x16, 0x03, v]) @ enc16 (length f) @ f @ post)
      (length (pre @ [0x16, 0x03, v])) = Some w" and wl: "unat w = length f"
    by (rule rd16_at)
  then have w: "rd16 p (?q + 3) = Some w" by (simp add: p eval_nat_numeral)
  have sl: "byte_slice p (?q + 5) (length f) = Some f"
    by (simp add: byte_slice_def p)
  have "5 \<le> length p - ?q" "length f \<le> length p - ?q - 5" using p by simp_all
  with c w wl sl show ?thesis
    using assms(3,4) by (simp add: record_step_def sub adv Let_def)
qed

text \<open>Four joined bytes of a message are its type and its length.\<close>

lemma message_front:
  assumes "hello_message m" "s @ t = m @ extra" "4 \<le> length s"
  obtains u rest where "s = 0x01 # rest" "rd24 s 1 = Some u" "rd8 s 0 = Some 0x01"
    "length m = 4 + unat u" "34 \<le> unat u" "unat u \<le> 65535"
proof -
  from assms(1) obtain body where m: "m = 0x01 # enc24 (length body) @ body"
    "34 \<le> length body" "length body \<le> 65535" by (auto simp: hello_message_def)
  have len: "length (0x01 # enc24 (length body)) = 4" by simp
  have "take 4 s = take 4 (s @ t)" using assms(3) by simp
  also have "\<dots> = 0x01 # enc24 (length body)"
    using len by (simp add: assms(2) m(1))
  finally have s: "s = 0x01 # enc24 (length body) @ drop 4 s"
    using append_take_drop_id [of 4 s] by simp
  obtain u where u: "rd24 (0x01 # enc24 (length body) @ drop 4 s) 1 = Some u" "unat u = length body"
    using rd24_at [of "length body" "[0x01]" "drop 4 s"] m(3) by auto
  then have "rd24 s 1 = Some u" "rd8 s 0 = Some 0x01"
    by (subst s, simp add: rd8_def)+
  with u(2) m s show ?thesis by (intro that) auto
qed

lemma header_want_message:
  assumes "hello_message m" "s @ t = m @ extra"
    and "w = (if length s0 < 4 then 0 else length m)" "length s0 \<le> length s"
  shows "header_want s w = Some (Some (if length s < 4 then 0 else length m))"
proof (cases "w = 0 \<and> length s \<ge> 4")
  case True
  with assms(1,2) show ?thesis
    by (auto simp: header_want_def Let_def add32_exact elim!: message_front)
next
  case False
  with assms(1,3,4) show ?thesis
    by (auto simp: header_want_def hello_message_def)
qed

lemma collect_loop_enc:
  assumes "p = pre @ enc_records rs @ post" "length p < U32_SPAN" "records_ok rs"
    "hello_message m" "s @ payloads rs = m @ extra"
    "w = (if length s < 4 then 0 else length m)"
  shows "ensures (collect_loop p (length p) s (length pre) w)
    (\<lambda>r. message_text r = Found m)"
  using assms
proof (induction rs arbitrary: pre s w)
  case Nil
  then have "length m \<le> length s" "take (length m) s = m" by simp_all
  moreover have "4 \<le> length m" using Nil.prems(4) by (auto simp: hello_message_def)
  ultimately show ?case using Nil.prems(6) by (subst collect_loop.simps) auto
next
  case (Cons r rs)
  obtain v f where r: "r = (v, f)" by (cases r)
  have m4: "4 \<le> length m" using Cons.prems(4) by (auto simp: hello_message_def)
  show ?case
  proof (cases "w = 0 \<or> length s < w")
    case False
    then have "w = length m" "length m \<le> length s" using Cons.prems(6) by (auto split: if_splits)
    moreover from this have "take (length m) s = m"
      using Cons.prems(5) by (metis append_eq_append_conv_if append_eq_conv_conj take_append)
    ultimately show ?thesis using False by (subst collect_loop.simps) simp
  next
    case True
    let ?s = "s @ f" and ?pre = "pre @ enc_record r"
    let ?w = "if length ?s < 4 then 0 else length m"
    have step: "record_step p (length p) (length pre) = Some (Found (f, length ?pre))"
      using record_step_enc [of p pre v f "enc_records rs @ post"] Cons.prems(1-3)
      by (simp add: r records_ok_def add.assoc)
    have eq: "?s @ payloads rs = m @ extra" using Cons.prems(5) by (simp add: r)
    have hw: "header_want ?s w = Some (Some ?w)"
      using header_want_message [OF Cons.prems(4) eq Cons.prems(6)] by simp
    have last: "\<not> (length ?pre \<ge> length p \<and> (?w = 0 \<or> length ?s < ?w))"
    proof
      assume a: "length ?pre \<ge> length p \<and> (?w = 0 \<or> length ?s < ?w)"
      then have "length (enc_records rs) = 0" using Cons.prems(1) by simp
      then have "rs = []" by (cases rs) auto
      with eq have "length m \<le> length ?s" by (metis append_Nil2 concat.simps(1) le_add1 length_append list.map(1))
      with a m4 show False by (auto split: if_splits)
    qed
    have "ensures (collect_loop p (length p) ?s (length ?pre) ?w) (\<lambda>r. message_text r = Found m)"
      using Cons.prems(1-4) eq by (intro Cons.IH) (auto simp: records_ok_def)
    then show ?thesis
      using collect_loop_step [OF True step hw] last by presburger
  qed
qed

text \<open>The fast path answers with the message, or leaves it to the joining loop.\<close>

lemma collect_fast_enc:
  assumes "p = enc_record (v, f) @ post" "length p < U32_SPAN" "hello_message m"
    "f @ t = m @ extra"
  shows "ensures (collect_fast p (length p) (length f))
    (\<lambda>a. case a of None \<Rightarrow> True | Some r \<Rightarrow> message_text r = Found m)"
proof (cases "4 \<le> length f")
  case False
  then show ?thesis by (simp add: collect_fast_def)
next
  case True
  obtain u rest where u: "f = 0x01 # rest" "rd24 f 1 = Some u" "length m = 4 + unat u"
    "34 \<le> unat u" "unat u \<le> 65535"
    using assms(3,4) True by (rule message_front)
  have p: "p = (0x16 # 0x03 # v # enc16 (length f)) @ f @ post"
    using assms(1) by (simp add: enc_record_pair)
  have front: "length (0x16 # 0x03 # v # enc16 (length f)) = 5" by simp
  have len: "9 \<le> length p" using True p by simp
  have t: "rd8 p 5 = Some 0x01" by (simp add: p u(1) rd8_def nth_append)
  have "rd24 p (5 + 1) = rd24 (f @ post) 1"
    unfolding p front [symmetric] by (rule rd24_shift)
  then have ml: "rd24 p 6 = Some u" using rd24_prefix [OF u(2)] by simp
  show ?thesis
  proof (cases "length m \<le> length f")
    case fits: True
    have "take (length m) f = m"
      using assms(4) fits by (metis append_eq_append_conv_if append_eq_conv_conj take_append)
    then have "take (length m) (drop 5 p) = m" using fits by (simp add: p front)
    moreover have "5 + length m \<le> length p" using fits p by simp
    ultimately show ?thesis
      using True len t ml u fits
      by (simp add: collect_fast_def Let_def add32_exact)
  next
    case False
    with True len t ml u show ?thesis
      by (simp add: collect_fast_def Let_def add32_exact)
  qed
qed

lemma collectHandshake_enc:
  assumes "p = enc_records rs @ post" "length p < U32_SPAN" "records_ok rs"
    "hello_message m" "payloads rs = m @ extra"
  shows "ensures (collectHandshake p (length p)) (\<lambda>r. message_text r = Found m)"
proof -
  have "m \<noteq> []" using assms(4) by (auto simp: hello_message_def)
  with assms(5) obtain v f rs' where rs: "rs = (v, f) # rs'" by (cases rs) auto
  have f: "0 < length f" "length f \<le> 16384" using assms(3) by (simp_all add: rs records_ok_def)
  have p: "p = 0x16 # 0x03 # v # enc16 (length f) @ f @ enc_records rs' @ post"
    using assms(1) by (simp add: rs enc_record_pair)
  have c: "rd8 p 0 = Some 0x16" "rd8 p 1 = Some 0x03" by (simp_all add: p rd8_def)
  have "length f < 65536" using f by simp
  then obtain w where "rd16 ([0x16, 0x03, v] @ enc16 (length f) @ f @ enc_records rs' @ post)
      (length [0x16, 0x03, v]) = Some w" and wl: "unat w = length f"
    by (rule rd16_at)
  then have w: "rd16 p 3 = Some w" by (simp add: p eval_nat_numeral)
  have "5 \<le> length p" by (simp add: p)
  note hdr = collectHandshake_header [OF c w this]
  have fast: "ensures (collect_fast p (length p) (length f))
      (\<lambda>a. case a of None \<Rightarrow> True | Some r \<Rightarrow> message_text r = Found m)"
    using assms rs by (intro collect_fast_enc [where post = "enc_records rs' @ post"]) auto
  have slow: "ensures (collect_loop p (length p) [] 0 0) (\<lambda>r. message_text r = Found m)"
    using collect_loop_enc [of p "[]" rs post m "[]" extra 0] assms by simp
  show ?thesis
    using hdr fast slow f wl
    by (auto simp: ensures_bind intro!: ensures_mono [OF fast] split: option.splits)
qed

text \<open>
  The two halves together: the host name of an encoded ClientHello, found in any
  fragmentation of it across records and with anything behind it.
\<close>

lemma hello_message_enc:
  "34 \<le> length (enc_body c) \<Longrightarrow> length (enc_body c) \<le> 65535 \<Longrightarrow> hello_message (enc_hello c)"
  by (auto simp: hello_message_def enc_hello_def)

lemma hello_ok_message: "hello_ok c \<Longrightarrow> hello_message (enc_hello c)"
  by (intro hello_message_enc) (auto simp: hello_ok_def enc_body_def)

lemma hostname_in_records:
  assumes "hello_ok c" "records_ok rs" "payloads rs = enc_hello c @ extra"
    "length (enc_records rs @ post) < U32_SPAN"
  shows "hostname_in (enc_records rs @ post) = Some (sni_of (ch_exts c))"
proof -
  let ?p = "enc_records rs @ post"
  obtain r where r: "collectHandshake ?p (length ?p) = Some r" "message_text r = Found (enc_hello c)"
    using collectHandshake_enc [of ?p rs post "enc_hello c" extra] assms hello_ok_message
    by (auto simp: ensures_iff)
  with hostname_in_message [OF r(1) assms(4)] hello_host_enc [OF assms(1)] show ?thesis by simp
qed

section \<open>The hello the test suites send\<close>

text \<open>
  \<^verbatim>\<open>client_hello\<close>, the packet builder of the unit tests and of the benchmark: one
  record with one ClientHello, the server_name extension left out for an empty host.
\<close>

definition client_hello :: "bytes \<Rightarrow> bytes" where
  "client_hello host =
     (let ext = (if host \<noteq> [] then
          (let entry = 0x00 # enc16 (length host) @ host;
               lst = enc16 (length entry) @ entry
           in enc16 0 @ enc16 (length lst) @ lst) else []);
          body = [0x03, 0x03] @ replicate 32 0xAB @ [0x00] @ enc16 2 @ [0x13, 0x01] @
            [0x01, 0x00] @ enc16 (length ext) @ ext;
          hs = [0x01, of_nat (length body div 65536), of_nat (length body div 256),
            of_nat (length body)] @ body
      in [0x16, 0x03, 0x01] @ enc16 (length hs) @ hs)"

definition test_hello :: "bytes \<Rightarrow> ClientHello" where
  "test_hello host = \<lparr>ch_version = [0x03, 0x03], ch_random = replicate 32 0xAB, ch_session = [],
     ch_ciphers = [0x13, 0x01], ch_compression = [0x00],
     ch_exts = (if host = [] then [] else [ServerName [(0x00, host)]])\<rparr>"

lemma client_hello_enc: "client_hello host = enc_records [(0x01, enc_hello (test_hello host))]"
  by (simp add: client_hello_def test_hello_def enc_record_pair enc_hello_def enc_body_def
      enc24_def enc_name_pair Let_def numeral_2_eq_2)

lemma test_hello_ok: "length host \<le> 16328 \<Longrightarrow> hello_ok (test_hello host)"
  by (simp add: hello_ok_def test_hello_def enc_body_def)

lemma hostname_in_client_hello:
  assumes "length host \<le> 16328"
  shows "hostname_in (client_hello host) = Some (if host = [] then NotFound else Found host)"
proof -
  let ?rs = "[(0x01, enc_hello (test_hello host))]"
  have "length (enc_hello (test_hello host)) \<le> 16384"
    using assms by (simp add: length_enc_hello enc_body_def test_hello_def)
  moreover have "0 < length (enc_hello (test_hello host))" by (simp add: length_enc_hello)
  ultimately have "hostname_in (enc_records ?rs @ []) = Some (sni_of (ch_exts (test_hello host)))"
    using test_hello_ok [OF assms]
    by (intro hostname_in_records [where extra = "[]"]) (auto simp: records_ok_def)
  then show ?thesis by (simp add: client_hello_enc test_hello_def)
qed

end
