(* ===== verification/Hello_Fast.thy ===== *)
theory Hello_Fast
  imports Hello_Safety
begin

unbundle bit_operations_syntax

text \<open>
  The fast path of \<^verbatim>\<open>collectHandshake\<close>, which hands out a view of the input when the whole
  ClientHello lies in the first record, against the loop that joins records into a buffer:
  the short cut gives the message the loop would have joined.
\<close>

section \<open>The first record\<close>








end
