(* ===== verification/Dissect_Roundtrip.thy ===== *)
theory Dissect_Roundtrip
  imports Dissect
begin

unbundle bit_operations_syntax

text \<open>
  Packets as the protocols lay them out, and that dissection reads back what they carry:
  IPv4 with options and IPv6 with a chain of extension headers, TCP with options and UDP,
  and whatever padding follows the packet in its buffer.
\<close>

section \<open>Encoders\<close>

definition net16 :: "u16 \<Rightarrow> bytes" where
  "net16 w = [ucast (drop_bit 8 w), ucast w]"

definition nibbles :: "nat \<Rightarrow> nat \<Rightarrow> u8" where
  "nibbles hi lo = of_nat (16 * hi + lo)"

text \<open>
  A TCP segment: ports, sequence and acknowledgement numbers, flags, the six bytes of
  window, checksum and urgent pointer, options, payload. A UDP datagram: ports, checksum,
  payload.
\<close>

datatype transport =
    TCP u16 u16 bytes u8 bytes bytes bytes
  | UDP u16 u16 bytes bytes

fun enc_transport :: "transport \<Rightarrow> bytes" where
  "enc_transport (TCP sp dp seqs flags win opts payload) =
     net16 sp @ net16 dp @ seqs @ [nibbles (5 + length opts div 4) 0, flags] @ win @ opts @ payload"
| "enc_transport (UDP sp dp check payload) =
     net16 sp @ net16 dp @ net16 (of_nat (8 + length payload)) @ check @ payload"

fun transport_ok :: "transport \<Rightarrow> bool" where
  "transport_ok (TCP sp dp seqs flags win opts payload) \<longleftrightarrow>
     length seqs = 8 \<and> length win = 6 \<and> 4 dvd length opts \<and> length opts \<le> 40"
| "transport_ok (UDP sp dp check payload) \<longleftrightarrow> length check = 2"

fun proto_of :: "transport \<Rightarrow> u8" where
  "proto_of (TCP sp dp seqs flags win opts payload) = kProtoTcp"
| "proto_of (UDP sp dp check payload) = kProtoUdp"

fun ports_of :: "transport \<Rightarrow> u16 \<times> u16" where
  "ports_of (TCP sp dp seqs flags win opts payload) = (sp, dp)"
| "ports_of (UDP sp dp check payload) = (sp, dp)"

fun flags_of :: "transport \<Rightarrow> u8" where
  "flags_of (TCP sp dp seqs flags win opts payload) = flags"
| "flags_of (UDP sp dp check payload) = 0"

fun payload_in :: "transport \<Rightarrow> bytes" where
  "payload_in (TCP sp dp seqs flags win opts payload) = payload"
| "payload_in (UDP sp dp check payload) = payload"

fun header_len :: "transport \<Rightarrow> nat" where
  "header_len (TCP sp dp seqs flags win opts payload) = 20 + length opts"
| "header_len (UDP sp dp check payload) = 8"

text \<open>Internet headers. The extension headers are those the dissector follows.\<close>

datatype v6_ext =
    Options u8 bytes
  | FirstFragment u8 u16 bytes

datatype ip_header =
    IPv4 u8 bytes u16 u8 bytes bytes bytes bytes
  | IPv6 bytes u8 bytes bytes "v6_ext list"

fun ext_kind :: "v6_ext \<Rightarrow> u8" where
  "ext_kind (Options kind body) = kind"
| "ext_kind (FirstFragment res frag ident) = kV6Fragment"

fun enc_v6_ext :: "u8 \<Rightarrow> v6_ext \<Rightarrow> bytes" where
  "enc_v6_ext nxt (Options kind body) = [nxt, of_nat ((length body + 2) div 8 - 1)] @ body"
| "enc_v6_ext nxt (FirstFragment res frag ident) = [nxt, res] @ net16 frag @ ident"

fun v6_ext_ok :: "v6_ext \<Rightarrow> bool" where
  "v6_ext_ok (Options kind body) \<longleftrightarrow>
     kind \<in> {kV6HopByHop, kV6Routing, kV6DestOpts, kV6Mobility} \<and>
     8 dvd length body + 2 \<and> length body + 2 \<le> 2048"
| "v6_ext_ok (FirstFragment res frag ident) \<longleftrightarrow> frag AND 0xfff8 = 0 \<and> length ident = 4"

fun next_kind :: "v6_ext list \<Rightarrow> transport \<Rightarrow> u8" where
  "next_kind [] t = proto_of t"
| "next_kind (e # es) t = ext_kind e"

fun enc_chain :: "v6_ext list \<Rightarrow> transport \<Rightarrow> bytes" where
  "enc_chain [] t = enc_transport t"
| "enc_chain (e # es) t = enc_v6_ext (next_kind es t) e @ enc_chain es t"

fun enc_packet :: "ip_header \<Rightarrow> transport \<Rightarrow> bytes" where
  "enc_packet (IPv4 tos ident frag ttl check src dst opts) t =
     [nibbles 4 (5 + length opts div 4), tos] @
     net16 (of_nat (20 + length opts + length (enc_transport t))) @ ident @ net16 frag @
     [ttl, proto_of t] @ check @ src @ dst @ opts @ enc_transport t"
| "enc_packet (IPv6 flow hops src dst exts) t =
     [nibbles 6 0] @ flow @ net16 (of_nat (length (enc_chain exts t))) @
     [next_kind exts t, hops] @ src @ dst @ enc_chain exts t"

fun ip_ok :: "ip_header \<Rightarrow> transport \<Rightarrow> bool" where
  "ip_ok (IPv4 tos ident frag ttl check src dst opts) t \<longleftrightarrow>
     length ident = 2 \<and> frag AND 0x1fff = 0 \<and> length check = 2 \<and> length src = 4 \<and> length dst = 4 \<and>
     4 dvd length opts \<and> length opts \<le> 40 \<and> 20 + length opts + length (enc_transport t) < 65536"
| "ip_ok (IPv6 flow hops src dst exts) t \<longleftrightarrow>
     length flow = 3 \<and> length src = 16 \<and> length dst = 16 \<and>
     length exts < kMaxV6ExtHeaders \<and> list_all v6_ext_ok exts \<and> length (enc_chain exts t) < 65536"

fun version_of :: "ip_header \<Rightarrow> u8" where
  "version_of (IPv4 tos ident frag ttl check src dst opts) = 4"
| "version_of (IPv6 flow hops src dst exts) = 6"

text \<open>The addresses as the flow record has them, padded to sixteen bytes.\<close>

fun addresses_of :: "ip_header \<Rightarrow> bytes \<times> bytes" where
  "addresses_of (IPv4 tos ident frag ttl check src dst opts) =
     (src @ replicate 12 0, dst @ replicate 12 0)"
| "addresses_of (IPv6 flow hops src dst exts) = (src, dst)"

section \<open>Fields\<close>

lemma be16_net16: "push_bit 8 (ucast (ucast (drop_bit 8 w) :: u8)) OR ucast (ucast w :: u8) = (w :: u16)"
  by (rule bit_word_eqI) (auto simp: bit_simps)

lemma unat_byte: "n < 256 \<Longrightarrow> unat (of_nat n :: u8) = n"
  by (simp only: unat_of_nat len_of_numeral_defs take_bit_nat_eq_self_iff) simp

lemma unat_of_nat_u16: "n < 65536 \<Longrightarrow> unat (of_nat n :: u16) = n"
  by (simp only: unat_of_nat len_of_numeral_defs take_bit_nat_eq_self_iff) simp

lemma unat_nibbles:
  assumes "hi < 16" "lo < 16"
  shows "unat (nibbles hi lo) = 16 * hi + lo"
  unfolding nibbles_def using assms by (intro unat_byte) linarith

lemma nibbles_hi: 
  assumes "hi < 16" "lo < 16"
  shows "unat (drop_bit 4 (nibbles hi lo)) = hi"
proof -
  have "unat (drop_bit 4 (nibbles hi lo)) = drop_bit 4 (take_bit 8 (16 * hi + lo))"
    by (simp only: unsigned_drop_bit_eq unat_nibbles [OF assms] len_of_numeral_defs mult_1_right)
       (simp only: mult_2 numeral_Bit0 [symmetric] mult_numeral_1 add_numeral_special)
  moreover have "take_bit 8 (16 * hi + lo) = 16 * hi + lo"
    using assms by (simp add: take_bit_nat_eq_self_iff)
  ultimately show ?thesis using assms by (simp only: drop_bit_eq_div) simp
qed

lemma nibbles_version:
  assumes "hi < 16" "lo < 16"
  shows "drop_bit 4 (nibbles hi lo) = of_nat hi"
proof -
  have "unat (drop_bit 4 (nibbles hi lo)) = unat (of_nat hi :: u8)"
    by (simp only: nibbles_hi [OF assms], rule unat_byte [symmetric]) (use assms in linarith)
  then show ?thesis by (simp only: word_unat_eq_iff)
qed

lemma nibbles_lo:
  assumes "hi < 16" "lo < 16"
  shows "unat (nibbles hi lo AND 0x0f) = lo"
proof -
  have "(0x0f :: u8) = mask 4" by (simp add: mask_eq_exp_minus_1)
  then have "nibbles hi lo AND 0x0f = take_bit 4 (nibbles hi lo)" by (simp only: take_bit_eq_mask)
  then have "unat (nibbles hi lo AND 0x0f) = take_bit 4 (16 * hi + lo)"
    by (simp only: unsigned_take_bit_eq unat_nibbles [OF assms])
  then show ?thesis using assms by (simp add: take_bit_eq_mod)
qed

text \<open>Reading behind a prefix.\<close>

lemma rd8_behind: "rd8 (pre @ p) (length pre + i) = rd8 p i"
  by (simp add: rd8_def)

lemma be16_behind: "be16 (pre @ p) (length pre + i) = be16 p i"
  using rd8_behind [of pre p i] rd8_behind [of pre p "Suc i"] by (simp add: be16_def)

lemmas reads_behind = rd8_behind be16_behind
  rd8_behind [where i = 0, simplified] be16_behind [where i = 0, simplified]
  rd8_behind [where i = 1, simplified]

lemma be16_front:
  "be16 (a # b # p) 0 = Some (push_bit 8 (ucast a) OR ucast b)"
  by (simp add: be16_def rd8_def)

lemma rd8_front: "rd8 (a # p) 0 = Some a"
  by (simp add: rd8_def)

lemma skip_byte:
  "rd8 (a # p) (Suc i) = rd8 p i" "be16 (a # p) (Suc i) = be16 p i"
  by (simp_all add: be16_def rd8_def)

lemma skip_byte_numeral:
  "rd8 (a # p) (numeral k) = rd8 p (pred_numeral k)" "be16 (a # p) (numeral k) = be16 p (pred_numeral k)"
  by (simp_all add: numeral_eq_Suc skip_byte)

lemmas seq_reads = be16_front rd8_front skip_byte skip_byte_numeral

lemma length_8: "length xs = 8 \<Longrightarrow> \<exists>a b c d e f g h. xs = [a, b, c, d, e, f, g, h]"
  by (auto simp: numeral_eq_Suc length_Suc_conv)

lemma length_6: "length xs = 6 \<Longrightarrow> \<exists>a b c d e f. xs = [a, b, c, d, e, f]"
  by (auto simp: numeral_eq_Suc length_Suc_conv)

section \<open>Transport\<close>

text \<open>The fields of the flow record the transport header fills.\<close>

fun fill_l4 :: "transport \<Rightarrow> FlowView \<Rightarrow> FlowView" where
  "fill_l4 (TCP sp dp seqs flags win opts payload) f =
     f\<lparr>fv_ip_proto := kProtoTcp, fv_src_port := sp, fv_dst_port := dp, fv_tcp_flags := flags\<rparr>"
| "fill_l4 (UDP sp dp check payload) f = f\<lparr>fv_ip_proto := kProtoUdp, fv_src_port := sp, fv_dst_port := dp\<rparr>"

lemma length_enc_transport:
  "transport_ok t \<Longrightarrow> length (enc_transport t) = header_len t + length (payload_in t)"
  by (cases t) (simp_all add: net16_def)

lemma parseL4_enc:
  assumes "transport_ok t" "length (enc_transport t) < 65536"
  shows "parseL4 (proto_of t) (pre @ enc_transport t @ post) (length pre) (length (enc_transport t)) f =
    Some (fill_l4 t f, Some (length pre + header_len t, length (payload_in t)))"
proof (cases t)
  case (TCP sp dp seqs flags win opts payload)
  with assms(1) obtain k where k: "length opts = 4 * k" "k \<le> 10" by (auto elim!: dvdE)
  from TCP assms(1) obtain a b c d e f g h where [simp]: "seqs = [a, b, c, d, e, f, g, h]"
    using length_8 [of seqs] by auto
  from TCP assms(1) obtain a' b' c' d' e' f' where [simp]: "win = [a', b', c', d', e', f']"
    using length_6 [of win] by auto
  have off: "unat (drop_bit 4 (nibbles (5 + length opts div 4) 0)) * 4 = 20 + length opts"
    using k by (subst nibbles_hi) simp_all
  have "sub32 (20 + length opts + length payload) (20 + length opts) = length payload"
    using TCP assms by (subst sub32_exact) (simp_all add: net16_def)
  then show ?thesis
    unfolding length_enc_transport [OF assms(1)]
    using TCP off by (simp add: parseL4_def reads_behind net16_def seq_reads be16_net16 Let_def)
next
  case (UDP sp dp check payload)
  with assms(1) obtain a b where [simp]: "check = [a, b]"
    by (auto simp: numeral_eq_Suc length_Suc_conv)
  have len: "unat (of_nat (8 + length payload) :: u16) = 8 + length payload"
    using UDP assms by (intro unat_of_nat_u16) (simp add: net16_def)
  have "sub32 (8 + length payload) 8 = length payload"
    using UDP assms by (subst sub32_exact) (simp_all add: net16_def)
  then show ?thesis
    unfolding length_enc_transport [OF assms(1)]
    using UDP len
    by (simp add: parseL4_def reads_behind net16_def seq_reads be16_net16 Let_def
        kProtoTcp_def kProtoUdp_def del: of_nat_add)
qed

section \<open>Internet headers\<close>

lemma unat_ext_len:
  assumes "8 dvd n" "8 \<le> n" "n \<le> 2048"
  shows "(unat (of_nat (n div 8 - 1) :: u8) + 1) * 8 = n"
proof -
  have "n div 8 - 1 < 256" using assms by linarith
  then have "unat (of_nat (n div 8 - 1) :: u8) = n div 8 - 1" by (rule unat_byte)
  then show ?thesis using assms by auto
qed

text \<open>One step of the walk, over one extension header.\<close>

lemma v6_walk_ext:
  assumes "v6_ext_ok e" "length pre + length (enc_v6_ext nxt e) \<le> l3" "l3 < 200000"
  shows "v6_walk (Suc n) (pre @ enc_v6_ext nxt e @ post) l3 f (ext_kind e) (length pre) =
    v6_walk n (pre @ enc_v6_ext nxt e @ post) l3 f nxt (length pre + length (enc_v6_ext nxt e))"
proof (cases e)
  case (Options kind body)
  then have kind: "kind \<noteq> kProtoTcp" "kind \<noteq> kProtoUdp"
      "kind = kV6HopByHop \<or> kind = kV6Routing \<or> kind = kV6DestOpts \<or> kind = kV6Mobility"
    using assms(1)
    by (auto simp: kProtoTcp_def kProtoUdp_def kV6HopByHop_def kV6Routing_def kV6DestOpts_def kV6Mobility_def)
  have "8 \<le> length body + 2" using Options assms(1) by (auto dest: dvd_imp_le)
  then have "(unat (of_nat ((length body + 2) div 8 - 1) :: u8) + 1) * 8 = length body + 2"
    using Options assms(1) by (intro unat_ext_len) simp_all
  moreover have "enc_v6_ext nxt e = [nxt, of_nat ((length body + 2) div 8 - 1)] @ body"
    using Options by simp
  ultimately obtain w where
    w: "enc_v6_ext nxt e = [nxt, w] @ body" "(unat w + 1) * 8 = length body + 2"
    by blast
  have "length pre + 8 + unat w * 8 = length pre + length body + 2" using w(2) by simp
  then have "add32 (length pre) 2 = length pre + 2"
      "add32 (length pre) (8 + unat w * 8) = Suc (Suc (length pre + length body))"
    using Options assms by (simp_all add: add32_exact)
  then show ?thesis
    unfolding w(1) using Options assms kind w
    by (simp add: reads_behind seq_reads Let_def)
next
  case (FirstFragment res frag ident)
  have "add32 (length pre) 8 = length pre + 8"
    using FirstFragment assms by (simp add: add32_exact)
  then show ?thesis
    using FirstFragment assms
    by (simp add: reads_behind seq_reads net16_def be16_net16 kProtoTcp_def kProtoUdp_def kV6Fragment_def
      kV6HopByHop_def kV6Routing_def kV6DestOpts_def kV6Mobility_def)
qed

lemma v6_walk_enc:
  assumes "transport_ok t" "list_all v6_ext_ok exts" "length exts < n"
    "length (enc_chain exts t) < 65536" "length pre + length (enc_chain exts t) < 200000"
  shows "v6_walk n (pre @ enc_chain exts t @ post) (length pre + length (enc_chain exts t)) f
      (next_kind exts t) (length pre) =
    Some (fill_l4 t f,
      Some (length pre + length (enc_chain exts t) - length (payload_in t), length (payload_in t)))"
  using assms
proof (induction exts arbitrary: n pre)
  case Nil
  then obtain m where n: "n = Suc m" by (cases n) auto
  have proto: "proto_of t = kProtoTcp \<or> proto_of t = kProtoUdp" by (cases t) simp_all
  have "sub32 (length pre + length (enc_transport t)) (length pre) = length (enc_transport t)"
    using Nil.prems by (simp add: sub32_exact)
  moreover have "length pre + header_len t =
      length pre + length (enc_transport t) - length (payload_in t)"
    using length_enc_transport [OF Nil.prems(1)] by simp
  ultimately show ?case
    using Nil.prems proto parseL4_enc [OF Nil.prems(1), of pre post f] by (simp add: n)
next
  case (Cons e exts)
  then obtain m where n: "n = Suc m" by (cases n) auto
  let ?h = "enc_v6_ext (next_kind exts t) e"
  have "v6_walk n (pre @ ?h @ (enc_chain exts t @ post)) (length pre + length (enc_chain (e # exts) t)) f
      (ext_kind e) (length pre) =
    v6_walk m ((pre @ ?h) @ enc_chain exts t @ post) (length (pre @ ?h) + length (enc_chain exts t)) f
      (next_kind exts t) (length (pre @ ?h))"
    using Cons.prems v6_walk_ext [of e pre "next_kind exts t" "length pre + length (enc_chain (e # exts) t)" m
        "enc_chain exts t @ post" f]
    by (simp add: n add.assoc)
  also have "\<dots> = Some (fill_l4 t f, Some (length (pre @ ?h) + length (enc_chain exts t)
      - length (payload_in t), length (payload_in t)))"
    using Cons.prems n by (intro Cons.IH) simp_all
  finally show ?case by (simp add: add.assoc)
qed

text \<open>The fields of the flow record the Internet header fills.\<close>

definition fill_l3 :: "ip_header \<Rightarrow> FlowView" where
  "fill_l3 ip = FlowView0\<lparr>fv_ip_version := version_of ip, fv_src_ip := fst (addresses_of ip),
     fv_dst_ip := snd (addresses_of ip)\<rparr>"

lemma memcpy_behind:
  "length q = n \<Longrightarrow> i = length pre \<Longrightarrow> n \<le> length dst \<Longrightarrow>
     memcpy_into dst (pre @ q @ post) i n = Some (q @ drop n dst)"
  by (simp add: memcpy_into_def)

lemma length_2: "length xs = 2 \<Longrightarrow> \<exists>a b. xs = [a, b]"
  by (auto simp: numeral_eq_Suc length_Suc_conv)

lemma length_3: "length xs = 3 \<Longrightarrow> \<exists>a b c. xs = [a, b, c]"
  by (auto simp: numeral_eq_Suc length_Suc_conv)

lemma parseIPv4_enc:
  assumes "ip = IPv4 tos ident frag ttl check src dst opts" "ip_ok ip t" "transport_ok t"
    "length (enc_packet ip t @ pad) < U32_SPAN"
  shows "parseFlow (Some (enc_packet ip t @ pad)) (length (enc_packet ip t @ pad)) =
    Some (fill_l4 t (fill_l3 ip), Some (length (enc_packet ip t) - length (payload_in t), length (payload_in t)))"
proof -
  let ?n = "20 + length opts + length (enc_transport t)"
  let ?len = "?n + length pad"
  from assms obtain k where k: "length opts = 4 * k" "k \<le> 10" by (auto elim!: dvdE)
  from assms obtain i1 i2 c1 c2 where b: "ident = [i1, i2]" "check = [c1, c2]"
    using length_2 [of ident] length_2 [of check] by auto
  define l where "l = (of_nat ?n :: u16)"
  have l: "unat l = ?n" unfolding l_def using assms by (intro unat_of_nat_u16) simp
  define v where "v = nibbles 4 (5 + length opts div 4)"
  have v: "drop_bit 4 v = 4" "unat (v AND 0x0f) * 4 = 20 + length opts"
    unfolding v_def using k nibbles_version [of 4 "5 + k"] nibbles_lo [of 4 "5 + k"] by simp_all
  define pre where "pre = [v, tos] @ net16 l @ ident @ net16 frag @ [ttl, proto_of t] @ check @ src @ dst @ opts"
  have p: "enc_packet ip t = pre @ enc_transport t"
    using assms(1) by (simp add: pre_def v_def l_def)
  have pre: "length pre = 20 + length opts"
    using assms b by (simp add: pre_def net16_def)
  have m: "memcpy_into (replicate 16 0) (pre @ rest) 12 4 = Some (src @ replicate 12 0)"
    "memcpy_into (replicate 16 0) (pre @ rest) 16 4 = Some (dst @ replicate 12 0)" for rest
    using assms b by (simp_all add: pre_def net16_def memcpy_into_def)
  let ?p = "pre @ enc_transport t @ pad"
  have r: "rd8 ?p 0 = Some v" "be16 ?p 6 = Some frag" "be16 ?p 2 = Some l" "rd8 ?p 9 = Some (proto_of t)"
    by (simp_all add: pre_def b net16_def seq_reads be16_net16)
  have sub: "sub32 ?n (20 + length opts) = length (enc_transport t)"
    using assms by (subst sub32_exact) simp_all
  have "parseIPv4 ?p ?len FlowView0 =
      parseL4 (proto_of t) ?p (length pre) (length (enc_transport t)) (fill_l3 ip)"
    using assms(1-2) v(2) l sub
    by (simp add: parseIPv4_def r m Let_def FlowView0_def fill_l3_def pre add.assoc)
  moreover have "parseFlow (Some ?p) ?len = parseIPv4 ?p ?len FlowView0"
    by (simp add: parseFlow_def r v Let_def)
  moreover have "length pre + header_len t = length (pre @ enc_transport t) - length (payload_in t)"
    using length_enc_transport [OF assms(3)] by simp
  moreover have "length (enc_transport t) < 65536" using assms(1,2) by simp
  ultimately show ?thesis
    unfolding p using pre parseL4_enc [OF assms(3), of pre pad "fill_l3 ip"] by (simp add: add.assoc)
qed

lemma parseIPv6_enc:
  assumes "ip = IPv6 flow hops src dst exts" "ip_ok ip t" "transport_ok t"
    "length (enc_packet ip t @ pad) < U32_SPAN"
  shows "parseFlow (Some (enc_packet ip t @ pad)) (length (enc_packet ip t @ pad)) =
    Some (fill_l4 t (fill_l3 ip), Some (length (enc_packet ip t) - length (payload_in t), length (payload_in t)))"
proof -
  let ?c = "enc_chain exts t"
  let ?len = "40 + length ?c + length pad"
  from assms obtain a b c where flow: "flow = [a, b, c]" using length_3 [of flow] by auto
  define l where "l = (of_nat (length ?c) :: u16)"
  have l: "unat l = length ?c" unfolding l_def using assms by (intro unat_of_nat_u16) simp
  have add: "add32 40 (unat l) = 40 + length ?c" unfolding l using assms by (intro add32_exact) simp
  define v where "v = nibbles 6 0"
  have v: "drop_bit 4 v = 6" unfolding v_def using nibbles_version [of 6 0] by simp
  define pre where "pre = [v] @ flow @ net16 l @ [next_kind exts t, hops] @ src @ dst"
  have p: "enc_packet ip t = pre @ ?c"
    using assms(1) by (simp add: pre_def v_def l_def)
  have pre: "length pre = 40"
    using assms by (simp add: pre_def net16_def)
  let ?p = "pre @ ?c @ pad"
  have m: "memcpy_into (replicate 16 0) ?p 8 16 = Some src"
    "memcpy_into (replicate 16 0) ?p 24 16 = Some dst"
    using assms flow by (simp_all add: pre_def net16_def memcpy_into_def)
  have r: "rd8 ?p 0 = Some v" "be16 ?p 4 = Some l" "rd8 ?p 6 = Some (next_kind exts t)"
    by (simp_all add: pre_def flow net16_def seq_reads be16_net16)
  have "parseIPv6 ?p ?len FlowView0 =
      v6_walk kMaxV6ExtHeaders ?p (length pre + length ?c) (fill_l3 ip) (next_kind exts t) (length pre)"
    using assms(1-2) add
    by (simp add: parseIPv6_def r m Let_def FlowView0_def fill_l3_def pre add.assoc)
  moreover have "parseFlow (Some ?p) ?len = parseIPv6 ?p ?len FlowView0"
    by (simp add: parseFlow_def r v Let_def)
  moreover have "list_all v6_ext_ok exts" "length exts < kMaxV6ExtHeaders" "length ?c < 65536"
    using assms(1,2) by simp_all
  ultimately show ?thesis
    unfolding p using pre v6_walk_enc [OF assms(3), of exts kMaxV6ExtHeaders pre pad "fill_l3 ip"]
    by (simp add: add.assoc)
qed

lemma enc_packet_payload:
  "transport_ok t \<Longrightarrow> \<exists>hdr. enc_packet ip t = hdr @ payload_in t"
proof -
  have t: "\<exists>hdr. enc_transport t = hdr @ payload_in t" by (cases t) auto
  have "\<exists>hdr. enc_chain es t = hdr @ payload_in t" for es
  proof (induction es)
    case (Cons e es)
    then show ?case by (metis append.assoc enc_chain.simps(2))
  qed (simp add: t)
  with t show ?thesis by (cases ip) (metis append.assoc enc_packet.simps)+
qed

section \<open>The round trip\<close>

text \<open>
  C16. Dissection reads back what a packet was built from: for every IPv4 packet (with options)
  and every IPv6 packet (with up to seven extension headers) that carries a TCP segment (with
  options) or a UDP datagram, followed by any padding, the dissection succeeds and
  returns its IP version, protocol, addresses, ports, TCP flags and exactly its payload.
\<close>

theorem dissect_enc:
  assumes "ip_ok ip t" "transport_ok t" "buf = enc_packet ip t @ pad" "length buf < U32_SPAN"
  shows "\<exists>f off. dissect (Some buf) (length buf) = Some (True, f) \<and>
    fv_ip_version f = version_of ip \<and> fv_ip_proto f = proto_of t \<and>
    (fv_src_ip f, fv_dst_ip f) = addresses_of ip \<and> (fv_src_port f, fv_dst_port f) = ports_of t \<and>
    fv_tcp_flags f = flags_of t \<and> fv_key f = routeKey f \<and>
    fv_payload f = Some off \<and> take (fv_payload_len f) (drop off buf) = payload_in t"
proof -
  let ?off = "length (enc_packet ip t) - length (payload_in t)" and ?g = "fill_l4 t (fill_l3 ip)"
  obtain hdr where hdr: "enc_packet ip t = hdr @ payload_in t" using enc_packet_payload assms(2) by blast
  have "parseFlow (Some buf) (length buf) = Some (?g, Some (?off, length (payload_in t)))"
    using assms(4) unfolding assms(3)
    by (cases ip) (rule parseIPv4_enc parseIPv6_enc, assumption, rule assms, rule assms, assumption)+
  moreover have "fv_ip_version ?g = version_of ip" "fv_ip_proto ?g = proto_of t"
      "(fv_src_ip ?g, fv_dst_ip ?g) = addresses_of ip" "(fv_src_port ?g, fv_dst_port ?g) = ports_of t"
      "fv_tcp_flags ?g = flags_of t"
    by (cases t; simp add: fill_l3_def FlowView0_def)+
  moreover have "take (length (payload_in t)) (drop ?off buf) = payload_in t"
    by (simp add: assms(3) hdr)
  ultimately show ?thesis
    by (auto simp: dissect_def Let_def intro!: routeKey_cong)
qed

end
