(* ===== verification/Extractor_Idle.thy ===== *)
theory Extractor_Idle
  imports Extractor_Audit
begin

text \<open>
  How long a flow can stay in the table without a packet: the sweep runs at most once a
  second, and it removes what has been idle for too long.
\<close>

section \<open>No entry outlives its limit at a sweep\<close>

definition timely :: "int \<Rightarrow> 'r extractor \<Rightarrow> bool" where
  "timely now s \<longleftrightarrow> x_lastSweep s \<le> now \<and>
     (\<forall>k c. find_conn s k = Some c \<longrightarrow> x_lastSweep s - cn_last c < idle_limit c)"

lemma idle_limit_pos: "0 < idle_limit c"
  by (simp add: idle_limit_def kBlockIdleTimeout_def kWaitIdleTimeout_def)

lemma idle_limit_block: "cn_state c = Block \<Longrightarrow> idle_limit d \<le> idle_limit c"
  by (simp add: idle_limit_def kBlockIdleTimeout_def kWaitIdleTimeout_def)

lemma timely_put:
  assumes "timely now s" "x_lastSweep s - cn_last c < idle_limit c"
  shows "timely now (put_conn k c s)"
  using assms by (simp add: timely_def conn_simps)

lemma timely_find: "timely now s \<Longrightarrow> find_conn s k = Some c \<Longrightarrow> x_lastSweep s - cn_last c < idle_limit c"
  by (simp add: timely_def)

lemma timely_stamp: "timely now s \<Longrightarrow> cn_last c = now \<Longrightarrow> timely now (put_conn k c s)"
  using idle_limit_pos [of c] by (intro timely_put) (auto simp: timely_def)

lemma timely_mono: "timely t s \<Longrightarrow> t \<le> now \<Longrightarrow> timely now s"
  by (simp add: timely_def)

interpretation idle: update_audit W now "timely now" for W now
proof
  fix s :: "'a extractor" and k
  assume "timely now s"
  then show "timely now (put_conn k (Conn0\<lparr>cn_last := now\<rparr>) s)" by (rule timely_stamp) simp
next
  fix s :: "'a extractor" and k and c d :: Conn
  assume s: "timely now s" "find_conn s k = Some d"
  show "timely now (put_conn k c s)" if "cn_state c = cn_state d" "cn_last c = cn_last d \<or> cn_last c = now"
    using that s timely_find [OF s] by (auto simp: idle_limit_def intro: timely_put timely_stamp)
  show "timely now (put_conn k c s)" if "cn_state c = Block" "cn_last c = cn_last d"
    using that s(1) timely_find [OF s] idle_limit_block [of c d] by (auto intro: timely_put)
qed (auto simp: timely_def conn_simps)

lemma tick_timely:
  assumes "world_ok W" "fail_open W" "ready s" "timely t s" "t \<le> now"
  shows "ensures (tick W now s) (\<lambda>s'. timely now s' \<and> now - x_lastSweep s' < kSweepInterval)"
proof (cases "now - x_lastSweep s < kSweepInterval")
  case True
  then show ?thesis using timely_mono [OF assms(4,5)] by (simp add: tick_def)
next
  case False
  let ?s = "s\<lparr>x_lastSweep := now\<rparr>"
  have "ready ?s" using assms(3) by simp
  from sweep_fail_open [OF assms(1,2) this, of now] obtain s' where
    s': "sweep W now ?s = Some s'" "\<And>k. find_conn s' k =
      Option.bind (find_conn s k) (\<lambda>c. if expired_at now c then None else Some c)"
    by (auto simp: ensures_iff)
  moreover have "x_lastSweep s' = now"
    using sweep_mark.P_sweep [of ?s now W now] s'(1) by simp
  ultimately show ?thesis
    using False by (auto simp: tick_def timely_def expired_at_def kSweepInterval_def
        split: Option.bind_splits if_splits)
qed

lemma feed_timely:
  assumes "world_ok W" "fail_open W" "ready s" "timely t s" "t \<le> now"
  shows "preserves (timely now) (feed W now pkt s)"
  using tick_timely [OF assms] by (intro idle.P_feed_ticked) (auto simp: ensures_iff)

lemma new_extractor_timely: "0 \<le> t \<Longrightarrow> timely t (new_extractor r mf mb)"
  by (simp add: timely_def new_extractor_def Let_def)

text \<open>Right after a tick no flow has been idle longer than its limit and a sweep interval.\<close>

definition idle_bounded :: "int \<Rightarrow> 'r extractor \<Rightarrow> bool" where
  "idle_bounded now s \<longleftrightarrow>
     (\<forall>k c. find_conn s k = Some c \<longrightarrow> now - cn_last c < idle_limit c + kSweepInterval)"

lemma timely_idle_bounded:
  "timely now s \<Longrightarrow> now - x_lastSweep s < kSweepInterval \<Longrightarrow> idle_bounded now s"
  by (force simp: timely_def idle_bounded_def)

end
