(* ===== verification/Worker_Idle.thy ===== *)
theory Worker_Idle
  imports Worker_Proofs Extractor_Idle
begin

text \<open>
  The idle bound over the runs of a worker whose clock does not go back: after every turn
  no flow in the table has been without a packet for longer than its limit and one sweep
  interval, so that a held packet is answered within that time.
\<close>

section \<open>The clock of a run\<close>

definition turn_times :: "turn \<Rightarrow> int list" where
  "turn_times t = map fst (t_msgs t) @ [t_now t]"

definition on_time :: "'r world \<Rightarrow> int \<Rightarrow> 'r extractor worker \<Rightarrow> bool" where
  "on_time W t w \<longleftrightarrow> fail_open W \<and> tcp.solvent W w \<and> timely t (snd w)"

lemma on_time_mono: "on_time W t w \<Longrightarrow> t \<le> u \<Longrightarrow> on_time W u w"
  by (auto simp: on_time_def intro: timely_mono)

lemma on_time_ready: "on_time W t w \<Longrightarrow> world_ok W \<and> fail_open W \<and> ready (snd w) \<and> timely t (snd w)"
  by (simp add: on_time_def tcp.solvent_def)

text \<open>All a message does to the extractor is to be fed to it.\<close>

lemma handle_feeds:
  assumes "handle K (worker_callback K (TcpTlsHostnameExtractor W) p now) m (q, x) = Some w'"
  shows "snd w' = x \<or> feed W now (message_packet m) x = Some (snd w')"
  using assms move_packet_pending [of "message_packet m"]
  by (cases p; cases "move_packet (message_packet m)")
    (auto simp: handle_def worker_callback_def Let_def split: Option.bind_splits if_splits prod.splits)

lemma handle_timely:
  assumes "on_time W t w" "message_ok m" "t \<le> now"
  shows "ensures (handle K (worker_callback K (TcpTlsHostnameExtractor W) p now) m w) (on_time W now)"
proof -
  have "tcp.solvent W w" using assms(1) by (simp add: on_time_def)
  from tcp.handle_ok [OF this assms(2), of K p now] obtain w' where
    w': "handle K (worker_callback K (TcpTlsHostnameExtractor W) p now) m w = Some w'"
      "tcp.solvent W w'" by (auto simp: ensures_iff tcp.step_ok_def)
  have "preserves (timely now) (feed W now (message_packet m) (snd w))"
    using on_time_ready [OF assms(1)] assms(3) by (blast intro: feed_timely)
  moreover have "timely now (snd w)" using on_time_mono [OF assms(1,3)] by (simp add: on_time_def)
  ultimately have "timely now (snd w')"
    using handle_feeds [of K W p now m "fst w" "snd w" w'] w'(1) by (auto simp: preserves_def)
  with w' assms(1) show ?thesis by (simp add: on_time_def)
qed

lemma handle_all_timely:
  assumes "on_time W t w" "\<forall>(now, m) \<in> set ms. message_ok m" "sorted (t # map fst ms @ [u])"
  shows "ensures (mfold (\<lambda>(now, nfa). handle K (worker_callback K (TcpTlsHostnameExtractor W) p now) nfa)
    ms w) (on_time W u)"
  using assms
proof (induction ms arbitrary: t w)
  case (Cons nm ms)
  obtain now m where nm: "nm = (now, m)" by (cases nm)
  from handle_timely [OF Cons.prems(1), of m now K p] Cons.prems nm obtain w' where
    "handle K (worker_callback K (TcpTlsHostnameExtractor W) p now) m w = Some w'" "on_time W now w'"
    by (auto simp: ensures_iff)
  with Cons.IH [of now w'] Cons.prems nm show ?case by auto
qed (auto intro: on_time_mono)

lemma turn_timely:
  assumes "on_time W t0 w" "turn_ok t" "sorted (t0 # turn_times t)"
    "worker_turn K (TcpTlsHostnameExtractor W) p t w = Some (False, w')"
  shows "on_time W (t_now t) w' \<and> idle_bounded (t_now t) (snd w')"
proof -
  have le: "t0 \<le> t_now t" using assms(3) by (simp add: turn_times_def)
  obtain q x where w: "w = (q, x)" by (cases w)
  obtain ev q1 x1 where run: "run_once K (worker_callback K (TcpTlsHostnameExtractor W) p) t w =
      Some (ev, q1, x1)" and on: "on_time W (t_now t) (q1, x1)"
  proof (cases "turn_event (nq_stop_fd q) t = Packets")
    case True
    with handle_all_timely [OF assms(1), of "t_msgs t" "t_now t" K p] assms(2,3) w that show ?thesis
      by (auto simp: run_once_packets ensures_iff turn_ok_def turn_times_def)
  next
    case False
    from run_once_quiet [OF this, of K "worker_callback K (TcpTlsHostnameExtractor W) p" x] that w
      on_time_mono [OF assms(1) le] show ?thesis
      by (auto simp: on_time_def tcp.solvent_def)
  qed
  have "ensures (tick W (t_now t) x1) (\<lambda>s. timely (t_now t) s \<and> idle_bounded (t_now t) s)"
    using on_time_ready [OF on]
    by (auto intro!: ensures_mono [OF tick_timely [of W x1 "t_now t"]] intro: timely_idle_bounded)
  then have "timely (t_now t) (snd w') \<and> idle_bounded (t_now t) (snd w')"
    using assms(4) run
    by (auto simp: worker_turn_def drain_decided_def Let_def ensures_iff timely_def idle_bounded_def
        split: if_splits)
  moreover have "tcp.solvent W w'"
    using tcp.worker_turn_ok [of W w t K p] assms(1,2,4) by (simp add: on_time_def tcp.step_ok_def)
  ultimately show ?thesis using assms(1) by (simp add: on_time_def)
qed

lemma loop_timely:
  assumes "on_time W t0 w" "\<forall>t \<in> set ts. turn_ok t" "sorted (t0 # concat (map turn_times ts))"
    "worker_loop K (TcpTlsHostnameExtractor W) p ts w = Some (False, w')" "ts \<noteq> []"
  shows "idle_bounded (t_now (last ts)) (snd w')"
  using assms
proof (induction ts arbitrary: t0 w)
  case (Cons t ts)
  from Cons.prems(4) obtain v where v: "worker_turn K (TcpTlsHostnameExtractor W) p t w = Some (False, v)"
    "worker_loop K (TcpTlsHostnameExtractor W) p ts v = Some (False, w')"
    by (auto split: Option.bind_splits if_splits)
  have "sorted (t0 # turn_times t)" and rest: "sorted (t_now t # concat (map turn_times ts))"
    using Cons.prems(3) by (auto simp: sorted_append turn_times_def [of t])
  with turn_timely [OF Cons.prems(1), of t K p v] Cons.prems(2) v(1)
  have "on_time W (t_now t) v \<and> idle_bounded (t_now t) (snd v)" by simp
  with Cons.IH [of "t_now t" v] Cons.prems(2) rest v(2) show ?case by (cases ts) auto
qed simp

end
