(* ===== verification/Extractor_Isolation.thy ===== *)
theory Extractor_Isolation
  imports Extractor_Audit
begin

text \<open>
  Flows do not influence each other: a packet changes the entry of its own flow, and of the
  others only blocked ones, which it may push out of the table; and what it makes known is
  the fate of packets of its own flow.
\<close>

section \<open>The other flows\<close>

definition others_stay :: "u32 \<Rightarrow> 'r extractor \<Rightarrow> 'r extractor \<Rightarrow> bool" where
  "others_stay key s s' \<longleftrightarrow> (\<forall>k. k \<noteq> key \<longrightarrow> stays (find_conn s k) (find_conn s' k))"

lemma others_stay_refl [simp]: "others_stay key s s"
  by (simp add: others_stay_def)

lemma others_stay_put: "others_stay key s t \<Longrightarrow> others_stay key s (put_conn key c t)"
  by (simp add: others_stay_def conn_simps)

lemma others_stay_erase:
  assumes "others_stay key s t" "k = key \<or> map_option cn_state (find_conn t k) = Some Block"
  shows "others_stay key s (erase_conn k t)"
  unfolding others_stay_def
proof (intro allI impI)
  fix k'
  assume "k' \<noteq> key"
  then have "stays (find_conn s k') (find_conn t k')" using assms(1) by (simp add: others_stay_def)
  moreover have "stays (find_conn t k') (find_conn (erase_conn k t) k')"
    using assms(2) \<open>k' \<noteq> key\<close> by (auto simp: stays_def conn_simps)
  ultimately show "stays (find_conn s k') (find_conn (erase_conn k t) k')" by (rule stays_trans)
qed

interpretation isolated: packet_audit W now "\<lambda>k. k = key" "others_stay key b" for W now key b
  by unfold_locales
    (auto intro: others_stay_put others_stay_erase, auto simp: others_stay_def conn_simps)

lemma feed_others_stay:
  assumes "tcp_packet pkt f" "no_sweep_due now s"
  shows "preserves (others_stay (fv_key f) s) (feed W now pkt s)"
  by (rule isolated.P_feed_ticked)
    (use assms in \<open>auto simp: tcp_packet_def no_sweep_due_def tick_def\<close>)

section \<open>What becomes known\<close>

text \<open>The packets a flow holds, as the ids and obligations that are accounted for.\<close>

definition flow_tags :: "'r extractor \<Rightarrow> u32 \<Rightarrow> (u32 \<times> bool) multiset" where
  "flow_tags s k = (case find_conn s k of None \<Rightarrow> {#} | Some c \<Rightarrow> mset (map tag (cn_held c)))"

lemma held_tags_keys:
  assumes "distinct (map fst (x_conns s))"
  shows "held_tags (x_conns s) = (\<Sum>k\<in>fst ` set (x_conns s). flow_tags s k)"
proof -
  have "distinct (map fst xs) \<Longrightarrow> held_tags xs = (\<Sum>k\<in>fst ` set xs.
      case map_of xs k of None \<Rightarrow> {#} | Some c \<Rightarrow> mset (map tag (cn_held c)))" for xs
  proof (induction xs)
    case (Cons x xs)
    obtain k c where x: "x = (k, c)" by (cases x)
    have "(\<Sum>i\<in>fst ` set xs. case map_of (x # xs) i of None \<Rightarrow> {#} | Some c \<Rightarrow> mset (map tag (cn_held c))) =
       (\<Sum>i\<in>fst ` set xs. case map_of xs i of None \<Rightarrow> {#} | Some c \<Rightarrow> mset (map tag (cn_held c)))"
      using Cons.prems x by (intro sum.cong) auto
    with Cons x show ?case by simp
  qed simp
  with assms show ?thesis by (simp add: flow_tags_def)
qed

lemma held_tags_sum:
  assumes "distinct (map fst (x_conns s))" "finite A" "fst ` set (x_conns s) \<subseteq> A"
  shows "held_tags (x_conns s) = (\<Sum>k\<in>A. flow_tags s k)"
  unfolding held_tags_keys [OF assms(1)] using assms(2,3)
  by (intro sum.mono_neutral_left) (auto simp: flow_tags_def map_of_eq_None_iff [symmetric] split: option.splits)

lemma mset_exchange:
  fixes H :: "'b multiset"
  assumes "H + f' = H' + f" "D + H' = H + p"
  shows "D + f' = f + p"
proof -
  have "(D + f') + (H + H') = (D + H') + (H + f')" by (simp add: ac_simps)
  also have "\<dots> = (f + p) + (H + H')" unfolding assms by (simp add: ac_simps)
  finally show ?thesis by simp
qed

text \<open>Two tables that differ in the packets of one flow only.\<close>

lemma held_tags_exchange:
  fixes s t :: "'r extractor"
  assumes "distinct (map fst (x_conns s))" "distinct (map fst (x_conns t))"
    "\<And>k. k \<noteq> key \<Longrightarrow> flow_tags t k = flow_tags s k"
  shows "held_tags (x_conns s) + flow_tags t key = held_tags (x_conns t) + flow_tags s key"
proof -
  let ?A = "insert key (fst ` set (x_conns s) \<union> fst ` set (x_conns t))"
  have "(\<Sum>k\<in>?A. flow_tags u k) = flow_tags u key + (\<Sum>k\<in>?A - {key}. flow_tags u k)"
    for u :: "'r extractor"
    by (rule sum.remove) auto
  moreover have "(\<Sum>k\<in>?A - {key}. flow_tags t k) = (\<Sum>k\<in>?A - {key}. flow_tags s k)"
    using assms(3) by (intro sum.cong) auto
  moreover have "held_tags (x_conns s) = (\<Sum>k\<in>?A. flow_tags s k)"
    "held_tags (x_conns t) = (\<Sum>k\<in>?A. flow_tags t k)"
    using assms(1,2) by (intro held_tags_sum; auto)+
  ultimately show ?thesis by (simp add: ac_simps)
qed

lemma others_stay_tags:
  assumes "others_stay key s t" "xinv {} s" "k \<noteq> key"
  shows "flow_tags t k = flow_tags s k"
proof -
  have "cn_held c = []" if "find_conn s k = Some c" "cn_state c = Block" for c
    using that conn_ok_block [of c] table_find [of "{}" s k c] assms(2) by (auto simp: xinv_def)
  with assms(1,3) show ?thesis
    by (auto simp: others_stay_def stays_def flow_tags_def split: option.splits)
qed

text \<open>
  C12. Flows are isolated. When no sweep is due, a TCP packet leaves every entry but its own flow's as it is,
  except that a blocked one may be forgotten, and the packets it causes to be decided,
  together with those its flow still holds, are those its flow held and the packet itself.
\<close>

theorem feed_isolated:
  assumes "world_ok W" "ready s" "tcp_packet pkt f" "no_sweep_due now s"
  shows "ensures (feed W now pkt s) (\<lambda>s'.
    (\<forall>k. k \<noteq> fv_key f \<longrightarrow> stays (find_conn s k) (find_conn s' k)) \<and>
    (\<exists>ds. x_decided s' = x_decided s @ ds \<and>
       mset (map (\<lambda>d. tag (dc_pkt d)) ds) + flow_tags s' (fv_key f) = flow_tags s (fv_key f) + {#tag pkt#}))"
proof -
  let ?key = "fv_key f"
  have "packet_wf pkt" using assms(3) by (simp add: tcp_packet_def)
  from feed_safe [OF assms(1,2) this] obtain s' where
    s': "feed W now pkt s = Some s'" "ready s'" "accounts {#tag pkt#} s s'"
    by (auto simp: ensures_iff)
  have others: "others_stay ?key s s'"
    using feed_others_stay [OF assms(3,4), of W] s'(1) by simp
  obtain ds where ds: "x_decided s' = x_decided s @ ds"
    using s'(3) by (auto simp: accounts_def prefix_def)
  have inv: "xinv {} s" "xinv {} s'" using assms(2) s'(2) by (simp_all add: ready_def)
  then have "held_tags (x_conns s) + flow_tags s' ?key = held_tags (x_conns s') + flow_tags s ?key"
    using others_stay_tags [OF others inv(1)]
    by (intro held_tags_exchange) (auto simp: xinv_def table_ok_def)
  moreover have "mset (map (\<lambda>d. tag (dc_pkt d)) ds) + held_tags (x_conns s') =
      held_tags (x_conns s) + {#tag pkt#}"
    using s'(3) ds by (simp add: accounts_def debt_def ac_simps)
  ultimately have "mset (map (\<lambda>d. tag (dc_pkt d)) ds) + flow_tags s' ?key = flow_tags s ?key + {#tag pkt#}"
    by (rule mset_exchange)
  with s'(1) others ds show ?thesis by (auto simp: others_stay_def)
qed

end
