(* ===== verification/Connection.thy ===== *)
theory Connection
  imports Extractor_Isolation
begin

text \<open>
  A connection from its first packet to its verdict: a client SYN, then the segments of the
  ClientHello in order, with packets of other flows in between. The reassembler is assumed
  to hand over the bytes of each segment as it arrives; what follows is that the segments
  are held and then get one verdict, whatever else the extractor is fed meanwhile.
\<close>

section \<open>Arrivals\<close>

text \<open>A segment of the connection with the client's bytes it carries, or another flow's packet.\<close>

datatype arrival =
    Own int Packet bytes
  | Other int Packet

fun fed :: "'r world \<Rightarrow> arrival \<Rightarrow> 'r extractor \<Rightarrow> 'r extractor option" where
  "fed W (Own now pkt data) s = feed W now pkt s"
| "fed W (Other now pkt) s = feed W now pkt s"

definition feed_all :: "'r world \<Rightarrow> arrival list \<Rightarrow> 'r extractor \<Rightarrow> 'r extractor option" where
  "feed_all W as s = mfold (fed W) as s"

fun own_packets :: "arrival list \<Rightarrow> Packet list" where
  "own_packets [] = []"
| "own_packets (Own now pkt data # as) = pkt # own_packets as"
| "own_packets (Other now pkt # as) = own_packets as"

fun stream_of :: "arrival list \<Rightarrow> bytes" where
  "stream_of [] = []"
| "stream_of (Own now pkt data # as) = data @ stream_of as"
| "stream_of (Other now pkt # as) = stream_of as"

definition own_segment :: "u32 \<Rightarrow> Packet \<Rightarrow> bool" where
  "own_segment key pkt \<longleftrightarrow> packet_wf pkt \<and> has_bytes pkt \<and>
     (case flow_view pkt of
        Some (True, f) \<Rightarrow> fv_ip_proto f = kProtoTcp \<and> fv_key f = key \<and> fv_payload_len f > 0
      | _ \<Rightarrow> False)"

definition other_flow :: "u32 \<Rightarrow> Packet \<Rightarrow> bool" where
  "other_flow key pkt \<longleftrightarrow> packet_wf pkt \<and>
     (case flow_view pkt of Some (True, f) \<Rightarrow> fv_key f \<noteq> key | _ \<Rightarrow> True)"

text \<open>
  The arrivals come between two sweeps, and for each segment the reassembler hands over the
  client's bytes it carries and does not end the connection.
\<close>

fun in_order :: "'r world \<Rightarrow> u32 \<Rightarrow> arrival list \<Rightarrow> 'r extractor \<Rightarrow> bool" where
  "in_order W key [] s = True"
| "in_order W key (Own now pkt data # as) s =
     (let es = snd (w_reassemble W (x_reassembly s) (take (pk_len pkt) (the (packet_data pkt)))) in
      no_sweep_due now s \<and> own_segment key pkt \<and> ConnectionEnd \<notin> set es \<and> client_bytes es = data \<and>
      (case feed W now pkt s of None \<Rightarrow> False | Some s' \<Rightarrow> in_order W key as s'))"
| "in_order W key (Other now pkt # as) s =
     (no_sweep_due now s \<and> other_flow key pkt \<and>
      (case feed W now pkt s of None \<Rightarrow> False | Some s' \<Rightarrow> in_order W key as s'))"

lemma own_segmentE:
  assumes "own_segment key pkt"
  obtains f where "tcp_packet pkt f" "fv_key f = key" "fv_payload_len f > 0"
  using assms
  by (auto simp: own_segment_def tcp_packet_def split: option.splits prod.splits bool.splits)

lemma in_order_append:
  "in_order W key (as @ bs) s \<longleftrightarrow> in_order W key as s \<and>
     (case feed_all W as s of None \<Rightarrow> False | Some s' \<Rightarrow> in_order W key bs s')"
proof (induction as arbitrary: s)
  case (Cons a as)
  then show ?case
    by (cases a) (auto simp: feed_all_def Let_def split: option.splits)
qed (simp add: feed_all_def)

text \<open>
  A reassembler that hands over each segment's bytes in whatever state it is makes every such
  sequence of arrivals one in order.
\<close>

fun fits :: "'r world \<Rightarrow> u32 \<Rightarrow> int \<Rightarrow> arrival \<Rightarrow> bool" where
  "fits W key swept (Own now pkt data) \<longleftrightarrow> now - swept < kSweepInterval \<and> own_segment key pkt \<and>
     (\<forall>r. let es = snd (w_reassemble W r (take (pk_len pkt) (the (packet_data pkt)))) in
        ConnectionEnd \<notin> set es \<and> client_bytes es = data)"
| "fits W key swept (Other now pkt) \<longleftrightarrow> now - swept < kSweepInterval \<and> other_flow key pkt"

lemma feed_keeps_mark:
  assumes "no_sweep_due now s" "feed W now pkt s = Some s'"
  shows "x_lastSweep s' = x_lastSweep s"
proof -
  have "preserves (\<lambda>t. x_lastSweep t = x_lastSweep s) (feed W now pkt s)"
    by (rule sweep_mark.P_feed_ticked) (use assms in \<open>auto simp: tick_def no_sweep_due_def\<close>)
  with assms(2) show ?thesis by simp
qed

lemma in_order_fits:
  assumes "world_ok W" "ready s" "list_all (fits W key (x_lastSweep s)) as"
  shows "in_order W key as s"
  using assms
proof (induction as arbitrary: s)
  case (Cons a as)
  have step: "\<exists>s'. feed W now pkt s = Some s' \<and> in_order W key as s'"
    if now: "no_sweep_due now s" and wf: "packet_wf pkt" for now pkt
  proof -
    obtain s' where s': "feed W now pkt s = Some s'" "ready s'"
      using feed_safe [OF Cons.prems(1,2) wf, of now] by (auto simp: ensures_iff)
    with Cons.IH [OF Cons.prems(1) s'(2)] Cons.prems(3) feed_keeps_mark [OF now s'(1)]
    show ?thesis by simp
  qed
  show ?case
  proof (cases a)
    case (Own now pkt data)
    with Cons.prems(3) step [of now pkt] show ?thesis
      by (auto simp: Let_def no_sweep_due_def own_segment_def)
  next
    case (Other now pkt)
    with Cons.prems(3) step [of now pkt] show ?thesis
      by (auto simp: no_sweep_due_def other_flow_def)
  qed
qed simp

section \<open>Packets of other flows\<close>

text \<open>An undecided flow's entry is not touched by what happens to others.\<close>

interpretation bystander: packet_audit W now "\<lambda>k. k \<noteq> key"
    "\<lambda>s. find_conn s key = Some c \<and> cn_state c = Wait" for W now key c
  by unfold_locales (auto simp: conn_simps)

lemma feed_other:
  assumes "no_sweep_due now s" "other_flow key pkt" "find_conn s key = Some c" "cn_state c = Wait"
    "feed W now pkt s = Some s'"
  shows "find_conn s' key = Some c"
proof -
  have "preserves (\<lambda>s. find_conn s key = Some c \<and> cn_state c = Wait) (feed W now pkt s)"
    by (rule bystander.P_feed_ticked)
      (use assms in \<open>auto simp: tick_def no_sweep_due_def other_flow_def\<close>)
  with assms(5) show ?thesis by simp
qed

section \<open>While the ClientHello is incomplete\<close>

lemma need_more_prefix:
  assumes "hostname_in (p @ q) = Some NeedMore" "length (p @ q) < U32_SPAN"
  shows "hostname_in p = Some NeedMore"
proof -
  obtain r where "hostname_in p = Some r" using hostname_in_defined [of p] assms(2) by auto
  with hostname_in_stable [OF assms(2) this] assms(1) show ?thesis by (cases "r = NeedMore") auto
qed

text \<open>One segment that leaves the ClientHello incomplete.\<close>

lemma segment_held:
  assumes "world_ok W" "ready s" "find_conn s key = Some c" "cn_state c = Wait"
    "length (cn_held c) < kMaxPacketsPerConn" "in_order W key [Own now pkt data] s"
    "hostname_in (cn_stream c @ data) = Some NeedMore"
    "length (cn_stream c @ data) \<le> kMaxStreamBytes"
  shows "ensures (feed W now pkt s) (\<lambda>s'. ready s' \<and> (\<exists>c'. find_conn s' key = Some c' \<and>
    cn_state c' = Wait \<and> cn_held c' = cn_held c @ [release_bytes pkt] \<and> cn_stream c' = cn_stream c @ data))"
proof -
  from assms(6) obtain f where f: "tcp_packet pkt f" "fv_key f = key" "fv_payload_len f > 0"
    by (auto simp: Let_def elim: own_segmentE)
  obtain r es where es: "w_reassemble W (x_reassembly s) (take (pk_len pkt) (the (packet_data pkt))) = (r, es)"
    by fastforce
  then have "no_sweep_due now s" "ConnectionEnd \<notin> set es" "client_bytes es = data"
    using assms(6) by (simp_all add: Let_def)
  then have "ensures (feed W now pkt s) (still_waiting key c pkt now data s)"
    using feed_decides [OF assms(2) f(1) _ _ assms(4,5) f(3) es assms(1)] f(2) assms(3,7,8) by simp
  moreover have "packet_wf pkt" using f(1) by (simp add: tcp_packet_def)
  ultimately show ?thesis
    using feed_safe [OF assms(1,2), of pkt now] by (auto simp: ensures_iff still_waiting_def)
qed

lemma segments_held:
  assumes "world_ok W" "ready s" "find_conn s key = Some c" "cn_state c = Wait"
    "in_order W key as s" "hostname_in (cn_stream c @ stream_of as) = Some NeedMore"
    "length (cn_stream c @ stream_of as) \<le> kMaxStreamBytes"
    "length (cn_held c) + length (own_packets as) \<le> kMaxPacketsPerConn"
  shows "ensures (feed_all W as s) (\<lambda>s'. ready s' \<and> (\<exists>c'. find_conn s' key = Some c' \<and>
    cn_state c' = Wait \<and> cn_held c' = cn_held c @ map release_bytes (own_packets as) \<and>
    cn_stream c' = cn_stream c @ stream_of as))"
  using assms
proof (induction as arbitrary: s c)
  case Nil
  then show ?case by (simp add: feed_all_def)
next
  case (Cons a as)
  show ?case
  proof (cases a)
    case (Own now pkt data)
    have "length ((cn_stream c @ data) @ stream_of as) < U32_SPAN"
      using Cons.prems(7) Own by (simp add: kMaxStreamBytes_def)
    then have "hostname_in (cn_stream c @ data) = Some NeedMore"
      using need_more_prefix Cons.prems(6) Own by simp
    moreover have "in_order W key [Own now pkt data] s"
      using Cons.prems(5) Own by (auto simp: Let_def split: option.splits)
    ultimately obtain s1 c1 where s1: "feed W now pkt s = Some s1" "ready s1"
      "find_conn s1 key = Some c1" "cn_state c1 = Wait" "cn_held c1 = cn_held c @ [release_bytes pkt]"
      "cn_stream c1 = cn_stream c @ data"
      using segment_held [OF Cons.prems(1-4), of now pkt data] Cons.prems(7,8) Own
      by (auto simp: ensures_iff)
    have "ensures (feed_all W as s1) (\<lambda>s'. ready s' \<and> (\<exists>c'. find_conn s' key = Some c' \<and>
        cn_state c' = Wait \<and> cn_held c' = cn_held c1 @ map release_bytes (own_packets as) \<and>
        cn_stream c' = cn_stream c1 @ stream_of as))"
      using Cons.prems Own s1 by (intro Cons.IH) (auto simp: Let_def)
    with Own s1 show ?thesis by (simp add: feed_all_def)
  next
    case (Other now pkt)
    then obtain s1 where s1: "feed W now pkt s = Some s1" "in_order W key as s1"
      using Cons.prems(5) by (auto split: option.splits)
    have "packet_wf pkt" using Cons.prems(5) Other by (simp add: other_flow_def)
    then have "ready s1" using feed_safe [OF Cons.prems(1,2), of pkt now] s1(1) by simp
    moreover have "find_conn s1 key = Some c"
      using feed_other [OF _ _ Cons.prems(3,4) s1(1)] Cons.prems(5) Other by simp
    ultimately have "ensures (feed_all W as s1) (\<lambda>s'. ready s' \<and> (\<exists>c'. find_conn s' key = Some c' \<and>
        cn_state c' = Wait \<and> cn_held c' = cn_held c @ map release_bytes (own_packets as) \<and>
        cn_stream c' = cn_stream c @ stream_of as))"
      using Cons.prems Other s1 by (intro Cons.IH) auto
    with Other s1 show ?thesis by (simp add: feed_all_def)
  qed
qed

section \<open>The verdict\<close>

lemma segments_decided:
  assumes "world_ok W" "ready s" "find_conn s key = Some c" "cn_state c = Wait"
    "in_order W key (as @ [Own now pkt data]) s"
    "hostname_in (cn_stream c @ stream_of as) = Some NeedMore"
    "hostname_in (cn_stream c @ stream_of as @ data) = Some r" "r \<noteq> NeedMore"
    "length (cn_stream c @ stream_of as @ data) \<le> kMaxStreamBytes"
    "length (cn_held c) + length (own_packets as) < kMaxPacketsPerConn"
  shows "ensures (feed_all W as s) (\<lambda>mid. ensures (feed W now pkt mid) (settled W key
    (c\<lparr>cn_held := cn_held c @ map release_bytes (own_packets as) @ [pkt]\<rparr>) (asked_for r) mid))"
proof -
  obtain mid c' where mid: "feed_all W as s = Some mid" "ready mid" "find_conn mid key = Some c'"
    "cn_state c' = Wait" "cn_held c' = cn_held c @ map release_bytes (own_packets as)"
    "cn_stream c' = cn_stream c @ stream_of as"
    using segments_held [OF assms(1-4), of as] assms(5-10) by (auto simp: ensures_iff in_order_append)
  have last: "in_order W key [Own now pkt data] mid"
    using assms(5) mid(1) by (simp add: in_order_append)
  then obtain f where f: "tcp_packet pkt f" "fv_key f = key" "fv_payload_len f > 0"
    by (auto simp: Let_def elim: own_segmentE)
  obtain r' es where es: "w_reassemble W (x_reassembly mid) (take (pk_len pkt) (the (packet_data pkt))) = (r', es)"
    by fastforce
  then have "no_sweep_due now mid" "ConnectionEnd \<notin> set es" "client_bytes es = data"
    using last by (simp_all add: Let_def)
  then have "ensures (feed W now pkt mid)
      (settled W key (c'\<lparr>cn_held := cn_held c' @ [pkt]\<rparr>) (asked_for r) mid)"
    using feed_decides [OF mid(2) f(1) _ _ mid(4) _ f(3) es assms(1)] f(2) mid assms(7-10)
    by (cases r) simp_all
  moreover have "settled W key (c'\<lparr>cn_held := cn_held c' @ [pkt]\<rparr>) h mid = settled W key
      (c\<lparr>cn_held := cn_held c @ map release_bytes (own_packets as) @ [pkt]\<rparr>) h mid" for h
    by (rule ext) (simp add: settled_def mid(5))
  ultimately show ?thesis using mid(1) by simp
qed

section \<open>The client SYN\<close>

text \<open>A SYN opens an empty entry and is let through.\<close>

text \<open>
  The SYN of a connection that is not in the table, when the table has room; the reassembler
  hands over nothing for it.
\<close>

definition syn_opens :: "'r world \<Rightarrow> int \<Rightarrow> Packet \<Rightarrow> FlowView \<Rightarrow> 'r extractor \<Rightarrow> bool" where
  "syn_opens W now pkt f s \<longleftrightarrow>
     (let es = snd (w_reassemble W (x_reassembly s) (take (pk_len pkt) (the (packet_data pkt)))) in
      tcp_packet pkt f \<and> no_sweep_due now s \<and> find_conn s (fv_key f) = None \<and> isClientSyn f \<and>
      length (x_conns s) < x_max_flows s \<and> fv_payload_len f = 0 \<and>
      ConnectionEnd \<notin> set es \<and> client_bytes es = [])"

lemma client_syn_flag:
  assumes "isClientSyn f"
  shows "fv_tcp_flags f AND (kTcpSyn OR kTcpFin OR kTcpRst) \<noteq> 0"
proof
  assume z: "fv_tcp_flags f AND (kTcpSyn OR kTcpFin OR kTcpRst) = 0"
  have "fv_tcp_flags f AND kTcpSyn = (fv_tcp_flags f AND (kTcpSyn OR kTcpFin OR kTcpRst)) AND kTcpSyn"
    by (rule bit_word_eqI) (auto simp: bit_simps)
  then show False using assms z by (simp add: isClientSyn_def)
qed

lemma feed_syn:
  assumes "world_ok W" "ready s" "tcp_packet pkt f" "no_sweep_due now s" "find_conn s (fv_key f) = None"
    "isClientSyn f" "length (x_conns s) < x_max_flows s" "fv_payload_len f = 0"
    "w_reassemble W (x_reassembly s) (take (pk_len pkt) (the (packet_data pkt))) = (r, es)"
    "ConnectionEnd \<notin> set es" "client_bytes es = []"
  shows "ensures (feed W now pkt s) (\<lambda>s'. ready s' \<and>
    x_decided s' = x_decided s @ [\<lparr>dc_pkt = pkt, dc_verdict = ALLOW\<rparr>] \<and> x_asked s' = x_asked s \<and>
    (\<exists>c. find_conn s' (fv_key f) = Some c \<and> cn_state c = Wait \<and> cn_held c = [] \<and> cn_stream c = []))"
proof -
  let ?key = "fv_key f" and ?c = "Conn0\<lparr>cn_last := now\<rparr>"
  let ?s = "put_conn ?key ?c s"
  obtain b where b: "packet_data pkt = Some b"
    using assms(3) by (auto simp: tcp_packet_def has_bytes_def)
  note fl = client_syn_flag [OF assms(6)]
  have new: "ready (put_conn ?key Conn0 s)" using track_ok [OF assms(2,5,7)] by simp
  then have "xinv {} (put_conn ?key Conn0 s)" by (simp add: ready_def)
  from put_ok [OF this, of ?key Conn0 ?c "{}"] have inv: "xinv {} ?s"
    using conn_ok_Conn0 by (simp add: conn_simps put_put)
  let ?n = "put_conn ?key Conn0 s"
  have n: "find_conn ?n ?key = Some Conn0" "cn_state Conn0 = Wait" "cn_held Conn0 = []" "no_sweep_due now ?n"
    using assms(4) by (simp_all add: conn_simps Conn0_def no_sweep_due_def)
  have "feed_tracked W now f pkt ?n = map_option (decide pkt ALLOW) (reassemble W ?key (take (pk_len pkt) b) ?s)"
    using n(1,3) assms(8) b fl
    by (simp add: feed_tracked_def put_put kMaxPacketsPerConn_def Let_def map_conv_bind_option comp_def)
  then have run: "feed W now pkt s = map_option (\<lambda>t. publish (decide pkt ALLOW t))
      (reassemble W ?key (take (pk_len pkt) b) ?s)"
    unfolding feed_opens [OF assms(3-5) disjI1 [OF assms(6)] assms(7)] feed_tcp [OF assms(3) n(4)]
    using n(1,2) by (simp add: routed_def option.map_comp comp_def)
  have "hostname_in (cn_stream ?c @ []) = Some NeedMore"
    using conn_ok_Conn0 by (simp add: conn_ok_def Conn0_def)
  then have "ensures (reassemble W ?key (take (pk_len pkt) b) ?s) (waiting ?key ?c [] ?s)"
    using reassemble_outcome [OF inv, of ?key ?c W _ r es] assms(9-11) b
    by (simp add: conn_simps Conn0_def outcome_waiting kMaxStreamBytes_def)
  then have "ensures (feed W now pkt s) (\<lambda>s'. x_decided s' = x_decided s @ [\<lparr>dc_pkt = pkt, dc_verdict = ALLOW\<rparr>] \<and>
      x_asked s' = x_asked s \<and>
      (\<exists>c. find_conn s' ?key = Some c \<and> cn_state c = Wait \<and> cn_held c = [] \<and> cn_stream c = []))"
    unfolding run ensures_map_option
    by (rule ensures_mono) (auto simp: waiting_def conn_simps Conn0_def)
  moreover have "packet_wf pkt" using assms(3) by (simp add: tcp_packet_def)
  ultimately show ?thesis
    using feed_safe [OF assms(1,2), of pkt now] by (auto simp: ensures_iff)
qed

lemma syn_opened:
  assumes "world_ok W" "ready s" "syn_opens W now pkt f s"
  shows "ensures (feed W now pkt s) (\<lambda>s'. ready s' \<and>
    x_decided s' = x_decided s @ [\<lparr>dc_pkt = pkt, dc_verdict = ALLOW\<rparr>] \<and> x_asked s' = x_asked s \<and>
    (\<exists>c. find_conn s' (fv_key f) = Some c \<and> cn_state c = Wait \<and> cn_held c = [] \<and> cn_stream c = []))"
  using feed_syn [OF assms(1,2), of pkt f now] assms(3)
  by (cases "w_reassemble W (x_reassembly s) (take (pk_len pkt) (the (packet_data pkt)))")
    (simp add: syn_opens_def Let_def)

end
