(* ===== verification/Extractor_Flows.thy ===== *)
theory Extractor_Flows
  imports Extractor_Reentry
begin

text \<open>
  The states of a flow as \<^verbatim>\<open>include/hostname_extractor.hpp\<close> describes them, as an abstract
  machine, and that the extractor implements it. A flow is unknown, undecided with the packets
  it waits with, or decided against; the machine says which steps a packet, the passing of
  time and the shutdown may take. The reassembler, buffers, ring, timers and
  tokens are absent from it.
\<close>

section \<open>The machine\<close>

type_synonym packet_tag = "u32 \<times> bool"

datatype flow = Untracked | Undecided "packet_tag list" | Blocked

record inspection =
  in_flows :: "u32 \<Rightarrow> flow"
  in_asked :: "string option list"
  in_said :: "(packet_tag \<times> Verdict) list"

definition fresh_inspection :: inspection where
  "fresh_inspection = \<lparr>in_flows = (\<lambda>_. Untracked), in_asked = [], in_said = []\<rparr>"

definition set_flow :: "u32 \<Rightarrow> flow \<Rightarrow> inspection \<Rightarrow> inspection" where
  "set_flow k f a = a\<lparr>in_flows := (in_flows a)(k := f)\<rparr>"

definition say :: "packet_tag list \<Rightarrow> Verdict \<Rightarrow> inspection \<Rightarrow> inspection" where
  "say ts v a = a\<lparr>in_said := in_said a @ map (\<lambda>t. (t, v)) ts\<rparr>"

definition settle_flow ::
    "(string option \<Rightarrow> Verdict) \<Rightarrow> u32 \<Rightarrow> string option \<Rightarrow> packet_tag list \<Rightarrow> inspection \<Rightarrow> inspection" where
  "settle_flow D k h ts a =
     say ts (D h) (set_flow k (if D h = BLOCK then Blocked else Untracked)
       (a\<lparr>in_asked := in_asked a @ [h]\<rparr>))"

text \<open>
  The steps, for the policy \<open>D\<close> and the flow and packet at hand, if any. A packet may open its
  flow, join those its flow waits with, be let through, or be dropped if its flow is blocked,
  and its flow may be settled with any answer of the parser. At any time
  a flow that waits may be settled without a name, and a blocked one forgotten.
\<close>

inductive flow_step ::
    "(string option \<Rightarrow> Verdict) \<Rightarrow> (u32 \<times> packet_tag) option \<Rightarrow> inspection \<Rightarrow> inspection \<Rightarrow> bool"
  for D inp where
  opened: "inp = Some (k, p) \<Longrightarrow> in_flows a k = Untracked \<Longrightarrow> flow_step D inp a (set_flow k (Undecided []) a)"
| joined: "inp = Some (k, p) \<Longrightarrow> in_flows a k = Undecided ts \<Longrightarrow>
    flow_step D inp a (set_flow k (Undecided (ts @ [p])) a)"
| passed: "inp = Some (k, p) \<Longrightarrow> flow_step D inp a (say [p] ALLOW a)"
| dropped: "inp = Some (k, p) \<Longrightarrow> in_flows a k = Blocked \<Longrightarrow> flow_step D inp a (say [p] BLOCK a)"
| settled: "inp = Some (k, p) \<Longrightarrow> in_flows a k = Undecided ts \<Longrightarrow> flow_step D inp a (settle_flow D k h ts a)"
| expired: "in_flows a k = Undecided ts \<Longrightarrow> flow_step D inp a (settle_flow D k None ts a)"
| forgotten: "in_flows a k = Blocked \<Longrightarrow> flow_step D inp a (set_flow k Untracked a)"

abbreviation flow_steps ::
    "(string option \<Rightarrow> Verdict) \<Rightarrow> (u32 \<times> packet_tag) option \<Rightarrow> inspection \<Rightarrow> inspection \<Rightarrow> bool" where
  "flow_steps D inp \<equiv> (flow_step D inp)\<^sup>*\<^sup>*"

lemmas flow_defs = set_flow_def say_def settle_flow_def

text \<open>Nothing said is taken back, and whoever is dropped or blocked has a blocked name to blame.\<close>

lemma flow_steps_say:
  assumes "flow_steps D inp a b"
  shows "prefix (in_asked a) (in_asked b) \<and> prefix (in_said a) (in_said b)"
  using assms
proof (induction rule: rtranclp_induct)
  case (step b c)
  from step.hyps(2) have "prefix (in_asked b) (in_asked c) \<and> prefix (in_said b) (in_said c)"
    by cases (simp_all add: flow_defs)
  with step.IH show ?case by (auto intro: prefix_order.trans)
qed simp

definition blamed :: "(string option \<Rightarrow> Verdict) \<Rightarrow> inspection \<Rightarrow> bool" where
  "blamed D a \<longleftrightarrow> ((\<exists>k. in_flows a k = Blocked) \<or> BLOCK \<in> snd ` set (in_said a) \<longrightarrow>
     (\<exists>h\<in>set (in_asked a). D h = BLOCK))"

lemma flow_steps_blamed:
  assumes "flow_steps D inp a b" "blamed D a"
  shows "blamed D b"
  using assms
proof (induction rule: rtranclp_induct)
  case (step b c)
  then have "blamed D b" by simp
  with step.hyps(2) show ?case
    by cases (auto simp: blamed_def flow_defs split: if_splits)
qed simp

section \<open>The extractor's view of it\<close>

definition flow_of :: "Conn option \<Rightarrow> flow" where
  "flow_of e =
     (case e of
        None \<Rightarrow> Untracked
      | Some c \<Rightarrow> (case cn_state c of Wait \<Rightarrow> Undecided (map tag (cn_held c)) | Block \<Rightarrow> Blocked))"

definition inspection_of :: "'r extractor \<Rightarrow> inspection" where
  "inspection_of s = \<lparr>in_flows = (\<lambda>k. flow_of (find_conn s k)), in_asked = x_asked s,
     in_said = map (\<lambda>d. (tag (dc_pkt d), dc_verdict d)) (x_decided s)\<rparr>"

lemma flow_of_simps [simp]:
  "flow_of None = Untracked" "cn_state c = Block \<Longrightarrow> flow_of (Some c) = Blocked"
  "cn_state c = Wait \<Longrightarrow> flow_of (Some c) = Undecided (map tag (cn_held c))"
  by (simp_all add: flow_of_def)

lemma flow_of_cong:
  "cn_state c = cn_state d \<Longrightarrow> map tag (cn_held c) = map tag (cn_held d) \<Longrightarrow>
   flow_of (Some c) = flow_of (Some d)"
  by (cases "cn_state d") simp_all

lemma inspection_fields [simp]:
  "in_flows (inspection_of s) k = flow_of (find_conn s k)"
  "in_asked (inspection_of s) = x_asked s"
  by (simp_all add: inspection_of_def)

lemma inspection_cong:
  "x_conns t = x_conns s \<Longrightarrow> x_decided t = x_decided s \<Longrightarrow> x_asked t = x_asked s \<Longrightarrow>
   inspection_of t = inspection_of s"
  by (simp add: inspection_of_def)

lemma inspection_put: "inspection_of (put_conn k c s) = set_flow k (flow_of (Some c)) (inspection_of s)"
  by (auto simp: inspection_of_def set_flow_def conn_simps)

lemma inspection_erase: "inspection_of (erase_conn k s) = set_flow k Untracked (inspection_of s)"
  by (auto simp: inspection_of_def set_flow_def conn_simps)

lemma inspection_decide: "inspection_of (decide p v s) = say [tag p] v (inspection_of s)"
  by (simp add: inspection_of_def say_def conn_simps)

lemma inspection_decide_all:
  "inspection_of (foldl (\<lambda>t p. decide p v t) s ps) = say (map tag ps) v (inspection_of s)"
  by (simp add: inspection_of_def say_def decide_all)

lemma inspection_put_same:
  "find_conn s k = Some d \<Longrightarrow> flow_of (Some c) = flow_of (Some d) \<Longrightarrow>
   inspection_of (put_conn k c s) = inspection_of s"
  by (simp add: inspection_put set_flow_def fun_upd_idem_iff)

section \<open>Each operation takes steps of the machine\<close>

text \<open>\<open>implements D inp a\<close>: the machine has come from \<open>a\<close> to the extractor's state.\<close>

definition implements ::
    "(string option \<Rightarrow> Verdict) \<Rightarrow> (u32 \<times> packet_tag) option \<Rightarrow> inspection \<Rightarrow> 'r extractor \<Rightarrow> bool" where
  "implements D inp a s \<longleftrightarrow> flow_steps D inp a (inspection_of s)"

lemma implements_refl [simp]: "implements D inp (inspection_of s) s"
  by (simp add: implements_def)

lemma implements_step:
  "implements D inp a s \<Longrightarrow> flow_step D inp (inspection_of s) b \<Longrightarrow> inspection_of t = b \<Longrightarrow> implements D inp a t"
  by (auto simp: implements_def intro: rtranclp.rtrancl_into_rtrancl)

lemma implements_cong: "implements D inp a s \<Longrightarrow> inspection_of t = inspection_of s \<Longrightarrow> implements D inp a t"
  by (simp add: implements_def)

text \<open>Forgetting blocked flows is a step, also when packets are yet to be added to the buffer.\<close>

interpretation flow_ring: ring_audit "\<lambda>s. implements D inp a (s\<lparr>x_decided := x_decided s @ ds\<rparr>)" for D inp a ds
proof
  fix s :: "'a extractor" and k
  let ?t = "s\<lparr>x_decided := x_decided s @ ds\<rparr>"
  assume "implements D inp a ?t" "map_option cn_state (find_conn s k) = Some Block"
  then have "implements D inp a (erase_conn k ?t)"
    by (elim implements_step [OF _ forgotten [of _ k]]) (auto simp: inspection_erase)
  then show "implements D inp a ((erase_conn k s)\<lparr>x_decided := x_decided (erase_conn k s) @ ds\<rparr>)"
    by (rule implements_cong) (simp add: erase_conn_def inspection_of_def)
qed (auto elim: implements_cong simp: inspection_of_def)

text \<open>
  Resolving a flow is one step, and another if a blocked flow is pushed out.
\<close>

lemma resolve_implements:
  assumes "implements (w_decide W) inp a s"
    "\<And>ts. flow_of (find_conn s k) = Undecided ts \<Longrightarrow>
       flow_step (w_decide W) inp (inspection_of s) (settle_flow (w_decide W) k h ts (inspection_of s))"
  shows "preserves (implements (w_decide W) inp a) (resolve W k h s)"
proof (cases "map_option cn_state (find_conn s k) = Some Wait")
  case True
  then obtain c where c: "find_conn s k = Some c" "cn_state c = Wait" by auto
  let ?D = "w_decide W"
  let ?s = "s\<lparr>x_asked := x_asked s @ [h]\<rparr>" and ?d = "c\<lparr>cn_state := Block, cn_held := [], cn_stream := []\<rparr>"
  let ?fin = "\<lambda>t. foldl (\<lambda>t p. decide p (?D h) t) t (cn_held c)"
  let ?mid = "if ?D h = BLOCK then put_conn k ?d ?s else erase_conn k ?s"
  let ?ds = "map (\<lambda>p. \<lparr>dc_pkt = p, dc_verdict = ?D h\<rparr>) (cn_held c)"
  have "implements ?D inp a (?fin ?mid)"
    using assms(1)
  proof (rule implements_step [OF _ assms(2)])
    show "inspection_of (?fin ?mid) = settle_flow ?D k h (map tag (cn_held c)) (inspection_of s)"
      by (simp add: inspection_decide_all settle_flow_def inspection_put inspection_erase)
        (simp add: inspection_of_def)
  qed (use c in simp)
  then have mid: "implements ?D inp a (?mid\<lparr>x_decided := x_decided ?mid @ ?ds\<rparr>)"
    by (simp add: decide_all)
  have "preserves (\<lambda>t. implements ?D inp a (t\<lparr>x_decided := x_decided t @ ?ds\<rparr>))
      (if ?D h = BLOCK then remember_blocked k (put_conn k ?d ?s) else Some (erase_conn k ?s))"
    using mid flow_ring.P_remember [of ?D inp a "put_conn k ?d ?s" ?ds k] by (simp split: if_splits)
  then show ?thesis
    unfolding resolve_def using c
    by (auto simp: Let_def preserves_bind decide_all elim!: preserves_mono implements_cong
        simp: inspection_of_def)
next
  case False
  then have "resolve W k h s = Some s"
    by (auto simp: resolve_def split: option.splits) (metis State.exhaust)
  with assms(1) show ?thesis by simp
qed

interpretation flow_path: step_audit "implements (w_decide W) (Some (key, tag pkt)) a" W now "\<lambda>k. k = key" pkt
  for W now key pkt a
proof
  fix s :: "'a extractor" and k h
  let ?I = "implements (w_decide W) (Some (key, tag pkt)) a"
  assume s: "?I s"
  show "?I (erase_conn k s)" if "map_option cn_state (find_conn s k) = Some Block"
    using s that by (elim implements_step [OF _ forgotten [of _ k]]) (auto simp: inspection_erase)
  show "?I (put_conn k c s)" if "find_conn s k = Some d" "cn_state c = cn_state d"
    "map tag (cn_held c) = map tag (cn_held d)" for c d
    using s that by (elim implements_cong) (auto intro: inspection_put_same flow_of_cong)
  show "?I (decide pkt ALLOW s)"
    using s by (rule implements_step [OF _ passed]) (simp_all add: inspection_decide)
  assume k: "k = key"
  show "?I (put_conn k (Conn0\<lparr>cn_last := now\<rparr>) s)" if "find_conn s k = None"
    using s that k by (elim implements_step [OF _ opened]) (simp_all add: inspection_put Conn0_def)
  show "?I (put_conn k (c\<lparr>cn_held := cn_held c @ [pkt]\<rparr>) s)" if "find_conn s k = Some c" "cn_state c = Wait" for c
    using s that k by (elim implements_step [OF _ joined]) (simp_all add: inspection_put)
  show "preserves ?I (resolve W k h s)"
    using s k by (intro resolve_implements) (auto intro: flow_step.settled)
  show "?I (decide pkt BLOCK s)" if "find_conn s k = Some d" "cn_state d = Block" for d
    using s that k
    by (elim implements_step [OF _ dropped [where k = key and p = "tag pkt"]]) (simp_all add: inspection_decide)
qed (blast intro: implements_cong inspection_cong)+

section \<open>Sweeps\<close>

lemma expire_implements:
  assumes "implements (w_decide W) inp a s"
  shows "preserves (implements (w_decide W) inp a) (expire W k s)"
proof -
  have "preserves (implements (w_decide W) inp a) (resolve W k None s)"
    using assms by (intro resolve_implements) (auto intro: flow_step.expired)
  moreover have "implements (w_decide W) inp a (erase_conn k s)" if "find_conn s k = Some c" "cn_state c = Block" for c
    using assms that by (elim implements_step [OF _ forgotten [of _ k]]) (simp_all add: inspection_erase)
  ultimately show ?thesis using assms by (auto simp: expire_def split: option.splits)
qed

lemma sweep_implements:
  fixes s :: "'r extractor"
  assumes "implements (w_decide W) inp a s" "\<not> x_feeding s"
  shows "preserves (implements (w_decide W) inp a) (sweep W now s)"
proof -
  let ?I = "implements (w_decide W) inp a"
  have fin: "preserves ?I (pcpp_call W (w_purge W) t \<bind> (\<lambda>s2. drain_closes W s2 \<bind> (\<lambda>s3. Some (publish s3))))"
    if "?I t" "\<not> x_feeding t" for t
    using that by (auto simp: pcpp_call_idle drain_closes_idle publish_def inspection_of_def elim!: implements_cong)
  have "preserves (\<lambda>t. ?I t \<and> \<not> x_feeding t) (mfold (expire W) ks (s\<lparr>x_blocked := n\<rparr>))" for ks n
  proof (rule preserves_mfold)
    fix k and t :: "'r extractor"
    assume "?I t \<and> \<not> x_feeding t"
    with expire_implements [of W inp a t k] expire_feeding [of t W k]
    show "preserves (\<lambda>t. ?I t \<and> \<not> x_feeding t) (expire W k t)" by (auto simp: preserves_def)
  qed (use assms in \<open>auto elim: implements_cong simp: inspection_of_def\<close>)
  then show ?thesis
    unfolding sweep_def Let_def preserves_bind [of _ "mfold _ _ _"] by (rule preserves_mono) (simp add: fin)
qed

lemma tick_implements:
  assumes "\<not> x_feeding s"
  shows "preserves (implements (w_decide W) inp (inspection_of s)) (tick W now s)"
  using sweep_implements [of W inp "inspection_of s" "s\<lparr>x_lastSweep := now\<rparr>" now] assms
  by (simp add: tick_def implements_def) (simp add: inspection_of_def)

lemma feed_implements:
  assumes "\<not> x_feeding s" "flow_key pkt = Some key"
  shows "preserves (implements (w_decide W) (Some (key, tag pkt)) (inspection_of s)) (feed W now pkt s)"
proof (rule flow_path.P_feed_ticked)
  show "preserves (\<lambda>t. implements (w_decide W) (Some (key, tag pkt)) (inspection_of s) t \<and>
      now - x_lastSweep t < kSweepInterval) (tick W now s)"
    using tick_implements [OF assms(1)] tick_not_due by (simp add: preserves_def)
  show "fv_key f = key" if "flow_view pkt = Some (True, f)" for f
    using that assms(2) by (simp add: flow_key_def)
qed

section \<open>Runs\<close>

text \<open>
  The calls the worker makes: the three operations of the interface, and clearing the buffer
  of decided packets after they have been submitted.
\<close>

datatype call = Feed int Packet | Tick int | Flush | Drain

fun perform :: "'r world \<Rightarrow> call \<Rightarrow> 'r extractor \<Rightarrow> 'r extractor option" where
  "perform W (Feed now pkt) s = feed W now pkt s"
| "perform W (Tick now) s = tick W now s"
| "perform W Flush s = flush W s"
| "perform W Drain s = Some (s\<lparr>x_decided := []\<rparr>)"

fun call_ok :: "call \<Rightarrow> bool" where
  "call_ok (Feed now pkt) = packet_wf pkt"
| "call_ok _ = True"

fun fed_packets :: "call list \<Rightarrow> Packet list" where
  "fed_packets [] = []"
| "fed_packets (Feed now pkt # cs) = pkt # fed_packets cs"
| "fed_packets (c # cs) = fed_packets cs"

lemma fed_packets_append [simp]: "fed_packets (cs @ ds) = fed_packets cs @ fed_packets ds"
  by (induction cs rule: fed_packets.induct) simp_all

inductive flow_call :: "(string option \<Rightarrow> Verdict) \<Rightarrow> call \<Rightarrow> inspection \<Rightarrow> inspection \<Rightarrow> bool" for D where
  fed: "flow_key pkt = Some k \<Longrightarrow> flow_steps D (Some (k, tag pkt)) a b \<Longrightarrow> flow_call D (Feed now pkt) a b"
| ticked: "flow_steps D None a b \<Longrightarrow> flow_call D (Tick now) a b"
| flushed: "flow_steps D None a b \<Longrightarrow> \<forall>k. in_flows b k = Untracked \<Longrightarrow> flow_call D Flush a b"
| collected: "flow_call D Drain a (a\<lparr>in_said := []\<rparr>)"

inductive flow_calls :: "(string option \<Rightarrow> Verdict) \<Rightarrow> call list \<Rightarrow> inspection \<Rightarrow> inspection \<Rightarrow> bool" for D where
  no_call: "flow_calls D [] a a"
| next_call: "flow_call D c a b \<Longrightarrow> flow_calls D cs b d \<Longrightarrow> flow_calls D (c # cs) a d"

text \<open>At shutdown every flow that waits is settled, so that the rest can be forgotten at once.\<close>

lemma forget_all:
  assumes "implements D inp a s" "distinct (map fst (x_conns s))" "\<forall>k. \<not> undecided s k"
  shows "implements D inp a (s\<lparr>x_conns := []\<rparr>)"
  using assms
proof (induction "x_conns s" arbitrary: s)
  case Nil
  then have "s\<lparr>x_conns := []\<rparr> = s" by simp
  with Nil.prems(1) show ?case by simp
next
  case (Cons e es)
  obtain k c where e: "e = (k, c)" by (cases e)
  with Cons.hyps(2) have k: "find_conn s k = Some c" by (metis map_of_Cons_code(2))
  with Cons.prems(3) have "cn_state c = Block" by (cases "cn_state c") (auto simp: undecided_def)
  with k Cons.prems(1) have "implements D inp a (erase_conn k s)"
    by (elim implements_step [OF _ forgotten [of _ k]]) (simp_all add: inspection_erase)
  moreover have "erase_conn k s = s\<lparr>x_conns := es\<rparr>"
    using Cons.hyps(2) [symmetric] Cons.prems(2) e
    by (auto simp: erase_conn_def delete_absent map_of_eq_None_iff)
  moreover have "\<forall>k'. \<not> undecided (s\<lparr>x_conns := es\<rparr>) k'"
    using Cons.prems(3) \<open>erase_conn k s = _\<close> by (metis (no_types) find_erase option.map_disc_iff option.distinct(1) undecided_def)
  ultimately show ?case
    using Cons.hyps(1) [of "s\<lparr>x_conns := es\<rparr>"] Cons.prems(2) Cons.hyps(2) [symmetric] by simp
qed

lemma flush_implements:
  assumes "world_ok W" "ready s"
  shows "preserves (implements (w_decide W) inp (inspection_of s)) (flush W s)"
proof -
  let ?I = "implements (w_decide W) inp (inspection_of s)"
  from flush_settles [OF assms] obtain t where
    t: "mfold (\<lambda>key t. resolve W key None t) (waiting_flows W s) s = Some t" "xinv {} t"
      "evolves (set (waiting_flows W s)) {#} s t" "\<forall>k. \<not> undecided t k"
    by (auto simp: ensures_iff)
  have "preserves ?I (mfold (\<lambda>key t. resolve W key None t) (waiting_flows W s) s)"
    by (intro preserves_mfold resolve_implements) (auto intro: flow_step.expired)
  with t(1) have "?I t" by simp
  then have "?I (t\<lparr>x_conns := []\<rparr>)" using t(2,4) by (intro forget_all) (auto simp: xinv_def table_ok_def)
  moreover have "\<not> x_feeding t" using assms(2) t(3) by (simp add: evolves_def ready_def)
  ultimately show ?thesis
    using t(1) by (auto simp: flush_def Let_def waiting_flows_def drain_closes_idle publish_def
        inspection_of_def [of "_ \<lparr>x_flows := _\<rparr>"] inspection_of_def [of "_ \<lparr>x_conns := _\<rparr>"] elim!: implements_cong)
qed

lemma perform_implements:
  assumes "world_ok W" "ready s" "call_ok c"
  shows "ensures (perform W c s) (\<lambda>s'. ready s' \<and> flow_call (w_decide W) c (inspection_of s) (inspection_of s'))"
proof (cases c)
  case (Feed now pkt)
  obtain key where "flow_key pkt = Some key"
    using flow_view_safe [of pkt] assms(3) Feed by (auto simp: flow_key_def ensures_iff)
  with feed_implements [of s pkt key W now] feed_safe [OF assms(1,2), of pkt now] assms(2,3) Feed show ?thesis
    by (auto simp: ensures_iff ready_def implements_def intro: fed)
next
  case (Tick now)
  with tick_implements [of s W None now] tick_ok [OF assms(2), of W now] assms(2) show ?thesis
    by (auto simp: ensures_iff ready_def implements_def intro: ticked)
next
  case Flush
  with flush_implements [OF assms(1,2), of None] flush_ok [OF assms(1,2)] show ?thesis
    by (auto simp: ensures_iff implements_def intro!: flushed)
next
  case Drain
  have "inspection_of (s\<lparr>x_decided := []\<rparr>) = (inspection_of s)\<lparr>in_said := []\<rparr>"
    by (simp add: inspection_of_def)
  moreover have "ready (s\<lparr>x_decided := []\<rparr>)" using assms(2) by (simp add: ready_def shells_def)
  ultimately show ?thesis using Drain collected [of "w_decide W" "inspection_of s"] by simp
qed

lemma performs_implement:
  assumes "world_ok W" "ready s" "list_all call_ok cs"
  shows "ensures (mfold (perform W) cs s)
    (\<lambda>s'. ready s' \<and> flow_calls (w_decide W) cs (inspection_of s) (inspection_of s'))"
  using assms
proof (induction cs arbitrary: s)
  case (Cons c cs)
  from perform_implements [OF Cons.prems(1,2), of c] Cons.prems(3) obtain s' where
    "perform W c s = Some s'" "ready s'" "flow_call (w_decide W) c (inspection_of s) (inspection_of s')"
    by (auto simp: ensures_iff)
  with Cons.IH [of s'] Cons.prems show ?case by (auto simp: ensures_iff intro: next_call)
qed (simp add: no_call)

lemma inspection_new: "inspection_of (new_extractor r mf mb) = fresh_inspection"
  by (simp add: inspection_of_def new_extractor_def fresh_inspection_def Let_def)

end
