(* ===== verification/Extractor_Closing.thy ===== *)
theory Extractor_Closing
  imports Extractor_Flows
begin

text \<open>
  The connections PcapPlusPlus keeps state for. The extractor learns the key of a connection
  when it starts and hands it back with \<^verbatim>\<open>closeConnection\<close> when the flow is decided, so that
  at any time a connection that is still open belongs to an undecided flow or is
  about to be closed: the reassembler's table does not grow with the connections seen.
\<close>

section \<open>What the reassembler promises\<close>

text \<open>
  \<open>opn r\<close> is the set of connections the reassembler holds in state \<open>r\<close>, by their keys, and
  \<open>conn raw\<close> the key under which it files the packet \<open>raw\<close>. A packet may start its connection,
  then deliver messages of it, then end it. A connection is held only once it has been reported
  as started, and not after it was ended or closed.
\<close>

fun follow_up :: "u32 \<Rightarrow> pcpp_event list \<Rightarrow> bool" where
  "follow_up T [] = True"
| "follow_up T (MessageReady side t data # es) = (t = T \<and> follow_up T es)"
| "follow_up T (ConnectionEnd # es) = (es = [])"
| "follow_up T (ConnectionStart t # es) = False"

fun orderly :: "u32 \<Rightarrow> pcpp_event list \<Rightarrow> bool" where
  "orderly T (ConnectionStart t # es) = (t = T \<and> follow_up T es)"
| "orderly T es = follow_up T es"

definition remaining :: "u32 \<Rightarrow> pcpp_event list \<Rightarrow> u32 set \<Rightarrow> u32 set" where
  "remaining T es held =
     held \<union> (if ConnectionStart T \<in> set es then {T} else {}) - (if ConnectionEnd \<in> set es then {T} else {})"

definition tracks_connections :: "(bytes \<Rightarrow> u32) \<Rightarrow> ('r \<Rightarrow> u32 set) \<Rightarrow> 'r world \<Rightarrow> bool" where
  "tracks_connections conn opn W \<longleftrightarrow>
     (\<forall>r raw. orderly (conn raw) (snd (w_reassemble W r raw)) \<and>
        opn (fst (w_reassemble W r raw)) \<subseteq> remaining (conn raw) (snd (w_reassemble W r raw)) (opn r)) \<and>
     (\<forall>r t. opn (fst (w_close W r t)) \<subseteq> opn r - {t}) \<and>
     (\<forall>r. opn (fst (w_purge W r)) \<subseteq> opn r)"

text \<open>
  The extractor files packets under a key of its own. The traffic keeps connections apart if the
  TCP packets that come in with the same flow key are of the same connection, and no connection has
  the key 0, which stands for none.
\<close>

definition wire_bytes :: "Packet \<Rightarrow> bytes" where
  "wire_bytes pkt = take (pk_len pkt) (the (packet_data pkt))"

definition tcp_keys :: "(bytes \<Rightarrow> u32) \<Rightarrow> Packet list \<Rightarrow> (u32 \<times> u32) set" where
  "tcp_keys conn ps = {(fv_key f, conn (wire_bytes p)) | p f. p \<in> set ps \<and>
     flow_view p = Some (True, f) \<and> fv_ip_proto f = kProtoTcp \<and> has_bytes p}"

definition kept_apart :: "(bytes \<Rightarrow> u32) \<Rightarrow> Packet list \<Rightarrow> bool" where
  "kept_apart conn ps \<longleftrightarrow> single_valued (tcp_keys conn ps) \<and> 0 \<notin> snd ` tcp_keys conn ps"

text \<open>Then the connection of a packet is a function of its flow key.\<close>

definition agrees :: "(bytes \<Rightarrow> u32) \<Rightarrow> (u32 \<Rightarrow> u32) \<Rightarrow> Packet \<Rightarrow> bool" where
  "agrees conn tok p \<longleftrightarrow> (\<forall>f. flow_view p = Some (True, f) \<and> fv_ip_proto f = kProtoTcp \<and> has_bytes p \<longrightarrow>
     conn (wire_bytes p) = tok (fv_key f))"

lemma kept_apart_agrees:
  assumes "kept_apart conn ps"
  obtains tok where "\<And>k. tok k \<noteq> 0" "list_all (agrees conn tok) ps"
proof
  let ?tok = "\<lambda>k. if \<exists>t. (k, t) \<in> tcp_keys conn ps then THE t. (k, t) \<in> tcp_keys conn ps else 1"
  have the: "(THE t. (k, t) \<in> tcp_keys conn ps) = t" if "(k, t) \<in> tcp_keys conn ps" for k t
    using assms that by (auto simp: kept_apart_def dest: single_valuedD)
  have "t \<noteq> 0" if "(k, t) \<in> tcp_keys conn ps" for k t
    using assms that by (force simp: kept_apart_def)
  with the show "?tok k \<noteq> 0" for k by (metis zero_neq_one)
  show "list_all (agrees conn ?tok) ps"
    unfolding list_all_iff agrees_def
  proof (intro ballI allI impI)
    fix p f
    assume "p \<in> set ps" "flow_view p = Some (True, f) \<and> fv_ip_proto f = kProtoTcp \<and> has_bytes p"
    then have "(fv_key f, conn (wire_bytes p)) \<in> tcp_keys conn ps" by (auto simp: tcp_keys_def)
    with the [OF this] show "conn (wire_bytes p) = ?tok (fv_key f)" by auto
  qed
qed

section \<open>Who answers for a connection\<close>

text \<open>An undecided flow knows its own connection, and has not seen its end.\<close>

definition entry_tidy :: "(u32 \<Rightarrow> u32) \<Rightarrow> u32 \<Rightarrow> Conn \<Rightarrow> bool" where
  "entry_tidy tok k c \<longleftrightarrow> (cn_state c = Wait \<longrightarrow> \<not> cn_pcpp_closed c \<and> cn_pcpp_key c \<in> {0, tok k})"

definition tidy :: "(u32 \<Rightarrow> u32) \<Rightarrow> 'r extractor \<Rightarrow> bool" where
  "tidy tok s \<longleftrightarrow> (\<forall>k c. find_conn s k = Some c \<longrightarrow> entry_tidy tok k c)"

definition owned :: "'r extractor \<Rightarrow> u32 \<Rightarrow> bool" where
  "owned s t \<longleftrightarrow> t \<in> set (x_to_close s) \<or>
     (\<exists>k c. find_conn s k = Some c \<and> cn_state c = Wait \<and> cn_pcpp_key c = t)"

definition claims :: "(u32 \<Rightarrow> u32) \<Rightarrow> u32 set \<Rightarrow> 'r extractor \<Rightarrow> bool" where
  "claims tok A s \<longleftrightarrow> tidy tok s \<and> (\<forall>t\<in>A. owned s t)"

lemma claims_eq:
  "x_conns s' = x_conns s \<Longrightarrow> x_to_close s' = x_to_close s \<Longrightarrow> claims tok A s' = claims tok A s"
  by (simp add: claims_def tidy_def owned_def)

lemma claims_cong:
  "claims tok A s \<Longrightarrow> x_conns s' = x_conns s \<Longrightarrow> x_to_close s' = x_to_close s \<Longrightarrow> claims tok A s'"
  by (subst claims_eq [of s' s])

lemma claims_mono: "claims tok A s \<Longrightarrow> B \<subseteq> A \<Longrightarrow> claims tok B s"
  by (auto simp: claims_def)

lemma claims_forget:
  "claims tok A s \<Longrightarrow> map_option cn_state (find_conn s k) \<noteq> Some Wait \<Longrightarrow> claims tok A (erase_conn k s)"
  unfolding claims_def tidy_def owned_def conn_simps by (auto 0 4)

lemma tidy_entry:
  assumes "claims tok A s" "find_conn s k = Some c" "cn_state c = Wait"
  shows "\<not> cn_pcpp_closed c" "cn_pcpp_key c = 0 \<or> cn_pcpp_key c = tok k"
  using assms by (auto simp: claims_def tidy_def entry_tidy_def)

lemma owned_split:
  "owned s t \<Longrightarrow> find_conn s k = Some c \<Longrightarrow> owned (erase_conn k s) t \<or> t = cn_pcpp_key c \<and> cn_state c = Wait"
  unfolding owned_def conn_simps by (metis option.inject)

lemma claims_put:
  assumes "claims tok A s" "cn_state c = Wait \<Longrightarrow> \<not> cn_pcpp_closed c \<and> cn_pcpp_key c \<in> {0, tok k}"
    "\<And>d. find_conn s k = Some d \<Longrightarrow> cn_state d = Wait \<Longrightarrow> cn_pcpp_key d \<in> A \<Longrightarrow>
       cn_state c = Wait \<and> cn_pcpp_key c = cn_pcpp_key d"
  shows "claims tok A (put_conn k c s)"
proof -
  have "owned (put_conn k c s) t" if "t \<in> A" for t
    using assms(1,3) that unfolding claims_def owned_def conn_simps by metis
  moreover have "tidy tok (put_conn k c s)"
    using assms(1,2) by (auto simp: claims_def tidy_def entry_tidy_def conn_simps)
  ultimately show ?thesis by (simp add: claims_def)
qed

text \<open>The ring only forgets blocked flows, also when a key is yet to be added to the list.\<close>

interpretation claiming: ring_audit "\<lambda>s. claims tok A (s\<lparr>x_to_close := x_to_close s @ ks\<rparr>)" for tok A ks
proof
  fix s :: "'a extractor" and k
  let ?add = "\<lambda>s. s\<lparr>x_to_close := x_to_close s @ ks\<rparr>"
  assume "claims tok A (?add s)" "map_option cn_state (find_conn s k) = Some Block"
  then have "claims tok A (erase_conn k (?add s))" by (intro claims_forget) auto
  then show "claims tok A (?add (erase_conn k s))" by (rule claims_cong) (simp_all add: erase_conn_def)
qed (auto elim: claims_cong)

text \<open>
  Resolving a flow passes its connection on to the list of those to be closed, unless the
  reassembler has ended it.
\<close>

lemma resolve_passes_on:
  assumes c: "find_conn s k = Some c" "cn_state c = Wait" and "tidy tok (erase_conn k s)"
    "\<forall>t\<in>A. owned (erase_conn k s) t \<or> t = cn_pcpp_key c \<and> t \<noteq> 0 \<and> \<not> cn_pcpp_closed c"
  shows "preserves (claims tok A) (resolve W k h s)"
proof -
  let ?s = "s\<lparr>x_asked := x_asked s @ [h]\<rparr>" and ?d = "c\<lparr>cn_state := Block, cn_held := [], cn_stream := []\<rparr>"
  define ks where "ks = (if cn_pcpp_key c \<noteq> 0 \<and> \<not> cn_pcpp_closed c then [cn_pcpp_key c] else [])"
  let ?add = "\<lambda>u. u\<lparr>x_to_close := x_to_close u @ ks\<rparr>"
  let ?mid = "if w_decide W h = BLOCK then put_conn k ?d ?s else erase_conn k ?s"
  have "owned (?add ?mid) t" if "t \<in> A" for t
    using bspec [OF assms(4) that] by (auto simp: ks_def owned_def conn_simps split: if_splits)
  moreover have "tidy tok (?add ?mid)"
    using assms(3) by (auto simp: tidy_def conn_simps entry_tidy_def [of tok k] split: if_splits)
  ultimately have "claims tok A (?add ?mid)" by (simp add: claims_def)
  then have mid: "preserves (\<lambda>u. claims tok A (?add u))
      (if w_decide W h = BLOCK then remember_blocked k (put_conn k ?d ?s) else Some (erase_conn k ?s))"
    using claiming.P_remember [of tok A "put_conn k ?d ?s" ks k] by (simp split: if_splits)
  show ?thesis
    unfolding resolve_def using c
    by (simp add: Let_def preserves_bind decide_all claims_eq [of "_\<lparr>x_decided := _\<rparr>"])
      (use mid in \<open>auto simp: ks_def split: if_splits\<close>)
qed

lemma resolve_not_wait:
  assumes "map_option cn_state (find_conn s k) \<noteq> Some Wait"
  shows "resolve W k h s = Some s"
  using assms by (auto simp: resolve_def split: option.splits) (metis State.exhaust)

lemma tidy_erase: "claims tok A s \<Longrightarrow> tidy tok (erase_conn k s)"
  by (auto simp: claims_def tidy_def conn_simps)

lemma claims_resolve:
  assumes "claims tok A s" "0 \<notin> A"
  shows "preserves (claims tok A) (resolve W k h s)"
proof (cases "map_option cn_state (find_conn s k) = Some Wait")
  case True
  then obtain c where c: "find_conn s k = Some c" "cn_state c = Wait" by auto
  have "owned (erase_conn k s) t \<or> t = cn_pcpp_key c \<and> t \<noteq> 0 \<and> \<not> cn_pcpp_closed c" if "t \<in> A" for t
    using that assms owned_split [OF _ c(1), of t] tidy_entry(1) [OF assms(1) c] by (auto simp: claims_def)
  with c tidy_erase [OF assms(1)] show ?thesis by (intro resolve_passes_on) auto
qed (use assms in \<open>simp add: resolve_not_wait\<close>)

section \<open>Callbacks\<close>

text \<open>
  The callbacks for a packet of the flow whose connection is \<open>T\<close>: only the end of \<open>T\<close> itself
  lets the extractor drop it without closing it.
\<close>

lemma claims_start:
  assumes "claims tok A s" "0 \<notin> A" "T = tok (x_current_key s)"
  shows "preserves (claims tok A) (onConnectionStart T s)"
  using assms tidy_entry [OF assms(1), of "x_current_key s"]
  by (auto simp: onConnectionStart_def intro!: claims_put split: option.split)

lemma claims_message:
  assumes "claims tok A s" "0 \<notin> A" "T = tok (x_current_key s)"
  shows "preserves (claims tok A) (onMessageReady W side T data s)"
proof (cases "find_conn s (x_current_key s)")
  case (Some c)
  let ?t = "put_conn (x_current_key s) (c\<lparr>cn_pcpp_key := T, cn_stream := cn_stream c @ data\<rparr>) s"
  have "claims tok A ?t" if "cn_state c = Wait"
    using that assms Some tidy_entry [OF assms(1) Some] by (intro claims_put) auto
  then have "preserves (claims tok A) (resolve W (x_current_key s) h ?t)" "claims tok A ?t" if "cn_state c = Wait" for h
    using that assms(2) by (simp_all add: claims_resolve)
  then show ?thesis
    using assms(1) Some
    by (auto simp: onMessageReady_def Let_def preserves_bind preserves_def [of _ "extractHostname _ _"]
        preserves_def [of _ "byte_slice _ _ _"] split: HostnameResult.splits)
qed (use assms in \<open>simp add: onMessageReady_def\<close>)

lemma claims_end:
  assumes "claims tok A s" "0 \<notin> A" "tok (x_current_key s) \<notin> A"
  shows "preserves (claims tok A) (onConnectionEnd W s)"
proof (cases "find_conn s (x_current_key s)")
  case (Some c)
  let ?key = "x_current_key s" and ?c = "c\<lparr>cn_pcpp_closed := True\<rparr>"
  have erase: "erase_conn ?key (put_conn ?key ?c s) = erase_conn ?key s"
    by (simp add: erase_conn_def put_conn_def delete_update_same)
  have "preserves (claims tok A) (resolve W ?key None (put_conn ?key ?c s))"
  proof (cases "cn_state c")
    case Wait
    then have "owned (erase_conn ?key s) t" if "t \<in> A" for t
      using that assms owned_split [OF _ Some, of t] tidy_entry(2) [OF assms(1) Some] by (auto simp: claims_def)
    with Wait tidy_erase [OF assms(1)] show ?thesis
      by (intro resolve_passes_on [where c = ?c]) (auto simp: erase conn_simps)
  next
    case Block
    with assms Some show ?thesis
      by (subst resolve_not_wait) (auto simp: conn_simps intro!: claims_put)
  qed
  with Some assms(1) show ?thesis by (simp add: onConnectionEnd_def)
qed (use assms in \<open>simp add: onConnectionEnd_def\<close>)

text \<open>A list of callbacks for one flow.\<close>

definition token_ok :: "u32 \<Rightarrow> pcpp_event \<Rightarrow> bool" where
  "token_ok T e = (case e of ConnectionStart t \<Rightarrow> t = T | MessageReady _ t _ \<Rightarrow> t = T | ConnectionEnd \<Rightarrow> True)"

lemma follow_up_tokens: "follow_up T es \<Longrightarrow> list_all (token_ok T) es"
  by (induction T es rule: follow_up.induct) (auto simp: token_ok_def)

lemma orderly_tokens: "orderly T es \<Longrightarrow> list_all (token_ok T) es"
  by (cases "(T, es)" rule: orderly.cases) (auto simp: token_ok_def dest: follow_up_tokens)

lemma orderly_start:
  assumes "orderly T es" "ConnectionStart t \<in> set es"
  shows "\<exists>es'. es = ConnectionStart T # es'"
proof -
  have "follow_up T es \<Longrightarrow> ConnectionStart t \<notin> set es" for es
    by (induction T es rule: follow_up.induct) auto
  with assms show ?thesis by (cases "(T, es)" rule: orderly.cases) auto
qed

lemma claims_event:
  assumes "claims tok A s" "0 \<notin> A" "token_ok (tok (x_current_key s)) e"
    "e = ConnectionEnd \<Longrightarrow> tok (x_current_key s) \<notin> A"
  shows "preserves (claims tok A) (on_event W e s)"
  using assms by (cases e) (auto simp: token_ok_def intro: claims_start claims_message claims_end)

lemma claims_events:
  assumes "claims tok A s" "0 \<notin> A" "list_all (token_ok (tok (x_current_key s))) es"
    "ConnectionEnd \<in> set es \<Longrightarrow> tok (x_current_key s) \<notin> A"
  shows "preserves (claims tok A) (mfold (on_event W) es s)"
  using assms
proof (induction es arbitrary: s)
  case (Cons e es)
  have "preserves (\<lambda>u. claims tok A u \<and> x_current_key u = x_current_key s) (on_event W e s)"
    using claims_event [OF Cons.prems(1,2), of e W] Cons.prems(3,4) on_event_current [of s W e]
    by (auto simp: preserves_def)
  then show ?case
    unfolding mfold.simps preserves_bind by (rule preserves_mono) (use Cons in auto)
qed simp

section \<open>Operations\<close>

definition linked :: "(u32 \<Rightarrow> u32) \<Rightarrow> ('r \<Rightarrow> u32 set) \<Rightarrow> 'r extractor \<Rightarrow> bool" where
  "linked tok opn s \<longleftrightarrow> 0 \<notin> opn (x_reassembly s) \<and> claims tok (opn (x_reassembly s)) s"

lemma linked_cong:
  "linked tok opn s \<Longrightarrow> x_conns s' = x_conns s \<Longrightarrow> x_to_close s' = x_to_close s \<Longrightarrow>
   x_reassembly s' = x_reassembly s \<Longrightarrow> linked tok opn s'"
  by (auto simp: linked_def elim: claims_cong)

text \<open>A step that leaves the reassembler alone.\<close>

lemma linked_step:
  assumes "linked tok opn s" "preserves (\<lambda>t. x_reassembly t = x_reassembly s) m"
    "\<And>A. claims tok A s \<Longrightarrow> 0 \<notin> A \<Longrightarrow> preserves (claims tok A) m"
  shows "preserves (linked tok opn) m"
  using assms(1,2) assms(3) [of "opn (x_reassembly s)"] unfolding linked_def preserves_def by metis

text \<open>Closing what is on the list leaves the connections of undecided flows only.\<close>

lemma closed_shrink:
  assumes "tracks_connections conn opn W"
  shows "opn (foldl (\<lambda>r t. fst (w_close W r t)) r ts) \<subseteq> opn r - set ts"
proof (induction ts arbitrary: r)
  case (Cons t ts)
  have "opn (fst (w_close W r t)) \<subseteq> opn r - {t}" using assms by (simp add: tracks_connections_def)
  with Cons.IH [of "fst (w_close W r t)"] show ?case by auto
qed simp

lemma linked_drain:
  assumes "tracks_connections conn opn W" "\<not> x_feeding s" "linked tok opn s"
  shows "ensures (drain_closes W s) (\<lambda>t. linked tok opn t \<and> x_to_close t = [])"
proof -
  let ?r = "foldl (\<lambda>r t. fst (w_close W r t)) (x_reassembly s) (x_to_close s)"
  have sub: "opn ?r \<subseteq> opn (x_reassembly s) - set (x_to_close s)" using assms(1) by (rule closed_shrink)
  have "owned (s\<lparr>x_reassembly := ?r, x_to_close := []\<rparr>) t" if "t \<in> opn ?r" for t
  proof -
    have "owned s t" "t \<notin> set (x_to_close s)" using that sub assms(3) by (auto simp: linked_def claims_def)
    then show ?thesis by (simp add: owned_def)
  qed
  moreover have "tidy tok (s\<lparr>x_reassembly := ?r, x_to_close := []\<rparr>)"
    using assms(3) by (simp add: linked_def claims_def tidy_def)
  ultimately show ?thesis
    using sub assms(3) by (auto simp: drain_closes_idle [OF assms(2)] linked_def claims_def)
qed

lemma linked_drained:
  "tracks_connections conn opn W \<Longrightarrow> \<not> x_feeding s \<Longrightarrow> linked tok opn s \<Longrightarrow>
   preserves (linked tok opn) (drain_closes W s)"
  using linked_drain [of conn opn W s tok] by (auto simp: ensures_iff)

lemma linked_purge:
  assumes "tracks_connections conn opn W" "\<not> x_feeding s" "linked tok opn s"
  shows "ensures (pcpp_call W (w_purge W) s) (\<lambda>t. linked tok opn t \<and> \<not> x_feeding t)"
proof -
  have "opn (fst (w_purge W (x_reassembly s))) \<subseteq> opn (x_reassembly s)"
    using assms(1) by (simp add: tracks_connections_def)
  with assms(3) have "claims tok (opn (fst (w_purge W (x_reassembly s)))) s" "0 \<notin> opn (fst (w_purge W (x_reassembly s)))"
    by (auto simp: linked_def elim: claims_mono)
  then show ?thesis
    using assms(2) by (simp add: pcpp_call_idle linked_def claims_eq [of "s\<lparr>x_reassembly := _\<rparr>" s])
qed

text \<open>Callbacks and decisions do not touch the reassembler.\<close>

lemma resolve_reassembly: "preserves (\<lambda>t. x_reassembly t = x_reassembly s) (resolve W key h s)"
  by (auto simp: resolve_def remember_blocked_def ring_at_def ring_store_def preserves_bind Let_def
      conn_simps decide_all split: option.splits)

lemma on_event_reassembly: "preserves (\<lambda>t. x_reassembly t = x_reassembly s) (on_event W e s)"
proof -
  note r = resolve_reassembly [of "put_conn k c s" W key h for k c key h, simplified conn_simps]
  show ?thesis
    by (cases e) (auto simp: onConnectionStart_def onMessageReady_def onConnectionEnd_def preserves_bind
        preserves_def [of _ "extractHostname _ _"] preserves_def [of _ "byte_slice _ _ _"] Let_def
        conn_simps r split: option.splits HostnameResult.splits)
qed

lemma events_reassembly: "preserves (\<lambda>t. x_reassembly t = x_reassembly s) (mfold (on_event W) es s)"
proof (rule preserves_mfold)
  show "preserves (\<lambda>t. x_reassembly t = x_reassembly s) (on_event W e u)" if "x_reassembly u = x_reassembly s" for e u
    using on_event_reassembly [of u W e] that by simp
qed simp

lemma linked_resolve: "linked tok opn s \<Longrightarrow> preserves (linked tok opn) (resolve W k h s)"
  by (rule linked_step [OF _ resolve_reassembly claims_resolve])

lemma linked_forget:
  "linked tok opn s \<Longrightarrow> map_option cn_state (find_conn s k) = Some Block \<Longrightarrow> linked tok opn (erase_conn k s)"
  by (auto simp: linked_def conn_simps intro!: claims_forget)

lemma linked_put:
  assumes "linked tok opn s" "find_conn s k = Some d" "cn_state c = cn_state d"
    "cn_pcpp_key c = cn_pcpp_key d" "cn_pcpp_closed c = cn_pcpp_closed d"
  shows "linked tok opn (put_conn k c s)"
proof -
  have "entry_tidy tok k d" using assms(1,2) by (simp add: linked_def claims_def tidy_def)
  with assms show ?thesis by (auto simp: linked_def conn_simps entry_tidy_def intro!: claims_put)
qed

lemma linked_open:
  assumes "linked tok opn s" "find_conn s k = None"
  shows "linked tok opn (put_conn k Conn0 s)"
  using assms by (auto simp: linked_def conn_simps Conn0_def intro!: claims_put)

lemma linked_expire: "linked tok opn s \<Longrightarrow> preserves (linked tok opn) (expire W k s)"
  by (auto simp: expire_def intro: linked_resolve linked_forget split: option.splits)

text \<open>One packet: its connection may start, is then known to its flow, and may end.\<close>

lemma linked_packet_events:
  assumes "0 \<notin> A \<and> claims tok A s" "x_current_key s = key" "x_feeding s" "find_conn s key = Some c" "cn_state c = Wait"
    "orderly (tok key) es" "B \<subseteq> remaining (tok key) es A" "tok key \<noteq> 0"
  shows "preserves (claims tok B) (mfold (on_event W) es s)"
proof -
  let ?T = "tok key"
  have B: "0 \<notin> B" using assms(1,7,8) by (auto simp: remaining_def split: if_splits)
  have fin: "ConnectionEnd \<in> set es \<Longrightarrow> ?T \<notin> B" using assms(7) by (auto simp: remaining_def split: if_splits)
  note toks = orderly_tokens [OF assms(6)]
  show ?thesis
  proof (cases "ConnectionStart ?T \<in> set es")
    case True
    then obtain es' where es: "es = ConnectionStart ?T # es'" using orderly_start [OF assms(6)] by blast
    let ?s = "put_conn key (c\<lparr>cn_pcpp_key := ?T\<rparr>) s"
    have "claims tok A ?s"
      using assms(1,4,5) tidy_entry [OF _ assms(4,5), of tok A]
      by (intro claims_put) auto
    moreover have "owned ?s ?T" using assms(5) by (auto simp: owned_def conn_simps)
    moreover have "B \<subseteq> insert ?T A" using assms(7) by (auto simp: remaining_def split: if_splits)
    ultimately have "claims tok B ?s" by (auto simp: claims_def)
    moreover have "on_event W (ConnectionStart ?T) s = Some ?s"
      using assms(2-4) by (simp add: onConnectionStart_def)
    ultimately show ?thesis
      using claims_events [of tok B ?s es' W] B fin toks es assms(2) by (simp add: conn_simps)
  next
    case False
    then have "B \<subseteq> A" using assms(7) by (auto simp: remaining_def split: if_splits)
    then have "claims tok B s" using assms(1) by (auto elim: claims_mono)
    then show ?thesis using claims_events [of tok B s es W] B fin toks assms(2) by simp
  qed
qed

lemma linked_reassemble:
  assumes "tracks_connections conn opn W" "linked tok opn s" "find_conn s key = Some c" "cn_state c = Wait"
    "conn raw = tok key" "tok key \<noteq> 0"
  shows "preserves (linked tok opn) (reassemble W key raw s)"
proof -
  obtain r es where call: "w_reassemble W (x_reassembly s) raw = (r, es)" by fastforce
  let ?s = "s\<lparr>x_current_key := key, x_feeding := True, x_reassembly := r\<rparr>"
  have tr: "orderly (tok key) es" "opn r \<subseteq> remaining (tok key) es (opn (x_reassembly s))" "tok key \<noteq> 0"
    using assms(1,5,6) call unfolding tracks_connections_def by (metis fst_conv snd_conv)+
  have "0 \<notin> opn (x_reassembly s) \<and> claims tok (opn (x_reassembly s)) ?s"
    using assms(2) by (auto simp: linked_def elim: claims_cong)
  from linked_packet_events [OF this, of key c es "opn r" W] tr assms(3,4)
  have "preserves (claims tok (opn r)) (mfold (on_event W) es ?s)" by simp
  moreover have "0 \<notin> opn r"
    using tr assms(2) by (auto simp: linked_def remaining_def split: if_splits)
  ultimately have "preserves (\<lambda>t. linked tok opn (t\<lparr>x_feeding := False\<rparr>)) (mfold (on_event W) es ?s)"
    using events_reassembly [of ?s W es] by (auto simp: preserves_def linked_def claims_eq [of "_\<lparr>x_feeding := _\<rparr>"])
  then show ?thesis
    unfolding reassemble_def pcpp_call_def preserves_bind
    by (simp add: call) (erule preserves_mono, simp add: linked_drained [OF assms(1)])
qed

lemma linked_release: "linked tok opn s \<Longrightarrow> linked tok opn (release_last key s)"
  by (auto simp: release_last_def intro: linked_put split: option.splits)

lemma linked_decide: "linked tok opn s \<Longrightarrow> linked tok opn (decide p v s)"
  by (erule linked_cong) (simp_all add: conn_simps)

lemma linked_publish: "linked tok opn s \<Longrightarrow> linked tok opn (publish s)"
  by (erule linked_cong) (simp_all add: conn_simps)

lemma linked_feed_tracked:
  assumes "tracks_connections conn opn W" "linked tok opn s" "find_conn s (fv_key f) = Some c" "cn_state c = Wait"
    "conn (wire_bytes pkt) = tok (fv_key f)" "tok (fv_key f) \<noteq> 0"
  shows "preserves (linked tok opn) (feed_tracked W now f pkt s)"
proof -
  let ?key = "fv_key f" and ?c = "c\<lparr>cn_last := now\<rparr>"
  let ?s = "put_conn ?key ?c s"
  let ?h = "put_conn ?key (?c\<lparr>cn_held := cn_held c @ [pkt]\<rparr>) ?s"
  have s: "linked tok opn ?s" using assms(2,3) by (rule linked_put) simp_all
  then have h: "linked tok opn ?h" by (rule linked_put [where d = ?c]) (simp_all add: conn_simps)
  have "preserves (linked tok opn) (reassemble W ?key (take (pk_len pkt) b) ?s)"
    "preserves (linked tok opn) (reassemble W ?key (take (pk_len pkt) b) ?h)" if "packet_data pkt = Some b" for b
    using linked_reassemble [OF assms(1) s, of ?key ?c "take (pk_len pkt) b"]
      linked_reassemble [OF assms(1) h, of ?key "?c\<lparr>cn_held := cn_held c @ [pkt]\<rparr>" "take (pk_len pkt) b"]
      assms(4-6) that
    by (simp_all add: conn_simps wire_bytes_def)
  with s h assms(3) show ?thesis
    unfolding feed_tracked_def
    by (auto simp: Let_def preserves_bind preserves_def [of _ "packet_data pkt"]
        intro!: preserves_mono [OF linked_resolve] linked_decide linked_release elim!: preserves_mono)
qed

interpretation linking: ring_audit "linked tok opn" for tok opn
  by unfold_locales (auto elim: linked_cong intro: linked_forget)

lemma linked_start:
  assumes "linked tok opn s" "now - x_lastSweep s < kSweepInterval" "find_conn s (fv_key f) = None"
  shows "preserves (case_sum (linked tok opn) (\<lambda>t. linked tok opn t \<and> find_conn t (fv_key f) = Some Conn0))
    (start_tracking W now f pkt s)"
proof -
  have room: "preserves (\<lambda>t. linked tok opn t \<and> find_conn t (fv_key f) = None) (make_room W now s)"
    using assms linking.P_evict [OF assms(1), of "x_max_blocked s"] make_room_absent [OF assms(3,2), of W]
    by (auto simp: make_room_def preserves_map evict_oldest_blocked_def case_prod_unfold preserves_def)
  have cap: "linked tok opn t \<Longrightarrow> linked tok opn (decide pkt ALLOW (t\<lparr>x_dropped_at_cap := d\<rparr>))" for t d
    by (rule linked_decide) (erule linked_cong, simp_all)
  have "preserves (case_sum (linked tok opn) (\<lambda>t. linked tok opn t \<and> find_conn t (fv_key f) = Some Conn0))
    (make_room W now s \<bind> (\<lambda>s1.
      if length (x_conns s1) \<ge> x_max_flows s1
      then Some (Inl (decide pkt ALLOW (s1\<lparr>x_dropped_at_cap := x_dropped_at_cap s1 + 1\<rparr>)))
      else Some (Inr (put_conn (fv_key f) Conn0 s1))))"
    unfolding preserves_bind
    by (rule preserves_mono [OF room]) (auto intro: cap linked_open simp: conn_simps)
  with assms linked_decide linked_open show ?thesis
    unfolding start_tracking_def preserves_bind [of _ "if isClientSyn f then _ else _"]
    by (auto simp: preserves_def [of _ "if isClientSyn f then _ else _"] conn_simps)
qed

lemma linked_routed:
  assumes "tracks_connections conn opn W" "linked tok opn s" "now - x_lastSweep s < kSweepInterval"
    "conn (wire_bytes pkt) = tok (fv_key f)" "tok (fv_key f) \<noteq> 0"
  shows "preserves (linked tok opn) (routed W now f pkt s)"
proof (cases "find_conn s (fv_key f)")
  case None
  have "preserves (linked tok opn) (start_tracking W now f pkt s \<bind>
      (\<lambda>t. case t of Inl s1 \<Rightarrow> Some s1 | Inr s1 \<Rightarrow> feed_tracked W now f pkt s1))"
    unfolding preserves_bind
    by (rule preserves_mono [OF linked_start [OF assms(2,3) None]])
      (auto intro!: linked_feed_tracked [where c = Conn0] assms(1,4,5) simp: Conn0_def split: sum.splits)
  with None show ?thesis by (simp add: routed_def)
next
  case (Some c)
  have "linked tok opn (decide pkt BLOCK (put_conn (fv_key f) (c\<lparr>cn_last := now\<rparr>) s))"
    by (intro linked_decide linked_put [OF assms(2) Some]) simp_all
  moreover have "cn_state c = Wait" if "cn_state c \<noteq> Block" using that by (cases "cn_state c") simp_all
  ultimately show ?thesis
    using linked_feed_tracked [OF assms(1,2) Some _ assms(4,5)] Some by (simp add: routed_def)
qed

lemma linked_sweep:
  assumes "tracks_connections conn opn W" "\<not> x_feeding s" "linked tok opn s"
  shows "preserves (\<lambda>t. linked tok opn t \<and> x_to_close t = []) (sweep W now s)"
proof -
  let ?L = "linked tok opn"
  have fin: "preserves (\<lambda>t. ?L t \<and> x_to_close t = [])
      (pcpp_call W (w_purge W) t \<bind> (\<lambda>s2. drain_closes W s2 \<bind> (\<lambda>s3. Some (publish s3))))"
    if "?L t" "\<not> x_feeding t" for t
  proof -
    from linked_purge [OF assms(1) that(2,1)] obtain u where
      u: "pcpp_call W (w_purge W) t = Some u" "linked tok opn u" "\<not> x_feeding u" by (auto simp: ensures_iff)
    from linked_drain [OF assms(1) u(3,2)] u(1) show ?thesis
      by (auto simp: ensures_iff conn_simps intro!: linked_publish)
  qed
  have "preserves (\<lambda>t. ?L t \<and> \<not> x_feeding t) (mfold (expire W) ks (s\<lparr>x_blocked := n\<rparr>))" for ks n
  proof (rule preserves_mfold)
    fix k and t :: "'a extractor"
    assume "?L t \<and> \<not> x_feeding t"
    with linked_expire [of tok opn t W k] expire_feeding [of t W k]
    show "preserves (\<lambda>t. ?L t \<and> \<not> x_feeding t) (expire W k t)" by (auto simp: preserves_def)
  qed (use assms in \<open>auto elim: linked_cong\<close>)
  then show ?thesis
    unfolding sweep_def Let_def preserves_bind [of _ "mfold _ _ _"] by (rule preserves_mono) (simp add: fin)
qed

lemma linked_tick:
  assumes "tracks_connections conn opn W" "\<not> x_feeding s" "linked tok opn s"
  shows "preserves (linked tok opn) (tick W now s)"
proof -
  have "linked tok opn (s\<lparr>x_lastSweep := now\<rparr>)" using assms(3) by (rule linked_cong) simp_all
  with linked_sweep [OF assms(1), of "s\<lparr>x_lastSweep := now\<rparr>" tok now] assms(2,3) show ?thesis
    by (auto simp: tick_def elim: preserves_mono)
qed

lemma linked_feed:
  assumes "tracks_connections conn opn W" "\<not> x_feeding s" "linked tok opn s"
    "agrees conn tok pkt" "\<And>k. tok k \<noteq> 0"
  shows "preserves (linked tok opn) (feed W now pkt s)"
proof -
  have tick: "preserves (\<lambda>t. linked tok opn t \<and> now - x_lastSweep t < kSweepInterval) (tick W now s)"
    using linked_tick [OF assms(1-3)] tick_not_due by (simp add: preserves_def)
  have routed: "preserves (linked tok opn) (routed W now f pkt t)"
    if "linked tok opn t" "now - x_lastSweep t < kSweepInterval" "flow_view pkt = Some (True, f)"
      "fv_ip_proto f = kProtoTcp" "has_bytes pkt" for f t
    using that assms(4,5) by (intro linked_routed [OF assms(1)]) (auto simp: agrees_def)
  show ?thesis
    unfolding feed_routed preserves_bind [of _ "tick _ _ _"]
    by (rule preserves_mono [OF tick])
      (auto simp: preserves_bind preserves_def [of _ "if has_bytes pkt then _ else _"] preserves_map
        intro!: linked_publish linked_decide preserves_mono [OF routed] split: if_splits)
qed

lemma linked_flush:
  assumes "tracks_connections conn opn W" "world_ok W" "ready s" "linked tok opn s"
  shows "preserves (\<lambda>t. linked tok opn t \<and> opn (x_reassembly t) = {}) (flush W s)"
proof -
  from flush_settles [OF assms(2,3)] obtain t where
    t: "mfold (\<lambda>key t. resolve W key None t) (waiting_flows W s) s = Some t"
      "evolves (set (waiting_flows W s)) {#} s t" "\<And>k. \<not> undecided t k"
    by (auto simp: ensures_iff)
  have "preserves (linked tok opn) (mfold (\<lambda>key t. resolve W key None t) (waiting_flows W s) s)"
    using assms(4) by (intro preserves_mfold linked_resolve)
  then have lt: "linked tok opn t" using t(1) by simp
  have feeding: "\<not> x_feeding t" using assms(3) t(2) by (simp add: evolves_def ready_def)
  have "opn (x_reassembly t) \<subseteq> set (x_to_close t)"
    using lt t(3) by (auto simp: linked_def claims_def owned_def undecided_def)
  then have none: "opn (foldl (\<lambda>r t. fst (w_close W r t)) (x_reassembly t) (x_to_close t)) = {}"
    using closed_shrink [OF assms(1), of "x_reassembly t" "x_to_close t"] by blast
  show ?thesis
    using t(1) none feeding
    by (simp add: flush_def Let_def waiting_flows_def drain_closes_idle conn_simps linked_def claims_def tidy_def)
qed

lemma perform_linked:
  assumes "tracks_connections conn opn W" "world_ok W" "ready s" "linked tok opn s"
    "list_all (agrees conn tok) (fed_packets [c])" "\<And>k. tok k \<noteq> 0"
  shows "preserves (\<lambda>t. linked tok opn t \<and> (c = Flush \<longrightarrow> opn (x_reassembly t) = {})) (perform W c s)"
proof (cases c)
  case (Feed now pkt)
  then show ?thesis using linked_feed [OF assms(1) _ assms(4)] assms(3,5,6) by (simp add: ready_def)
next
  case (Tick now)
  then show ?thesis using linked_tick [OF assms(1) _ assms(4)] assms(3) by (simp add: ready_def)
next
  case Flush
  then show ?thesis using linked_flush [OF assms(1-4)] by simp
next
  case Drain
  then show ?thesis using assms(4) by (auto elim: linked_cong)
qed

text \<open>The connections of the undecided flows, of which there are at most as many as entries.\<close>

definition waiting_keys :: "'r extractor \<Rightarrow> u32 set" where
  "waiting_keys s = {t. \<exists>k c. find_conn s k = Some c \<and> cn_state c = Wait \<and> cn_pcpp_key c = t}"

lemma linked_waiting: "linked tok opn s \<Longrightarrow> opn (x_reassembly s) \<subseteq> set (x_to_close s) \<union> waiting_keys s"
  by (auto simp: linked_def claims_def owned_def waiting_keys_def)

lemma card_waiting_keys: "card (waiting_keys s) \<le> length (x_conns s)"
proof -
  have "waiting_keys s \<subseteq> (\<lambda>(k, c). cn_pcpp_key c) ` set (x_conns s)"
    by (force simp: waiting_keys_def dest: map_of_SomeD)
  then have "card (waiting_keys s) \<le> card ((\<lambda>(k, c). cn_pcpp_key c) ` set (x_conns s))"
    by (intro card_mono) auto
  also have "\<dots> \<le> length (x_conns s)"
    using card_image_le [of "set (x_conns s)"] card_length [of "x_conns s"] le_trans by blast
  finally show ?thesis .
qed

lemma performs_linked:
  assumes "tracks_connections conn opn W" "world_ok W" "ready s" "linked tok opn s" "list_all call_ok cs"
    "list_all (agrees conn tok) (fed_packets cs)" "\<And>k. tok k \<noteq> 0"
  shows "ensures (mfold (perform W) cs s) (\<lambda>t. ready t \<and> linked tok opn t \<and>
    (cs \<noteq> [] \<and> last cs = Flush \<longrightarrow> opn (x_reassembly t) = {}))"
  using assms
proof (induction cs arbitrary: s)
  case (Cons c cs)
  have ok: "call_ok c" "list_all call_ok cs" using Cons.prems(5) by simp_all
  have ag: "list_all (agrees conn tok) (fed_packets [c])" "list_all (agrees conn tok) (fed_packets cs)"
    using Cons.prems(6) by (cases c; simp)+
  from perform_implements [OF Cons.prems(2,3) ok(1)] obtain t where
    t: "perform W c s = Some t" "ready t" by (auto simp: ensures_iff)
  with perform_linked [OF Cons.prems(1-4) ag(1) Cons.prems(7)]
  have "linked tok opn t" "c = Flush \<longrightarrow> opn (x_reassembly t) = {}" by simp_all
  with Cons.IH [OF Cons.prems(1,2) t(2) _ ok(2) ag(2) Cons.prems(7)] t show ?case by (cases cs) auto
qed simp

text \<open>
  Two connections with one flow key: the start of the second overwrites the key of the first,
  which no entry and no queue of closes knows any more.
\<close>

lemma colliding_start_forgets:
  assumes "x_feeding s" "find_conn s (x_current_key s) = Some c" "cn_state c = Wait"
    "owned s (cn_pcpp_key c)" "T \<noteq> cn_pcpp_key c" "cn_pcpp_key c \<notin> set (x_to_close s)"
    "\<And>k d. find_conn s k = Some d \<Longrightarrow> k \<noteq> x_current_key s \<Longrightarrow> cn_pcpp_key d \<noteq> cn_pcpp_key c"
  shows "ensures (onConnectionStart T s) (\<lambda>t. \<not> owned t (cn_pcpp_key c))"
  using assms by (auto simp: onConnectionStart_def owned_def conn_simps)

lemma new_extractor_linked: "opn r = {} \<Longrightarrow> linked tok opn (new_extractor r mf mb)"
  by (simp add: linked_def claims_def tidy_def new_extractor_def Let_def)

end
