(* ===== verification/Extractor_Throw.thy ===== *)
theory Extractor_Throw
  imports Worker_Proofs Extractor_Reentry
begin

text \<open>
  Exceptions that leave \<^verbatim>\<open>feed\<close>. Wrapping a packet for PcapPlusPlus and reassembling it
  allocate and may throw; nothing in \<^verbatim>\<open>feed\<close> catches, the destructor of its local
  \<^verbatim>\<open>PublishOnExit\<close> runs, the packet it took by value is destroyed, and the handler of
  the queue swallows the exception. This theory models the state an exception leaves behind
  and what becomes of the packet.
\<close>

section \<open>The state an exception leaves\<close>

text \<open>
  Where the exception comes from: the construction of \<^verbatim>\<open>pcpp::RawPacket\<close> and
  \<^verbatim>\<open>pcpp::Packet\<close>, or the call of \<^verbatim>\<open>reassemblePacket\<close>, which has then made the callbacks
  \<open>w_reassemble\<close> lists.
\<close>

datatype throw_point = Wrapping | Reassembling

text \<open>\<open>None\<close> when \<^verbatim>\<open>feed\<close> does not get to that point.\<close>

definition tracked_throws ::
    "'r world \<Rightarrow> int \<Rightarrow> throw_point \<Rightarrow> FlowView \<Rightarrow> Packet \<Rightarrow> 'r extractor \<Rightarrow> 'r extractor option" where
  "tracked_throws W now at f pkt s0 =
     (case find_conn s0 (fv_key f) of
        None \<Rightarrow> None
      | Some c0 \<Rightarrow>
          let key = fv_key f;
              c = c0\<lparr>cn_last := now\<rparr>;
              s = put_conn key c s0;
              hold = (fv_payload_len f > 0)
          in
          if length (cn_held c) \<ge> kMaxPacketsPerConn then None
          else if \<not> hold \<and> fv_tcp_flags f AND (kTcpSyn OR kTcpFin OR kTcpRst) = 0 then None
          else (case at of
                  Wrapping \<Rightarrow> Some s
                | Reassembling \<Rightarrow> do {
                    raw \<leftarrow> packet_data pkt;
                    let s1 = (if hold then put_conn key (c\<lparr>cn_held := cn_held c @ [pkt]\<rparr>) s else s);
                    pcpp_call W (\<lambda>r. w_reassemble W r (take (pk_len pkt) raw))
                      (s1\<lparr>x_current_key := key, x_feeding := True\<rparr>)
                  }))"

definition feed_throws ::
    "'r world \<Rightarrow> int \<Rightarrow> throw_point \<Rightarrow> Packet \<Rightarrow> 'r extractor \<Rightarrow> 'r extractor option" where
  "feed_throws W now at pkt s = do {
     s0 \<leftarrow> tick W now s;
     (ok, f) \<leftarrow> (if has_bytes pkt then flow_view pkt else Some (False, FlowView0));
     s' \<leftarrow>
       (if \<not> ok \<or> fv_ip_proto f \<noteq> kProtoTcp then None
        else (case find_conn s0 (fv_key f) of
                Some c \<Rightarrow> if cn_state c = Block then None else tracked_throws W now at f pkt s0
              | None \<Rightarrow> do {
                  t \<leftarrow> start_tracking W now f pkt s0;
                  case t of Inl s1 \<Rightarrow> None | Inr s1 \<Rightarrow> tracked_throws W now at f pkt s1
                }));
     Some (publish s')
   }"

text \<open>The worker's callback when \<^verbatim>\<open>feed\<close> throws: the packet has been moved into the call.\<close>

definition throwing_callback ::
    "'r world \<Rightarrow> throw_point \<Rightarrow> int \<Rightarrow> 'r extractor callback" where
  "throwing_callback W at now pkt s =
     (let (q, x) = s; (arg, husk) = move_packet pkt
      in map_option (\<lambda>x'. (husk, q, x')) (feed_throws W now at arg x))"

section \<open>It is a state on the way of the packet\<close>

text \<open>
  Where nothing is thrown, \<^verbatim>\<open>feed\<close> goes on from the very state an exception in the
  reassembler would leave.
\<close>

lemma tracked_resumes:
  assumes "tracked_throws W now Reassembling f pkt s = Some s'"
  shows "feed_tracked W now f pkt s = do {
    t \<leftarrow> drain_closes W (s'\<lparr>x_feeding := False\<rparr>);
    Some (if fv_payload_len f > 0 then release_last (fv_key f) t else decide pkt ALLOW t) }"
  using assms unfolding tracked_throws_def feed_tracked_def reassemble_def
  by (auto simp: Let_def split: option.splits if_splits Option.bind_splits)

text \<open>The way of the packet up to its entry in the table.\<close>

lemma feed_throwsE:
  assumes "feed_throws W now at pkt s = Some s'" "flow_view pkt = Some (True, f)"
  obtains s0 s1 t where "tick W now s = Some s0" "has_bytes pkt" "fv_ip_proto f = kProtoTcp"
    "find_conn s0 (fv_key f) = None \<and> start_tracking W now f pkt s0 = Some (Inr s1) \<or>
     undecided s0 (fv_key f) \<and> s1 = s0"
    "tracked_throws W now at f pkt s1 = Some t" "s' = publish t"
proof -
  from assms obtain s0 t where *: "tick W now s = Some s0" "has_bytes pkt" "fv_ip_proto f = kProtoTcp" "s' = publish t"
    "(case find_conn s0 (fv_key f) of
        Some c \<Rightarrow> if cn_state c = Block then None else tracked_throws W now at f pkt s0
      | None \<Rightarrow> do {
          t \<leftarrow> start_tracking W now f pkt s0;
          case t of Inl s1 \<Rightarrow> None | Inr s1 \<Rightarrow> tracked_throws W now at f pkt s1
        }) = Some t"
    unfolding feed_throws_def by (auto split: Option.bind_splits if_splits)
  show ?thesis
  proof (cases "find_conn s0 (fv_key f)")
    case None
    with * that show ?thesis by (auto split: Option.bind_splits sum.splits)
  next
    case (Some c)
    with * have "cn_state c = Wait" by (cases "cn_state c") simp_all
    with Some * that [of s0 s0 t] show ?thesis by (simp add: undecided_def)
  qed
qed

lemma feed_resumes:
  assumes "feed_throws W now Reassembling pkt s = Some s'" "flow_view pkt = Some (True, f)"
  shows "\<exists>t. s' = publish t \<and> feed W now pkt s = do {
    u \<leftarrow> drain_closes W (t\<lparr>x_feeding := False\<rparr>);
    Some (publish (if fv_payload_len f > 0 then release_last (fv_key f) u else decide pkt ALLOW u)) }"
proof -
  from feed_throwsE [OF assms] obtain s0 s1 t where
    *: "tick W now s = Some s0" "has_bytes pkt" "fv_ip_proto f = kProtoTcp"
    "find_conn s0 (fv_key f) = None \<and> start_tracking W now f pkt s0 = Some (Inr s1) \<or>
     undecided s0 (fv_key f) \<and> s1 = s0"
    "tracked_throws W now Reassembling f pkt s1 = Some t" "s' = publish t" .
  have "routed W now f pkt s0 = feed_tracked W now f pkt s1"
    using *(4) by (auto simp: routed_def undecided_def)
  with * assms(2) have "feed W now pkt s = map_option publish (feed_tracked W now f pkt s1)"
    by (simp add: feed_routed)
  with *(6) show ?thesis unfolding tracked_resumes [OF *(5)] by (auto split: Option.bind_splits)
qed

section \<open>What becomes of the packet\<close>

text \<open>
  A packet that was put into its flow before the exception is held there and still owed an
  answer; any other has been destroyed with the frame of \<^verbatim>\<open>feed\<close>.
\<close>

definition survivors :: "throw_point \<Rightarrow> FlowView \<Rightarrow> Packet \<Rightarrow> (u32 \<times> bool) multiset" where
  "survivors at f pkt = (if at = Reassembling \<and> fv_payload_len f > 0 then {#tag pkt#} else {#})"

lemma tracked_throws_ok:
  assumes "world_ok W" "ready s" "undecided s (fv_key f)" "tracked_throws W now at f pkt s = Some s'"
  shows "xinv {} s' \<and> accounts (survivors at f pkt) s s' \<and> (x_feeding s' \<longleftrightarrow> at = Reassembling)"
proof -
  let ?key = "fv_key f"
  from assms(3) obtain c0 where c0: "find_conn s ?key = Some c0" "cn_state c0 = Wait"
    by (auto simp: undecided_def)
  let ?c = "c0\<lparr>cn_last := now\<rparr>"
  let ?s = "put_conn ?key ?c s"
  have s: "ready ?s" "accounts {#} s ?s" using stamp_ok [OF assms(2) c0(1)] by simp_all
  have find: "find_conn ?s ?key = Some ?c" by (simp add: conn_simps)
  show ?thesis
  proof (cases at)
    case Wrapping
    with assms(4) c0 s show ?thesis
      by (auto simp: tracked_throws_def Let_def survivors_def ready_def split: if_splits)
  next
    case Reassembling
    let ?h = "put_conn ?key (?c\<lparr>cn_held := cn_held ?c @ [pkt]\<rparr>) ?s"
    let ?s1 = "if fv_payload_len f > 0 then ?h else ?s"
    obtain raw where raw: "pcpp_call W (\<lambda>r. w_reassemble W r raw)
        (?s1\<lparr>x_current_key := ?key, x_feeding := True\<rparr>) = Some s'" and room: "length (cn_held c0) < kMaxPacketsPerConn"
      using assms(4) c0 Reassembling
      by (auto simp: tracked_throws_def Let_def split: if_splits Option.bind_splits)
    have "xinv {} ?h \<and> accounts {#tag pkt#} ?s ?h" using s(1) find c0(2) room by (intro hold_ok) simp_all
    then have s1: "xinv {} ?s1" "accounts (survivors at f pkt) s ?s1"
      using s accounts_trans [OF s(2), of "{#tag pkt#}" ?h] Reassembling by (auto simp: survivors_def ready_def)
    obtain r es where call: "w_reassemble W (x_reassembly ?s1) raw = (r, es)" by fastforce
    let ?s2 = "?s1\<lparr>x_current_key := ?key, x_feeding := True, x_reassembly := r\<rparr>"
    have "list_all event_ok es" using world_ok_events [OF assms(1), of "x_reassembly ?s1" raw] call by simp
    moreover have "xinv {} ?s2" using s1(1) by simp
    ultimately have "ensures (mfold (on_event W) es ?s2) (\<lambda>t. xinv {} t \<and> evolves {x_current_key ?s2} {#} ?s2 t)"
      by (intro events_ok)
    moreover have "mfold (on_event W) es ?s2 = Some s'" using raw call by (simp add: pcpp_call_def)
    ultimately have s': "xinv {} s'" "evolves {x_current_key ?s2} {#} ?s2 s'" by simp_all
    have "accounts {#} ?s1 s'" using evolves_accounts [OF s'(2)] by (simp add: accounts_def debt_def)
    with s1(2) have "accounts (survivors at f pkt) s s'" using accounts_trans by fastforce
    with s' Reassembling show ?thesis by (simp add: evolves_def)
  qed
qed

text \<open>A packet with payload of an undecided flow with room gets to either point.\<close>

lemma tracked_throws_total:
  assumes "world_ok W" "ready s" "find_conn s (fv_key f) = Some c" "cn_state c = Wait"
    "length (cn_held c) < kMaxPacketsPerConn" "fv_payload_len f > 0" "packet_data pkt = Some b"
  shows "\<exists>t. tracked_throws W now at f pkt s = Some t"
proof (cases at)
  case Wrapping
  with assms show ?thesis by (simp add: tracked_throws_def Let_def)
next
  case Reassembling
  let ?key = "fv_key f" and ?c = "c\<lparr>cn_last := now\<rparr>" and ?raw = "take (pk_len pkt) b"
  let ?h = "put_conn ?key (?c\<lparr>cn_held := cn_held c @ [pkt]\<rparr>) (put_conn ?key ?c s)"
  have "ready (put_conn ?key ?c s)" using stamp_ok [OF assms(2,3)] by simp
  then have "xinv {} ?h"
    using hold_ok [of "put_conn ?key ?c s" ?key ?c pkt] assms(4,5) by (simp add: conn_simps)
  then have "xinv {} (?h\<lparr>x_current_key := ?key, x_feeding := True, x_reassembly := r\<rparr>)" for r by simp
  from events_ok [OF this world_ok_events [OF assms(1), of "x_reassembly ?h" ?raw]]
  have "ensures (pcpp_call W (\<lambda>r. w_reassemble W r ?raw) (?h\<lparr>x_current_key := ?key, x_feeding := True\<rparr>))
      (\<lambda>t. True)"
    by (simp add: pcpp_call_def case_prod_unfold Let_def ensures_iff) blast
  with assms Reassembling show ?thesis by (auto simp: tracked_throws_def Let_def ensures_iff)
qed

lemma feed_throws_ok:
  assumes "world_ok W" "ready s" "packet_wf pkt" "flow_view pkt = Some (True, f)"
    "feed_throws W now at pkt s = Some s'"
  shows "xinv {} s' \<and> accounts (survivors at f pkt) s s' \<and> (x_feeding s' \<longleftrightarrow> at = Reassembling)"
proof -
  from feed_throwsE [OF assms(5,4)] obtain s0 s1 t where
    *: "tick W now s = Some s0" "has_bytes pkt" "fv_ip_proto f = kProtoTcp"
    "find_conn s0 (fv_key f) = None \<and> start_tracking W now f pkt s0 = Some (Inr s1) \<or>
     undecided s0 (fv_key f) \<and> s1 = s0"
    "tracked_throws W now at f pkt s1 = Some t" "s' = publish t" .
  have s0: "ready s0" "accounts {#} s s0" using tick_ok [OF assms(2), of W now] *(1) by simp_all
  have "viewed pkt f" using flow_view_viewed [OF assms(3) *(2)] assms(4) by simp
  with *(4) s0(1) have s1: "ready s1" "accounts {#} s0 s1" "undecided s1 (fv_key f)"
    using start_tracking_ok [of s0 pkt f W now] by (auto simp: tracked_def undecided_def Conn0_def)
  have "accounts {#} s s1" using accounts_trans [OF s0(2) s1(2)] by simp
  with tracked_throws_ok [OF assms(1) s1(1,3) *(5)] accounts_trans [of "{#}" s s1 _ t] *(6) show ?thesis
    by (auto simp: conn_simps)
qed

section \<open>What the queue sees of it\<close>

text \<open>
  The handler of the queue finds an empty packet, since moving cleared its obligation: the
  fail-safe that accepts a packet nobody has taken does not run.
\<close>

lemma handle_throws:
  assumes "world_ok W" "ready x" "message_ok m" "flow_view (message_packet m) = Some (True, f)"
    "handle K (throwing_callback W at now) m (q, x) = Some (q', x')"
  shows "nq_log q' = nq_log q \<and> nq_undecided q' = nq_undecided q \<and> nq_received q' = nq_received q + 1 \<and>
    debt x' = debt x + survivors at f (message_packet m) \<and> (x_feeding x' \<longleftrightarrow> at = Reassembling)"
proof -
  let ?p = "message_packet m"
  have mv: "fst (move_packet ?p) = ?p" "\<not> pk_pending (snd (move_packet ?p))"
    using move_packet_pending [of ?p] by simp_all
  with assms(5) have "feed_throws W now at ?p x = Some x'" "q' = q\<lparr>nq_received := nq_received q + 1\<rparr>"
    by (auto simp: handle_def throwing_callback_def Let_def case_prod_unfold split: Option.bind_splits if_splits)
  with feed_throws_ok [OF assms(1,2) message_packet_ok(1) [OF assms(3)] assms(4)] show ?thesis
    by (simp add: accounts_def)
qed

section \<open>The flag that stays set\<close>

text \<open>
  After an exception from the reassembler the extractor still takes itself to be feeding the
  packet of that flow: an end of connection reported from a purge, of whichever connection, then
  settles the flow, until the next packet goes through the reassembler.
\<close>

lemma stale_end_settles:
  assumes "xinv {} s" "x_feeding s" "call (x_reassembly s) = (r, [ConnectionEnd])"
  shows "ensures (pcpp_call W call s) (\<lambda>t. \<not> undecided t (x_current_key s))"
proof (cases "find_conn s (x_current_key s)")
  case None
  with assms(3) show ?thesis
    by (simp add: pcpp_call_def onConnectionEnd_def) (simp add: undecided_def)
next
  case (Some c)
  let ?key = "x_current_key s" and ?c = "c\<lparr>cn_pcpp_closed := True\<rparr>"
  have "conn_ok c" using table_find [OF _ Some] assms(1) by (auto simp: xinv_def)
  then have "conn_ok ?c" by simp
  then have "xinv {} (put_conn ?key ?c (s\<lparr>x_reassembly := r\<rparr>))"
    using put_ok [of "s\<lparr>x_reassembly := r\<rparr>" ?key c ?c "{}"] assms(1) Some by simp
  then have "xinv {?key} (put_conn ?key ?c (s\<lparr>x_reassembly := r\<rparr>))" by (rule xinv_mono) simp
  from resolve_not_waiting [OF this] assms(2,3) Some show ?thesis
    by (simp add: pcpp_call_def onConnectionEnd_def ensures_bind)
qed

end
