(* ===== verification/Worker_Flows.thy ===== *)
theory Worker_Flows
  imports Inspector Extractor_Flows
begin

text \<open>
  The machine of flow states over the runs of a worker: a worker does nothing with its
  extractor but feed it the packets that come in, tick or flush it and collect its verdicts, and
  what it tells the kernel are the verdicts of the machine, in their order.
\<close>

section \<open>What the machine reports\<close>

text \<open>The verdicts of packets that are owed one, as the kernel is told them.\<close>

definition reported :: "(packet_tag \<times> Verdict) list \<Rightarrow> (u32 \<times> nf_verdict) list" where
  "reported said = map (\<lambda>(t, v). (fst t, nf_of v)) (filter (\<lambda>(t, v). snd t) said)"

text \<open>
  \<open>flow_log D cs a l\<close>: after the calls \<open>cs\<close> the machine may be in \<open>a\<close> with \<open>l\<close> reported. Collecting
  reports what has been said since the last time.
\<close>

inductive flow_log ::
    "(string option \<Rightarrow> Verdict) \<Rightarrow> call list \<Rightarrow> inspection \<Rightarrow> (u32 \<times> nf_verdict) list \<Rightarrow> bool" for D where
  nothing: "flow_log D [] fresh_inspection []"
| another: "flow_log D cs a l \<Longrightarrow> flow_call D c a b \<Longrightarrow>
    flow_log D (cs @ [c]) b (l @ (if c = Drain then reported (in_said a) else []))"

lemma fed_packets_feeds [simp]:
  "fed_packets (map (\<lambda>(now, m). Feed now (message_packet m)) ms) = map (message_packet \<circ> snd) ms"
  by (induction ms) auto

text \<open>
  Seen from the machine alone: whoever is told to be dropped has a name of the list to blame.
\<close>

lemma flow_call_blamed:
  assumes "flow_call D c a b" "blamed D a"
  shows "blamed D b \<and> prefix (in_asked a) (in_asked b)"
  using assms
proof cases
  case (fed pkt k now)
  then show ?thesis using flow_steps_blamed [OF fed(3) assms(2)] flow_steps_say [OF fed(3)] by simp
next
  case (ticked now)
  then show ?thesis using flow_steps_blamed [OF ticked(2) assms(2)] flow_steps_say [OF ticked(2)] by simp
next
  case flushed
  then show ?thesis using flow_steps_blamed [OF flushed(2) assms(2)] flow_steps_say [OF flushed(2)] by simp
next
  case collected
  with assms(2) show ?thesis by (auto simp: blamed_def)
qed

lemma flow_log_blamed:
  assumes "flow_log D cs a l"
  shows "blamed D a \<and> (NF_DROP \<in> snd ` set l \<longrightarrow> (\<exists>h\<in>set (in_asked a). D h = BLOCK))"
  using assms
proof (induction rule: flow_log.induct)
  case nothing
  then show ?case by (simp add: blamed_def fresh_inspection_def)
next
  case (another cs a l c b)
  have ext: "prefix (in_asked a) (in_asked b)" "blamed D b"
    using flow_call_blamed [OF another.hyps(2)] another.IH by simp_all
  have "NF_DROP \<in> snd ` set (reported (in_said a)) \<Longrightarrow> BLOCK \<in> snd ` set (in_said a)"
    by (force simp: reported_def nf_of_def split: if_splits)
  then have "\<exists>h\<in>set (in_asked a). D h = BLOCK"
    if "NF_DROP \<in> snd ` set (l @ (if c = Drain then reported (in_said a) else []))"
    using that another.IH by (auto simp: blamed_def split: if_splits)
  with ext show ?case by (auto dest: set_mono_prefix)
qed

text \<open>A list of calls without a collection, performed by the extractor.\<close>

lemma flow_log_performs:
  assumes "flow_log (w_decide W) cs (inspection_of s) l" "world_ok W" "ready s" "list_all call_ok ds"
    "Drain \<notin> set ds" "mfold (perform W) ds s = Some s'"
  shows "flow_log (w_decide W) (cs @ ds) (inspection_of s') l \<and> ready s'"
  using assms
proof (induction ds arbitrary: cs s)
  case (Cons d ds)
  then obtain t where t: "perform W d s = Some t" "mfold (perform W) ds t = Some s'"
    by (auto split: Option.bind_splits)
  with perform_implements [OF Cons.prems(2,3), of d] Cons.prems(4)
  have *: "ready t" "flow_call (w_decide W) d (inspection_of s) (inspection_of t)" by simp_all
  from another [OF Cons.prems(1) *(2)] Cons.prems(5)
  have "flow_log (w_decide W) (cs @ [d]) (inspection_of t) l" by (auto split: if_splits)
  from Cons.IH [OF this Cons.prems(2) *(1)] Cons.prems(4,5) t(2) show ?case by simp
qed simp

section \<open>What a worker does\<close>

lemma submit_all_log:
  "nq_log (foldl (\<lambda>q d. snd (submit K (dc_pkt d) (dc_verdict d) q)) q ds) =
   nq_log q @ reported (map (\<lambda>d. (tag (dc_pkt d), dc_verdict d)) ds)"
proof (induction ds arbitrary: q)
  case (Cons d ds)
  have "nq_log (snd (submit K (dc_pkt d) (dc_verdict d) q)) =
      nq_log q @ reported [(tag (dc_pkt d), dc_verdict d)]"
    using submit_pending [of "dc_pkt d" K "dc_verdict d" q]
    by (cases "pk_pending (dc_pkt d)") (simp_all add: reported_def tag_def submit_husk)
  with Cons.IH show ?case by (simp add: reported_def)
qed (simp add: reported_def)

lemma handle_is_feed:
  "handle K (worker_callback K (TcpTlsHostnameExtractor W) False now) m (q, x) =
   map_option (Pair (q\<lparr>nq_received := nq_received q + 1\<rparr>)) (feed W now (message_packet m) x)"
  using move_packet_pending [of "message_packet m"]
  by (cases "move_packet (message_packet m)"; cases "feed W now (message_packet m) x")
    (simp_all add: handle_def worker_callback_def Let_def)

lemma messages_are_feeds:
  assumes "mfold (\<lambda>(now, nfa). handle K (worker_callback K (TcpTlsHostnameExtractor W) False now) nfa) ms (q, x) =
    Some (q', x')"
  shows "mfold (perform W) (map (\<lambda>(now, m). Feed now (message_packet m)) ms) x = Some x' \<and>
    nq_log q' = nq_log q \<and> nq_stop_fd q' = nq_stop_fd q"
  using assms
proof (induction ms arbitrary: q x)
  case (Cons nm ms)
  obtain now m where nm: "nm = (now, m)" by (cases nm)
  with Cons.prems obtain y where y: "feed W now (message_packet m) x = Some y"
    "mfold (\<lambda>(now, nfa). handle K (worker_callback K (TcpTlsHostnameExtractor W) False now) nfa) ms
       (q\<lparr>nq_received := nq_received q + 1\<rparr>, y) = Some (q', x')"
    by (auto simp: handle_is_feed split: Option.bind_splits)
  from Cons.IH [OF y(2)] y(1) nm show ?case by simp
qed simp

text \<open>One turn: the packets of the turn, then time or shutdown, then a collection.\<close>

lemma turn_performs:
  assumes "worker_turn K (TcpTlsHostnameExtractor W) False t (q, x) = Some (left, q', x')" "turn_ok t"
  shows "\<exists>ds y. mfold (perform W) ds x = Some y \<and> x' = y\<lparr>x_decided := []\<rparr> \<and>
    nq_log q' = nq_log q @ reported (in_said (inspection_of y)) \<and>
    list_all call_ok ds \<and> Drain \<notin> set ds \<and>
    fed_packets ds = map message_packet (turn_messages (nq_stop_fd q) t)"
proof -
  let ?E = "TcpTlsHostnameExtractor W" and ?fd = "nq_stop_fd q"
  let ?ms = "if turn_event ?fd t = Packets then t_msgs t else []"
  let ?feeds = "map (\<lambda>(now, m). Feed now (message_packet m)) ?ms"
  obtain ev q1 x1 where once: "run_once K (worker_callback K ?E False) t (q, x) = Some (ev, q1, x1)"
    using assms(1) by (auto simp: worker_turn_def split: Option.bind_splits)
  have fed: "mfold (perform W) ?feeds x = Some x1 \<and> nq_log q1 = nq_log q"
  proof (cases "turn_event ?fd t = Packets")
    case True
    with once messages_are_feeds [of K W "t_msgs t" q x q1 x1] show ?thesis by (auto simp: run_once_packets)
  next
    case False
    with once run_once_quiet [OF False, of K "worker_callback K ?E False" x] show ?thesis by auto
  qed
  have ok: "list_all call_ok ?feeds"
    using assms(2) message_packet_ok(1) by (fastforce simp: turn_ok_def list_all_iff)
  have packets: "fed_packets (?feeds @ [c]) = map message_packet (turn_messages ?fd t)" if "c = Flush \<or> (\<exists>n. c = Tick n)" for c
    using that by (auto simp: turn_messages_def)
  have none: "Drain \<notin> set ?feeds" by auto
  have log: "nq_log (fst (drain_decided K ?E (q1, y))) = nq_log q @ reported (in_said (inspection_of y))"
    "snd (drain_decided K ?E (q1, y)) = y\<lparr>x_decided := []\<rparr>" for y
    using fed by (simp_all add: drain_decided_def Let_def submit_all_log inspection_of_def)
  show ?thesis
  proof (cases "ev = Stop \<or> ev = Error")
    case True
    with assms(1) once obtain y where y: "flush W x1 = Some y" "drain_decided K ?E (q1, y) = (q', x')"
      by (auto simp: worker_turn_def shutdown_def split: Option.bind_splits)
    with fed log [of y] ok none packets [of Flush] show ?thesis
      by (intro exI [of _ "?feeds @ [Flush]"] exI [of _ y]) (auto simp: mfold_append)
  next
    case False
    with assms(1) once obtain y where y: "tick W (t_now t) x1 = Some y" "drain_decided K ?E (q1, y) = (q', x')"
      by (auto simp: worker_turn_def split: Option.bind_splits)
    with fed log [of y] ok none packets [of "Tick (t_now t)"] show ?thesis
      by (intro exI [of _ "?feeds @ [Tick (t_now t)]"] exI [of _ y]) (auto simp: mfold_append)
  qed
qed

section \<open>Runs\<close>

lemma turn_reports:
  assumes "flow_log (w_decide W) cs (inspection_of (snd w)) (nq_log (fst w))" "world_ok W" "ready (snd w)"
    "worker_turn K (TcpTlsHostnameExtractor W) False t w = Some (left, w')" "turn_ok t"
  shows "\<exists>ds. flow_log (w_decide W) (cs @ ds) (inspection_of (snd w')) (nq_log (fst w')) \<and> ready (snd w') \<and>
    fed_packets ds = map message_packet (turn_messages (nq_stop_fd (fst w)) t)"
proof -
  from turn_performs [of K W t "fst w" "snd w" left "fst w'" "snd w'"] assms(4,5) obtain ds y where
    ds: "mfold (perform W) ds (snd w) = Some y" "snd w' = y\<lparr>x_decided := []\<rparr>"
      "nq_log (fst w') = nq_log (fst w) @ reported (in_said (inspection_of y))"
      "list_all call_ok ds" "Drain \<notin> set ds"
      "fed_packets ds = map message_packet (turn_messages (nq_stop_fd (fst w)) t)" by auto
  from flow_log_performs [OF assms(1-3) ds(4,5,1)]
  have y: "flow_log (w_decide W) (cs @ ds) (inspection_of y) (nq_log (fst w))" "ready y" by simp_all
  have "inspection_of (snd w') = (inspection_of y)\<lparr>in_said := []\<rparr>" using ds(2) by (simp add: inspection_of_def)
  with another [OF y(1), of Drain] collected [of "w_decide W" "inspection_of y"] ds(3)
  have "flow_log (w_decide W) (cs @ ds @ [Drain]) (inspection_of (snd w')) (nq_log (fst w'))" by simp
  moreover have "ready (snd w')" using y(2) ds(2) by (simp add: ready_def shells_def)
  ultimately show ?thesis using ds(6) by (intro exI [of _ "ds @ [Drain]"]) simp
qed

lemma runs_report:
  assumes "runs K (TcpTlsHostnameExtractor W) False w0 ms left w" "world_ok W" "ready (snd w0)"
    "inspection_of (snd w0) = fresh_inspection" "nq_log (fst w0) = []"
  shows "\<exists>cs. flow_log (w_decide W) cs (inspection_of (snd w)) (nq_log (fst w)) \<and> ready (snd w) \<and>
    fed_packets cs = map message_packet ms"
  using assms
proof (induction rule: runs.induct)
  case begin_run
  then show ?case by (intro exI [of _ "[]"]) (simp add: flow_log.nothing)
next
  case (turn_run ms w t left w')
  then obtain cs where cs: "flow_log (w_decide W) cs (inspection_of (snd w)) (nq_log (fst w))" "ready (snd w)"
    "fed_packets cs = map message_packet ms" by blast
  from turn_reports [OF cs(1) assms(2) cs(2) turn_run.hyps(3,2)] obtain ds where
    "flow_log (w_decide W) (cs @ ds) (inspection_of (snd w')) (nq_log (fst w'))" "ready (snd w')"
    "fed_packets ds = map message_packet (turn_messages (nq_stop_fd (fst w)) t)" by blast
  with cs(3) show ?case by (intro exI [of _ "cs @ ds"]) simp
qed

end
