(* ===== verification/Samples.thy ===== *)
theory Samples
  imports Answering Stop_Signal Extractor_Reentry Hello_Roundtrip Hello_Fast Dissect_Roundtrip
    Worker_Idle Connection Extractor_Closing Extractor_Throw
    Worker_Flows
begin

unbundle bit_operations_syntax

text \<open>
  Concrete inputs: three packets of one TCP connection, a reassembler that hands over a
  ClientHello, a kernel that accepts everything, and the states and turns made of them.
  The witnesses of the properties are evaluated on these.
\<close>

section \<open>Packets\<close>

text \<open>An IPv4 packet from 10.0.0.1:32768 to 10.0.0.2:443 with a twenty-byte TCP header.\<close>

definition ip_tcp :: "u8 \<Rightarrow> bytes \<Rightarrow> bytes" where
  "ip_tcp flags payload =
     [0x45, 0, 0, of_nat (40 + length payload), 0, 0, 0, 0, 64, 6, 0, 0, 10, 0, 0, 1, 10, 0, 0, 2,
      0x80, 0, 0x01, 0xBB, 0, 0, 0, 0, 0, 0, 0, 0, 0x50, flags, 0, 0, 0, 0, 0, 0] @ payload"

definition sample_packet :: "u8 \<Rightarrow> bytes \<Rightarrow> Packet" where
  "sample_packet flags payload = Packet_of (Some (ip_tcp flags payload)) (40 + length payload) 7"

definition sample_flow :: "u8 \<Rightarrow> bytes \<Rightarrow> FlowView" where
  "sample_flow flags payload = snd (the (flow_view (sample_packet flags payload)))"

abbreviation data_packet :: Packet where
  "data_packet \<equiv> sample_packet 0x18 [0x16]"

abbreviation data_flow :: FlowView where
  "data_flow \<equiv> sample_flow 0x18 [0x16]"

abbreviation ack_packet :: Packet where
  "ack_packet \<equiv> sample_packet 0x10 []"

abbreviation ack_flow :: FlowView where
  "ack_flow \<equiv> sample_flow 0x10 []"

abbreviation syn_packet :: Packet where
  "syn_packet \<equiv> sample_packet 0x02 []"

abbreviation syn_flow :: FlowView where
  "syn_flow \<equiv> sample_flow 0x02 []"

lemmas sample_eval = sample_flow_def flow_view_def dissect_def parseFlow_def sample_packet_def
  packet_data_def Packet_of_def ip_tcp_def rd8_def parseIPv4_def be16_def memcpy_into_def
  parseL4_def FlowView0_def Let_def kProtoTcp_def kProtoUdp_def sub32_def add32_def

lemma sample_wf:
  "packet_wf data_packet" "packet_wf ack_packet" "packet_wf syn_packet"
  unfolding sample_packet_def by (rule packet_wf_of; simp add: ip_tcp_def)+

lemma sample_views:
  "flow_view data_packet = Some (True, data_flow)"
  "flow_view ack_packet = Some (True, ack_flow)"
  "flow_view syn_packet = Some (True, syn_flow)"
  by (simp_all add: sample_eval)

lemma sample_fields [simp]:
  "fv_ip_proto data_flow = kProtoTcp" "fv_ip_proto ack_flow = kProtoTcp"
  "fv_ip_proto syn_flow = kProtoTcp" "fv_payload_len data_flow = 1" "fv_payload_len ack_flow = 0"
  "fv_tcp_flags ack_flow = 0x10" "fv_tcp_flags syn_flow = 0x02"
  by (simp_all add: sample_eval)

lemma sample_tcp:
  "tcp_packet data_packet data_flow" "tcp_packet ack_packet ack_flow" "tcp_packet syn_packet syn_flow"
  using sample_wf sample_views
  by (simp_all add: tcp_packet_def has_bytes_def packet_data_def sample_packet_def Packet_of_def)

section \<open>Surroundings\<close>

text \<open>The host name \<^verbatim>\<open>a.b\<close>, and a block list that has it.\<close>

definition sample_host :: bytes where
  "sample_host = [97, 46, 98]"

definition sample_file :: string where
  "sample_file = ''a.b'' @ [CHR 0x0A]"

definition sample_list :: BlockList where
  "sample_list = \<lparr>bl_exact = [''a.b''], bl_wildcard = []\<rparr>"

lemma sample_list_blocks: "isHostnameBlocked sample_list ''a.b''"
  by (simp add: isHostnameBlocked_def sample_list_def)

lemma sample_file_loads: "load_blocklist (Some sample_file) = Some sample_list"
  by (simp add: load_blocklist_def sample_file_def sample_list_def getlines.simps add_line_def
      parse_line_def isspace_def insert_host_def BlockList0_def Let_def)

definition sample_world :: "unit world" where
  "sample_world = inspecting \<lparr>w_reassemble = (\<lambda>r raw. (r, [ConnectionStart 9,
       MessageReady kClientSide 9 (client_hello sample_host)])),
     w_close = (\<lambda>r k. (r, [])), w_purge = (\<lambda>r. (r, [])), w_traverse = (\<lambda>ks. ks),
     w_decide = (\<lambda>h. ALLOW)\<rparr> sample_list"

lemma sample_hello_length: "length (client_hello sample_host) = 64"
  by (simp add: client_hello_def sample_host_def enc16_def Let_def)

lemma sample_world_ok: "world_ok sample_world"
  unfolding sample_world_def world_ok_inspecting
  by (simp add: world_ok_def event_ok_def sample_hello_length kMaxStreamBytes_def)

definition sample_kernel :: kernel where
  "sample_kernel = \<lparr>k_open = True, k_bind_pf = 0, k_create_queue = True, k_set_mode = 0,
     k_rcvbufforce = 0, k_errno = (\<lambda>w. 1), k_set_verdict = (\<lambda>l i v. 0), k_strerror = (\<lambda>e. ''error'')\<rparr>"

section \<open>States\<close>

definition sample_x :: "unit extractor" where
  "sample_x = new_extractor () 2 1"

abbreviation sample_key :: u32 where
  "sample_key \<equiv> fv_key data_flow"

text \<open>The extractor while it waits for the ClientHello of the connection.\<close>

definition sample_waiting :: "unit extractor" where
  "sample_waiting = put_conn sample_key Conn0 sample_x"

text \<open>The extractor after it has decided against the connection.\<close>

definition sample_blocked :: "unit extractor" where
  "sample_blocked = the (resolve sample_world sample_key (Some ''a.b'') sample_waiting)"

lemma sample_x_ready: "ready sample_x"
  by (simp add: sample_x_def new_extractor_ready)

lemma sample_waiting_ready: "ready sample_waiting"
  unfolding sample_waiting_def
  by (rule track_ok [THEN conjunct1])
    (simp_all add: sample_x_ready, simp_all add: sample_x_def new_extractor_def)

lemma sample_waiting_find: "find_conn sample_waiting sample_key = Some Conn0"
  by (simp add: sample_waiting_def conn_simps)

lemma sample_no_sweep:
  "no_sweep_due 5 sample_x" "no_sweep_due 5 sample_waiting"
  by (simp_all add: no_sweep_due_def sample_x_def sample_waiting_def new_extractor_def Let_def
      kSweepInterval_def conn_simps)

lemma sample_keys: "fv_key ack_flow = sample_key" "fv_key syn_flow = sample_key"
  by (simp_all add: sample_eval routeKey_def)

lemma sample_hello: "hostname_in (client_hello sample_host) = Some (Found sample_host)"
  using hostname_in_client_hello [of sample_host] by (simp add: sample_host_def)

lemma sample_host_string: "string_of_bytes sample_host = ''a.b''"
  by (simp add: string_of_bytes_def sample_host_def char_of_def bit_0)

lemma sample_waiting_fields [simp]:
  "x_asked sample_waiting = []" "x_decided sample_waiting = []" "x_asked sample_x = []"
  "x_decided sample_x = []" "x_conns sample_x = []"
  by (simp_all add: sample_waiting_def sample_x_def new_extractor_def Let_def conn_simps)

lemma sample_reassemble:
  "w_reassemble sample_world r raw =
    (r, [ConnectionStart 9, MessageReady kClientSide 9 (client_hello sample_host)])"
  by (simp add: sample_world_def inspecting_def)

lemma sample_hello_ok: "hello_ok (test_hello sample_host)"
  by (rule test_hello_ok) (simp add: sample_host_def)

lemma sample_sni: "sni_of (ch_exts (test_hello sample_host)) = Found sample_host"
  by (simp add: test_hello_def sample_host_def)

lemma sample_records_ok: "records_ok [(0x01, enc_hello (test_hello sample_host))]"
  using sample_hello_length
  by (simp add: client_hello_enc records_ok_def del: length_greater_0_conv)

lemma sample_lines: "getlines sample_file = [''a.b'']"
  by (simp add: sample_file_def getlines.simps)

lemma sample_line_blocks: "line_blocks ''a.b'' ''a.b''"
  by (simp add: line_blocks_def parse_line_def isspace_def is_entry_def is_wildcard_def Let_def)

section \<open>Turns\<close>

text \<open>
  A turn that brings one packet, a turn that sees the stop descriptor, and a turn in which poll
  waits in vain.
\<close>

definition sample_message :: nfq_data where
  "sample_message = \<lparr>nd_packet_id = Some 5, nd_payload = Some (ip_tcp 0x18 [0x16]), nd_len = 41\<rparr>"

definition packet_turn :: turn where
  "packet_turn = \<lparr>t_poll = 1, t_poll_errno = 0, t_revents = 1, t_stop_revents = 0, t_recv = 100,
     t_recv_errno = 0, t_msgs = [(5, sample_message)], t_now = 6\<rparr>"

definition stop_turn :: turn where
  "stop_turn = \<lparr>t_poll = 1, t_poll_errno = 0, t_revents = 0, t_stop_revents = 1, t_recv = 0,
     t_recv_errno = 0, t_msgs = [], t_now = 7\<rparr>"

definition idle_turn :: turn where
  "idle_turn = \<lparr>t_poll = 0, t_poll_errno = 0, t_revents = 0, t_stop_revents = 0, t_recv = 0,
     t_recv_errno = 0, t_msgs = [], t_now = 7\<rparr>"

definition sample_config :: worker_config where
  "sample_config = \<lparr>wc_id = 0, wc_queue_num = 3, wc_passthrough = False, wc_pin_cpu = -1\<rparr>"

definition sample_worker :: "unit extractor worker" where
  "sample_worker = (case fst (new_Worker sample_kernel () sample_config 4 8192 1024 2 1) of
     Inr w \<Rightarrow> w | Inl e \<Rightarrow> undefined)"

lemma sample_worker_built:
  "new_Worker sample_kernel () sample_config 4 8192 1024 2 1 =
    (Inr sample_worker, snd (new_Worker sample_kernel () sample_config 4 8192 1024 2 1))"
  by (simp add: sample_worker_def new_Worker_def new_NFQueue_def sample_kernel_def Let_def)

lemma sample_turns_ok: "turn_ok packet_turn" "turn_ok stop_turn"
  by (simp_all add: turn_ok_def packet_turn_def stop_turn_def message_ok_def sample_message_def
      ip_tcp_def kRecvBuf_def)

lemma sample_events [simp]: "turn_event 4 packet_turn = Packets" "turn_event 4 stop_turn = Stop"
  by (simp_all add: turn_event_def packet_turn_def stop_turn_def)

section \<open>A dropped packet\<close>

text \<open>A packet that opens a TLS handshake on a flow not seen before, and a turn that brings it.\<close>

definition opening_message :: nfq_data where
  "opening_message = \<lparr>nd_packet_id = Some 5, nd_payload = Some (ip_tcp 0x18 [0x16, 0x03]), nd_len = 42\<rparr>"

definition opening_turn :: turn where
  "opening_turn = packet_turn\<lparr>t_msgs := [(5, opening_message)]\<rparr>"

definition opening_packet :: Packet where
  "opening_packet = Packet_of (Some (ip_tcp 0x18 [0x16, 0x03])) 42 (ntohl 5)"

abbreviation opening_flow :: FlowView where
  "opening_flow \<equiv> sample_flow 0x18 [0x16, 0x03]"

lemma opening_wf: "packet_wf opening_packet"
  unfolding opening_packet_def by (rule packet_wf_of) (simp_all add: ip_tcp_def)

lemma opening_tcp: "tcp_packet opening_packet opening_flow"
  using opening_wf
  by (simp add: tcp_packet_def) (simp add: opening_packet_def sample_eval has_bytes_def)

lemma opening_fields:  "fv_ip_proto opening_flow = kProtoTcp" "fv_payload_len opening_flow = 2" "fv_payload opening_flow = Some 40"  "fv_tcp_flags opening_flow = 0x18"
  "fv_key opening_flow = sample_key"
  by (simp_all add: sample_eval routeKey_def)


lemma sample_blocks_host: "w_decide sample_world (Some ''a.b'') = BLOCK"
  by (simp add: sample_world_def w_decide_inspecting sample_list_blocks)

lemma sample_opening_fed:
  "ensures (feed sample_world 5 opening_packet sample_x)
     (\<lambda>s'. ready s' \<and> x_decided s' = [\<lparr>dc_pkt = opening_packet, dc_verdict = BLOCK\<rparr>] \<and>
        x_conns s' \<noteq> [])"
proof -
  have "opensTlsHandshake (payload_of opening_packet opening_flow) (fv_payload_len opening_flow) = Some True"
    by (simp add: opening_fields payload_of_def opening_packet_def Packet_of_def packet_data_def
        opensTlsHandshake_def ip_tcp_def rd8_def)
  then have "feed sample_world 5 opening_packet sample_x = feed sample_world 5 opening_packet sample_waiting"
    unfolding sample_waiting_def
    using feed_opens [OF opening_tcp, of 5 sample_x sample_world] sample_no_sweep(1)
    by (simp add: opening_fields) (simp add: sample_x_def new_extractor_def Let_def)
  moreover have "ensures (feed sample_world 5 opening_packet sample_waiting)
      (\<lambda>s'. x_decided s' = [\<lparr>dc_pkt = opening_packet, dc_verdict = BLOCK\<rparr>] \<and> x_conns s' \<noteq> [])"
    using feed_decides [OF sample_waiting_ready opening_tcp sample_no_sweep(2) _ _ _ _
        sample_reassemble sample_world_ok, of Conn0] sample_hello
    by (simp add: opening_fields sample_waiting_find Conn0_def kMaxPacketsPerConn_def
        sample_hello_length kMaxStreamBytes_def asked_for_def sample_host_string sample_blocks_host
        settled_def ensures_iff)
      force
  ultimately show ?thesis
    using feed_safe [OF sample_world_ok sample_waiting_ready opening_wf, of 5] by (auto simp: ensures_iff)
qed

lemma opening_message_packet: "message_packet opening_message = opening_packet"
  by (simp add: message_packet_def opening_message_def opening_packet_def)

lemma sample_drop:
  "\<exists>left w. worker_turn sample_kernel (TcpTlsHostnameExtractor sample_world) False opening_turn sample_worker =
     Some (left, w) \<and> \<not> left \<and> (ntohl 5, NF_DROP) \<in> set (nq_log (fst w)) \<and> x_conns (snd w) \<noteq> []"
proof -
  define q where "q = fst sample_worker"
  then have q: "sample_worker = (q, sample_x)" "nq_stop_fd q = 4"
    using new_Worker_fresh(1,6) [OF sample_worker_built]
    by (simp_all add: sample_x_def prod_eq_iff)
  have ev: "turn_event 4 opening_turn = Packets"
    by (simp add: turn_event_def opening_turn_def packet_turn_def)
  note m = opening_message_packet
  obtain x where x: "feed sample_world 5 opening_packet sample_x = Some x" "ready x"
    "x_decided x = [\<lparr>dc_pkt = opening_packet, dc_verdict = BLOCK\<rparr>]" "x_conns x \<noteq> []"
    using sample_opening_fed by (auto simp: ensures_iff)
  have "x_lastSweep x = 0"
    using feed_keeps_mark [OF sample_no_sweep(1) x(1)] by (simp add: sample_x_def new_extractor_def Let_def)
  then have tick: "tick sample_world 6 x = Some x" by (simp add: tick_def kSweepInterval_def)
  let ?q = "q\<lparr>nq_received := nq_received q + 1\<rparr>"
  have "handle sample_kernel (worker_callback sample_kernel (TcpTlsHostnameExtractor sample_world) False 5)
      opening_message (q, sample_x) = Some (?q, x)"
    using x(1) move_packet_pending [of opening_packet]
    by (cases "move_packet opening_packet") (simp add: handle_def worker_callback_def m)
  then have "run_once sample_kernel (worker_callback sample_kernel (TcpTlsHostnameExtractor sample_world) False)
      opening_turn (q, sample_x) = Some (Packets, ?q, x)"
    using ev q(2) by (simp add: run_once_packets) (simp add: opening_turn_def)
  then have "worker_turn sample_kernel (TcpTlsHostnameExtractor sample_world) False opening_turn sample_worker =
      Some (False, drain_decided sample_kernel (TcpTlsHostnameExtractor sample_world) (?q, x))"
    using q(1) tick by (simp add: worker_turn_def) (simp add: opening_turn_def packet_turn_def)
  moreover have "prefix (nq_log (snd (submit sample_kernel opening_packet BLOCK ?q)))
      (nq_log (fst (drain_decided sample_kernel (TcpTlsHostnameExtractor sample_world) (?q, x))))"
    using x(3) by (auto simp: drain_decided_def Let_def intro: logging.P_submit_all)
  moreover have "nq_log (snd (submit sample_kernel opening_packet BLOCK ?q)) = nq_log q @ [(ntohl 5, NF_DROP)]"
    using submit_pending [of opening_packet sample_kernel BLOCK ?q]
    by (simp add: opening_packet_def Packet_of_def nf_of_def)
  moreover have "x_conns (snd (drain_decided sample_kernel (TcpTlsHostnameExtractor sample_world) (?q, x))) \<noteq> []"
    using x(4) by (simp add: drain_decided_def Let_def)
  ultimately show ?thesis by (auto simp: prefix_def)
qed

section \<open>Runs\<close>

lemma inspecting_sample [simp]: "inspecting sample_world sample_list = sample_world"
  by (simp add: sample_world_def inspecting_def)

lemma opening_turn_ok: "turn_ok opening_turn"
  by (simp add: turn_ok_def opening_turn_def packet_turn_def message_ok_def opening_message_def
      ip_tcp_def kRecvBuf_def)

lemma sample_run:
  "\<exists>left w. runs sample_kernel (TcpTlsHostnameExtractor sample_world) False sample_worker
      [opening_message] left w \<and> (ntohl 5, NF_DROP) \<in> set (nq_log (fst w))"
proof -
  have "turn_messages 4 opening_turn = [opening_message]"
    by (simp add: turn_messages_def turn_event_def opening_turn_def packet_turn_def)
  moreover have "nq_stop_fd (fst sample_worker) = 4"
    using new_Worker_fresh(6) [OF sample_worker_built] .
  moreover obtain left w where "worker_turn sample_kernel (TcpTlsHostnameExtractor sample_world) False
      opening_turn sample_worker = Some (left, w)" "(ntohl 5, NF_DROP) \<in> set (nq_log (fst w))"
    using sample_drop by blast
  ultimately show ?thesis
    using turn_run [OF begin_run opening_turn_ok, of sample_kernel "TcpTlsHostnameExtractor sample_world"
        False sample_worker left w]
    by (intro exI [of _ left] exI [of _ w]) simp
qed

lemma sample_accepting: "accepting sample_kernel"
  by (simp add: accepting_def sample_kernel_def)

text \<open>The acknowledgement the server sends for the connection.\<close>

definition reply_packet :: Packet where
  "reply_packet = Packet_of (Some (
     [0x45, 0, 0, 40, 0, 0, 0, 0, 64, 6, 0, 0, 10, 0, 0, 2, 10, 0, 0, 1,
      0x01, 0xBB, 0x80, 0, 0, 0, 0, 0, 0, 0, 0, 0, 0x50, 0x10, 0, 0, 0, 0, 0, 0])) 40 8"

lemma reply_wf: "packet_wf reply_packet"
  unfolding reply_packet_def by (rule packet_wf_of) simp_all

section \<open>More states\<close>

text \<open>An extractor that holds a packet.\<close>

definition sample_holding :: "unit extractor" where
  "sample_holding = put_conn sample_key (Conn0\<lparr>cn_held := [release_bytes data_packet]\<rparr>) sample_x"

lemma sample_holding_ready: "ready sample_holding"
proof -
  have "conn_ok (Conn0\<lparr>cn_held := [release_bytes data_packet]\<rparr>)"
    using conn_ok_Conn0 by (simp add: conn_ok_def Conn0_def kMaxPacketsPerConn_def)
  moreover have "ready sample_x" by (rule sample_x_ready)
  ultimately show ?thesis
    by (auto simp: ready_def xinv_def table_ok_def ring_ok_def shells_def sample_holding_def conn_simps
        Conn0_def release_bytes_def has_bytes_def packet_data_def split: if_splits)
      (simp_all add: sample_x_def new_extractor_def put_conn_def Let_def)
qed

lemma sample_blocked_facts:
  "find_conn sample_blocked sample_key = Some (Conn0\<lparr>cn_state := Block\<rparr>)" 
  "no_sweep_due 5 sample_blocked" "x_decided sample_blocked = []"
  by (simp_all add: sample_blocked_def sample_waiting_def sample_x_def new_extractor_def Let_def
    resolve_def conn_simps remember_blocked_def ring_at_def ring_store_def sample_blocks_host Conn0_def no_sweep_due_def kSweepInterval_def)

text \<open>An extractor whose one slot is taken by another undecided flow.\<close>

definition sample_full :: "unit extractor" where
  "sample_full = put_conn (sample_key + 1) Conn0 (new_extractor () 1 1)"

lemma sample_full_ready: "ready sample_full"
  unfolding sample_full_def
  by (rule track_ok [THEN conjunct1]) (simp_all add: new_extractor_ready, simp_all add: new_extractor_def)

section \<open>A process\<close>

text \<open>
  Four workers, each with one packet and then a stop request; none of them asks for a CPU. After
  a write of the stop descriptor by the main thread each would poll once more.
\<close>

definition sample_env :: "unit process_env" where
  "sample_env = \<lparr>pe_file = (\<lambda>path. Some sample_file), pe_open_error = (\<lambda>path. ''missing''),
     pe_eventfd = 4, pe_errno = 0, pe_kernel = (\<lambda>i. sample_kernel), pe_reassembly = (),
     pe_world = sample_world, pe_turns = (\<lambda>i. [opening_turn, stop_turn]), pe_spawn = (\<lambda>i. None),
     pe_affinity = (\<lambda>i. 0), pe_signals = 0, pe_late = (\<lambda>i. [idle_turn])\<rparr>"

lemma sample_env_simps [simp]:
  "pe_file sample_env path = Some sample_file" "pe_eventfd sample_env = 4"
  "pe_kernel sample_env i = sample_kernel" "pe_world sample_env = sample_world"
  "pe_turns sample_env i = [opening_turn, stop_turn]" "pe_spawn sample_env i = None"
  by (simp_all add: sample_env_def)

definition sample_parsed :: ParseResult where
  "sample_parsed = \<lparr>pr_config = Config0, pr_should_exit = False, pr_exit_code = 0\<rparr>"

lemma sample_parses: "parse [''PacketInspector''] = (sample_parsed, [])"
  by (simp add: parse_def finish_def sample_parsed_def) (simp add: Config0_def worker_count_def)

lemma sample_parsed_simps [simp]:
  "pr_config sample_parsed = Config0" "pr_should_exit sample_parsed = False" "worker_count Config0 = 4"
  by (simp_all add: sample_parsed_def) (simp add: Config0_def worker_count_def)

lemma sample_binds: "binds sample_kernel"
  by (simp add: binds_def sample_kernel_def)

lemma opening_loop:
  "turn_event 4 opening_turn = Packets" "loop_messages 4 [opening_turn, stop_turn] = [opening_message]"
  "message_id opening_message = ntohl 5"
  by (simp_all add: turn_messages_def turn_event_def opening_turn_def packet_turn_def stop_turn_def
    message_id_def message_packet_def opening_message_def Packet_of_def Let_def)

text \<open>The same process where the queue of the last worker cannot be created.\<close>

definition broken_env :: "unit process_env" where
  "broken_env = sample_env\<lparr>pe_kernel := (\<lambda>i. sample_kernel\<lparr>k_create_queue := i \<noteq> 3\<rparr>)\<rparr>"

text \<open>
  The same process where the third thread cannot be started and no signal comes: the workers
  that run have taken a packet when the main thread writes the stop descriptor.
\<close>

definition crowded_env :: "unit process_env" where
  "crowded_env = sample_env\<lparr>pe_spawn := (\<lambda>i. if i = 2 then Some ''again'' else None),
     pe_turns := (\<lambda>i. [opening_turn])\<rparr>"

lemma crowded_messages: "loop_messages 4 (stopped_turns crowded_env i) = [opening_message]"
proof -
  have "eventfd_readable (stop_counter crowded_env)"
    by (rule stop_counter_readable) (simp add: crowded_env_def)
  then have "turn_event 4 (observes (stop_counter crowded_env) idle_turn) = Stop"
    by (rule observed_stop) (simp_all add: idle_turn_def)
  moreover have "turn_messages 4 opening_turn = [opening_message]"
    by (simp add: turn_messages_def turn_event_def opening_turn_def packet_turn_def)
  ultimately show ?thesis
    using opening_loop(1) by (simp add: stopped_turns_def crowded_env_def sample_env_def turn_messages_def)
qed

lemma crowded_unpinned: "pinning_output crowded_env Config0 n = []"
  by (simp add: pinning_output_def pin_warning_def worker_config_of_def Config0_def)

section \<open>A connection\<close>

text \<open>
  A reassembler that hands over what follows the first forty bytes of a packet, the packets
  of a connection whose ClientHello comes in two segments, and a packet that is no IP.
\<close>

definition echo_world :: "unit world" where
  "echo_world = sample_world\<lparr>w_reassemble :=
     (\<lambda>r raw. (r, [MessageReady kClientSide 9 (take 1000 (drop 40 raw))]))\<rparr>"

abbreviation rest_packet :: Packet where
  "rest_packet \<equiv> sample_packet 0x18 (tl (client_hello sample_host))"

definition stray_packet :: Packet where
  "stray_packet = Packet_of (Some [0]) 1 3"

definition sample_arrivals :: "arrival list" where
  "sample_arrivals = [Own 5 data_packet [0x16], Other 6 stray_packet]"

lemma echo_world_ok: "world_ok echo_world"
  using sample_world_ok
  by (auto simp: world_ok_def echo_world_def event_ok_def kMaxStreamBytes_def min_def)

lemma rest_length: "length (tl (client_hello sample_host)) = 63"
  by (simp add: sample_hello_length)

lemma rest_segment: "length d = 63 \<Longrightarrow> own_segment sample_key (sample_packet 0x18 d)"
proof -
  assume d: "length d = 63"
  then have "packet_wf (sample_packet 0x18 d)"
    unfolding sample_packet_def by (intro packet_wf_of) (auto simp: ip_tcp_def)
  moreover have "has_bytes (sample_packet 0x18 d)"
    by (simp add: sample_packet_def has_bytes_def packet_data_def Packet_of_def)
  ultimately show ?thesis using d by (simp add: own_segment_def) (simp add: sample_eval routeKey_def)
qed

lemma data_segment: "own_segment sample_key data_packet"
  using sample_tcp(1) by (simp add: own_segment_def tcp_packet_def)

lemma stray_other: "other_flow key stray_packet"
proof -
  have "packet_wf stray_packet" unfolding stray_packet_def by (rule packet_wf_of) simp_all
  then show ?thesis
    by (simp add: other_flow_def stray_packet_def flow_view_def Packet_of_def packet_data_def
        dissect_def parseFlow_def rd8_def)
qed

lemma sample_arrivals_fit:
  "list_all (fits echo_world sample_key 0)
    (sample_arrivals @ [Own 7 rest_packet (tl (client_hello sample_host))])"
  using data_segment rest_segment [OF rest_length] stray_other rest_length
  by (simp add: sample_arrivals_def kSweepInterval_def echo_world_def Let_def sample_packet_def
      Packet_of_def packet_data_def ip_tcp_def)

text \<open>The packet of another connection over IPv6, and its segment.\<close>

definition sample_ip :: ip_header where
  "sample_ip = IPv6 [0, 0, 0] 64 (replicate 16 1) (replicate 16 2)
     [Options 0 (replicate 6 0), FirstFragment 0 1 [0, 0, 0, 7]]"

definition sample_segment :: transport where
  "sample_segment = TCP 40000 443 (replicate 8 0) 0x18 (replicate 6 0) (replicate 4 1) [0x16, 3]"

section \<open>A reassembler that keeps count\<close>

text \<open>
  A reassembler whose state is the set of connections it holds: a packet of a connection not
  held starts it, closing forgets it and reports its end.
\<close>

definition sample_conn :: "bytes \<Rightarrow> u32" where
  "sample_conn raw =
     (case dissect (Some raw) (length raw) of Some (True, f) \<Rightarrow> fv_key f OR 1 | _ \<Rightarrow> 1)"

definition counting_world :: "u32 set world" where
  "counting_world = \<lparr>w_reassemble = (\<lambda>held raw. let t = sample_conn raw in
       if t \<in> held then (held, []) else (insert t held, [ConnectionStart t])),
     w_close = (\<lambda>held t. (held - {t}, [ConnectionEnd])), w_purge = (\<lambda>held. (held, [])),
     w_traverse = (\<lambda>ks. ks), w_decide = (\<lambda>h. ALLOW)\<rparr>"

lemma counting_world_ok: "world_ok counting_world"
  by (simp add: world_ok_def counting_world_def event_ok_def Let_def)

lemma counting_world_tracks: "tracks_connections sample_conn (\<lambda>held. held) counting_world"
  by (auto simp: tracks_connections_def counting_world_def remaining_def Let_def)

lemma sample_conn_wire:
  assumes "packet_wf pkt" "flow_view pkt = Some (True, f)" "has_bytes pkt"
  shows "sample_conn (wire_bytes pkt) = fv_key f OR 1"
proof -
  obtain b where b: "packet_data pkt = Some b" using assms(3) by (auto simp: has_bytes_def)
  then have "pk_len pkt \<le> length b" "pk_len pkt < U32_SPAN - 8" using assms(1) by (simp_all add: packet_wf_def)
  then show ?thesis
    using dissect_take [of "pk_len pkt" b] assms(2) b
    by (simp add: sample_conn_def wire_bytes_def flow_view_def min_absorb2)
qed

lemma or_one_nonzero: "(k :: u32) OR 1 \<noteq> 0"
proof
  assume "k OR 1 = 0"
  then have "bit (k OR 1) 0 \<longleftrightarrow> bit (0 :: u32) 0" by simp
  then show False by (simp add: bit_simps)
qed

lemma sample_kept_apart: "kept_apart sample_conn [syn_packet, data_packet]"
proof -
  have "tcp_keys sample_conn [syn_packet, data_packet] \<subseteq> {(k, k OR 1) | k. True}"
    using sample_wf sample_conn_wire by (auto simp: tcp_keys_def)
  moreover have "0 \<notin> snd ` {(k, k OR 1) | k :: u32. True}" using or_one_nonzero by force
  moreover have "single_valued {(k, k OR 1) | k :: u32. True}" by (auto simp: single_valued_def)
  ultimately show ?thesis
    unfolding kept_apart_def by (meson image_mono single_valued_subset subset_iff)
qed

text \<open>An exception on the way of the opening packet, at either point.\<close>

lemma sample_throw: "\<exists>x. feed_throws sample_world 5 at opening_packet sample_waiting = Some x"
proof -
  have tick: "tick sample_world 5 sample_waiting = Some sample_waiting"
    using sample_no_sweep(2) by (simp add: tick_def no_sweep_due_def)
  have c: "cn_state Conn0 = Wait" "cn_held Conn0 = []" by (simp_all add: Conn0_def)
  obtain b where "packet_data opening_packet = Some b"
    using opening_tcp by (auto simp: tcp_packet_def has_bytes_def)
  then obtain t where "tracked_throws sample_world 5 at opening_flow opening_packet sample_waiting = Some t"
    using tracked_throws_total [OF sample_world_ok sample_waiting_ready, of opening_flow Conn0] c sample_waiting_find
    by (fastforce simp: opening_fields kMaxPacketsPerConn_def)
  with tick opening_tcp c show ?thesis
    by (simp add: feed_throws_def tcp_packet_def opening_fields sample_waiting_find)
qed

lemma opening_message_ok: "message_ok opening_message"
  by (simp add: message_ok_def opening_message_def ip_tcp_def kRecvBuf_def)

lemma sample_throw_handled:
  "\<exists>x. handle sample_kernel (throwing_callback sample_world at 5) opening_message
      (fst sample_worker, sample_waiting) =
    Some ((fst sample_worker)\<lparr>nq_received := nq_received (fst sample_worker) + 1\<rparr>, x)"
proof -
  obtain x where "feed_throws sample_world 5 at opening_packet sample_waiting = Some x"
    using sample_throw by blast
  then show ?thesis
    using move_packet_pending [of opening_packet]
    by (cases "move_packet opening_packet")
      (auto simp: handle_def throwing_callback_def opening_message_packet)
qed

end
