(* ===== verification/Spec2Isabelle.thy ===== *)
theory Spec2Isabelle
  imports Samples
begin

text \<open>
  PacketInspector is a packet filter: it takes packets from netfilter queues, holds back
  those of undecided TCP connections until the TLS ClientHello has come in, looks its server
  name up in a block list and tells the kernel to accept or to drop. This development models
  the whole of \<^verbatim>\<open>src/src\<close> and \<^verbatim>\<open>src/include\<close> and proves it correct.

  \<^bold>\<open>The parts and their theories.\<close> A process (\<^verbatim>\<open>main.cpp\<close>) reads its command line
  (\<^verbatim>\<open>cli.cpp\<close>, \<^verbatim>\<open>config.hpp\<close>) and a block list (\<^verbatim>\<open>blocklist.cpp\<close>) and runs workers
  (\<^verbatim>\<open>worker.cpp\<close>). A worker owns a queue (\<^verbatim>\<open>NFQueue.cpp\<close>), which wraps each message in a
  packet (\<^verbatim>\<open>packet.hpp\<close>), and an extractor (\<^verbatim>\<open>hostname_extractor.cpp\<close>), which dissects the
  packet (\<^verbatim>\<open>packet.cpp\<close>), has the stream reassembled by PcapPlusPlus, parses the ClientHello
  and decides. Verdicts go back through the worker to the queue.

  \<^item> Prelude: types, \<open>ensures\<close> (a computation returns and its result satisfies a
    predicate), checked reads, 32-bit lengths, \<open>mfold\<close> for loops that may fail.
  \<^item> Dissect, Packet\_Object: \<^verbatim>\<open>parseFlow\<close> and below, the flow key, \<^verbatim>\<open>Packet\<close> with
    its view, owned and shell states. Dissect\_Roundtrip: an encoder of IPv4, IPv6, TCP and
    UDP packets, and that dissection inverts it.
  \<^item> Client\_Hello: \<^verbatim>\<open>collectHandshake\<close>, \<^verbatim>\<open>parseClientHello\<close>, \<^verbatim>\<open>extractHostname\<close>.
    Hello\_Safety: every read in bounds, termination, answers that do not change as bytes
    come in (locale \<open>incremental_parser\<close>). Hello\_Roundtrip: an encoder of ClientHello
    messages and records, and that the parser inverts it. Hello\_Fast: the path that reads
    the message in place against the loop that joins records.
  \<^item> Blocklist: the loader and the lookup (locale \<open>host_matcher\<close>).
  \<^item> Extractor: \<^verbatim>\<open>TcpTlsHostnameExtractor\<close>, its members as a record and one definition
    per method and callback. Extractor\_Inv, Extractor\_Events, Extractor\_Ops: the invariant
    of the flow table and of the ring of blocked flows, kept by each callback and each public
    method. Extractor\_Bounds: the caps. Extractor\_Policy: the verdict on each path.
    Extractor\_Audit: the steps the packet path is made of (locales \<open>ring_audit\<close> and
    \<open>step_audit\<close>) and the elementary updates these consist of (\<open>packet_audit\<close>, a
    sublocale, extended to \<open>update_audit\<close> and \<open>decision_audit\<close>); the
    interpretations show that nothing is blocked unless the policy said so, how long an entry
    can stay without a packet (Extractor\_Idle), that flows do not influence each other
    (Extractor\_Isolation), that the extractor implements the machine of flow states its header
    describes (Extractor\_Flows), and that PcapPlusPlus's connections are closed
    (Extractor\_Closing). Connection: a connection from its SYN to its verdict, with other
    traffic in between. Extractor\_Reentry: callbacks outside the packet path. Extractor\_Throw:
    exceptions from PcapPlusPlus that leave \<^verbatim>\<open>feed\<close>, and what becomes of the packet.
  \<^item> NF\_Queue: \<^verbatim>\<open>NFQueue\<close>, its construction, one turn of its loop, \<^verbatim>\<open>submit\<close>.
  \<^item> Worker, Worker\_Proofs: \<^verbatim>\<open>Worker\<close>; the interface \<^verbatim>\<open>HostnameExtractor\<close> is a
    record of operations and its contract the locale \<open>hostname_extractor\<close>, interpreted on
    the extractor's own operations. Worker\_Idle: the idle bound over a worker's runs.
  \<^item> Stop\_Descriptor: the eventfd that stops the workers, as its counter, and
    \<^verbatim>\<open>on_signal\<close>, which writes it.
  \<^item> Cli, Main\_Program: options, numbers as \<^verbatim>\<open>strtoull\<close> reads them, start-up, threads that
    cannot be started and the write of the stop descriptor that then ends the others, warnings of
    pinning, report. \<open>main\<close> gives the exit code, the output of the main thread and the workers as
    they are destroyed.
  \<^item> Inspector: the states of a worker (\<open>runs\<close>), what the queue keeps (locale
    \<open>queue_invariant\<close>), the program from its start to its exit code. Worker\_Flows: the
    verdicts of a worker as those of the machine of flow states. Answering: the
    abstract service a worker implements. Stop\_Signal: signals and their dispositions, the
    interleaving of signals with the workers' turns, and the
    statistics thread. Samples: the concrete inputs of the witnesses.

  \<^bold>\<open>How the model corresponds to the code.\<close> Fallible reads and undefined behaviour are the
  value \<open>None\<close>; a proof of \<open>ensures\<close> shows that it does not arise. Objects are records,
  methods take and return them. Words keep their width: 32-bit offsets and lengths wrap, hash
  keys, ports and counters are words. Sizes of containers are natural numbers, times
  nanoseconds as integers.

  \<^bold>\<open>Parameters.\<close> Code outside the repository is a parameter. PcapPlusPlus is three
  functions that return its next state and the callbacks it makes, in order; the proofs rely
  on it through \<open>world_ok\<close> (the length of a message, added to what a flow may have
  buffered, fits in 32 bits, and iteration over the hash table visits each key once), and the
  verdict of a whole connection also on the bytes of each segment being handed over as it
  arrives (\<open>in_order\<close>), and that connections do not pile up on each connection being reported
  when it starts and dropped when it is closed (\<open>tracks_connections\<close>), for traffic in which no two
  connections share a flow key (\<open>kept_apart\<close>; with colliding keys the first connection is
  forgotten, lemma \<open>colliding_start_forgets\<close>). The kernel and
  libnetfilter\_queue are the return values of their calls; a turn of a worker comes with what
  \<^verbatim>\<open>poll\<close>, \<^verbatim>\<open>recv\<close> and the clock return, and \<open>turn_ok\<close> says that a payload has its announced length and fits the receive buffer.

  \<^bold>\<open>What is shown.\<close> Every packet received is answered exactly once, by one worker and by the
  program as a whole, and the worker refines an abstract answering service, its extractor an abstract
  machine of flow states; a packet is dropped
  only after the policy blocked a name of the list; the completed ClientHello gets the verdict
  the block list file gives for its server name, however it was fragmented and segmented and
  whatever other flows do meanwhile; no flow stays without a packet beyond its idle limit and a
  sweep interval; a packet decides nothing of other flows;
  parsing and dissection stay in bounds and return; tables, held packets and buffers stay
  within their caps in every reachable state and the reassembler's connections belong to
  undecided flows; failing paths let packets through; a queue or a
  thread that cannot be had ends the program in order, with the exact reason; one signal ends all
  workers; packets, handshakes, numbers and files are read back as written.

  \<^bold>\<open>Loops.\<close> The parser's loops are partial functions and shown to return for buffers below
  \<open>2 ^ 32\<close> bytes; the other loops are total recursions over lists, over the ring's size or, for
  IPv6 headers, over the code's own bound. A worker's loop runs over the turns that occur; that
  it is left is shown from a stop request or error among them.

  \<^bold>\<open>Not modelled.\<close> Allocation failures of the program's own containers inside \<^verbatim>\<open>feed\<close>
  (exceptions from PcapPlusPlus are modelled, and so is the queue's handling of a callback that
  throws); how long \<^verbatim>\<open>poll\<close> waits, which shows in the clock readings of the turns;
  memory ordering of the atomic counters, each of which has one writer; state shared between
  workers (each turn reads and writes its own worker, the block list is only read); where the lines
  of the statistics thread and of the policy under \<^verbatim>\<open>-v\<close> (\<open>policy_log\<close>) fall among those of the
  main thread; CPU affinity beyond the warning printed; the insides of PcapPlusPlus, libnetfilter\_queue and the kernel; tests,
  scripts and build files. The rest of the sources are declarations of what is modelled and
  comments.
\<close>

section \<open>Every packet is answered once\<close>

text \<open>
  C1. A worker that has been built and then sees a sequence of turns ending in a stop request
  or an error of the queue leaves its loop, and the ids it has told the kernel a verdict for
  are, counted with multiplicity, the ids of the messages it received: no packet is left in
  the kernel and none is answered twice.
\<close>

theorem every_packet_answered_once:
  assumes "world_ok W" "new_Worker K r cfg stop_fd ml rb mf mb = (Inr w, calls)"
    "\<forall>t \<in> set ts. turn_ok t" "\<exists>t \<in> set ts. turn_event stop_fd t \<in> {Stop, Error}"
  shows "ensures (worker_loop K (TcpTlsHostnameExtractor (inspecting W bl)) p ts w) (\<lambda>(left, w').
    left \<and> nq_undecided (fst w') = 0 \<and>
    mset (map fst (nq_log (fst w'))) = mset (map message_id (loop_messages stop_fd ts)))"
proof -
  have W: "world_ok (inspecting W bl)" using assms(1) by simp
  note w = fresh_solvent [OF assms(2) W] and new = new_Worker_fresh [OF assms(2)]
  obtain left w' where run: "worker_loop K (TcpTlsHostnameExtractor (inspecting W bl)) p ts w =
      Some (left, w')" "left" "nq_undecided (fst w') = 0"
    using tcp.worker_loop_ok [OF w(1) assms(3), of K p] assms(4) new
    by (auto simp: ensures_iff tcp.step_ok_def)
  with tcp.loop_answers_all [OF w assms(3), of K p w'] new show ?thesis by simp
qed

theorem every_packet_answered_once_witness:
  "ensures (worker_loop sample_kernel (TcpTlsHostnameExtractor (inspecting sample_world sample_list))
      False [packet_turn, stop_turn] sample_worker)
    (\<lambda>(left, w'). left \<and> nq_undecided (fst w') = 0 \<and>
      mset (map fst (nq_log (fst w'))) = {# ntohl 5 #})"
  using every_packet_answered_once [OF sample_world_ok sample_worker_built,
      of "[packet_turn, stop_turn]" sample_list False] sample_turns_ok
  by (simp add: turn_messages_def) (simp add: packet_turn_def message_id_def message_packet_def
      sample_message_def Packet_of_def Let_def)

section \<open>The packet path\<close>

text \<open>
  C3. Feeding a well-formed packet never runs into undefined behaviour; it keeps the
  extractor's invariant, adds exactly this packet to those that are decided or held, takes
  back no decision, keeps the table within its cap and publishes its size.
\<close>

theorem feed_accounts_for_packet:
  assumes "world_ok W" "ready s" "packet_wf pkt"
  shows "ensures (feed W now pkt s) (\<lambda>s'. ready s' \<and> debt s' = debt s + {#tag pkt#} \<and>
    prefix (x_decided s) (x_decided s') \<and> length (x_conns s') \<le> x_max_flows s \<and>
    x_flows s' = length (x_conns s'))"
  by (rule ensures_mono [OF feed_safe [OF assms]])
    (auto simp: accounts_def ready_def xinv_def table_ok_def)

theorem feed_accounts_for_packet_witness:
  "ensures (feed sample_world 5 data_packet sample_waiting) (\<lambda>s'. ready s' \<and>
    debt s' = debt sample_waiting + {#(7, True)#} \<and>
    prefix (x_decided sample_waiting) (x_decided s') \<and>
    length (x_conns s') \<le> x_max_flows sample_waiting \<and> x_flows s' = length (x_conns s'))"
  using feed_accounts_for_packet [OF sample_world_ok sample_waiting_ready sample_wf(1), of 5]
  by (simp add: tag_def sample_packet_def Packet_of_def)

text \<open>
  C4. When a packet completes a ClientHello, in whatever way the handshake message was cut
  into TLS records and the stream into segments, the block list is asked for the host name
  the ClientHello carries; the flow's held packets and the completing packet all get its
  answer, in arrival order, and a blocked flow is remembered as blocked.
\<close>

theorem hello_gets_blocklist_verdict:
  assumes "ready s" "world_ok W" "tcp_packet pkt f" "no_sweep_due now s"
    "find_conn s (fv_key f) = Some c" "cn_state c = Wait"
    "length (cn_held c) < kMaxPacketsPerConn" "fv_payload_len f > 0"
    "w_reassemble W (x_reassembly s) (take (pk_len pkt) (the (packet_data pkt))) = (r, es)"
    "ConnectionEnd \<notin> set es" "cn_stream c @ client_bytes es = enc_records rs @ post"
    "length (enc_records rs @ post) \<le> kMaxStreamBytes"
    "hello_ok ch" "records_ok rs" "payloads rs = enc_hello ch @ extra"
    "sni_of (ch_exts ch) = Found name" "load_blocklist (Some content) = Some bl"
  shows "ensures (feed (inspecting W bl) now pkt s) (\<lambda>s'.
    let v = (if \<exists>raw \<in> set (getlines content). line_blocks raw (string_of_bytes name)
             then BLOCK else ALLOW) in
    x_asked s' = x_asked s @ [Some (string_of_bytes name)] \<and>
    x_decided s' = x_decided s @ map (\<lambda>p. \<lparr>dc_pkt = p, dc_verdict = v\<rparr>) (cn_held c @ [pkt]) \<and>
    map_option cn_state (find_conn s' (fv_key f)) = (if v = BLOCK then Some Block else None))"
proof -
  have "length (enc_records rs @ post) < U32_SPAN" using assms(12) by (simp add: kMaxStreamBytes_def)
  then have host: "hostname_in (cn_stream c @ client_bytes es) = Some (Found name)"
    using hostname_in_records [OF assms(13-15)] assms(11,16) by simp
  note v = policy_of_file [OF assms(17), of W "string_of_bytes name"]
  have "ensures (feed (inspecting W bl) now pkt s)
      (settled (inspecting W bl) (fv_key f) (c\<lparr>cn_held := cn_held c @ [pkt]\<rparr>)
         (Some (string_of_bytes name)) s)"
    using feed_decides [of s pkt f now c "inspecting W bl" r es] assms host
    by (simp add: inspecting_def [of W bl] asked_for_def world_ok_inspecting [unfolded inspecting_def])
  then show ?thesis
    unfolding Let_def v [symmetric] by (rule ensures_mono) (simp add: settled_def)
qed

theorem hello_gets_blocklist_verdict_witness:
  "ensures (feed (inspecting sample_world sample_list) 5 data_packet sample_waiting) (\<lambda>s'.
     x_asked s' = [Some ''a.b''] \<and>
     x_decided s' = [\<lparr>dc_pkt = data_packet, dc_verdict = BLOCK\<rparr>] \<and>
     map_option cn_state (find_conn s' sample_key) = Some Block)"
  using hello_gets_blocklist_verdict [OF sample_waiting_ready sample_world_ok sample_tcp(1)
      sample_no_sweep(2) sample_waiting_find _ _ _ sample_reassemble _ _ _ sample_hello_ok
      sample_records_ok _ sample_sni sample_file_loads, of "[]" "[]"]
    sample_line_blocks sample_hello_length
  by (simp add: Conn0_def kMaxPacketsPerConn_def kMaxStreamBytes_def client_hello_enc
      sample_lines sample_host_string)

text \<open>
  C8. A connection from its SYN to its verdict, when there is room in the table, all its packets
  come in before the next sweep is due, the reassembler hands over each segment's bytes as it
  arrives, and held packets and buffered bytes stay within their caps. The SYN of a new
  connection is let through at once, whatever becomes of the connection, and opens an entry. The
  segments that follow, with any packets of other flows in between, are held as shells while the
  ClientHello is incomplete; with the segment that completes it the block list is asked for the
  server name, and all segments, though not the SYN, get the verdict the file gives for it, in order.
\<close>

theorem connection_gets_verdict:
  assumes "world_ok W" "ready s" "load_blocklist (Some content) = Some bl"
    "syn_opens W t0 syn f s" "feed (inspecting W bl) t0 syn s = Some s1"
    "in_order (inspecting W bl) (fv_key f) (as @ [Own now pkt data]) s1"
    "stream_of as @ data = enc_records rs @ post" "hostname_in (stream_of as) = Some NeedMore"
    "length (enc_records rs @ post) \<le> kMaxStreamBytes" "length (own_packets as) < kMaxPacketsPerConn"
    "hello_ok ch" "records_ok rs" "payloads rs = enc_hello ch @ extra"
    "sni_of (ch_exts ch) = Found name"
  shows "x_decided s1 = x_decided s @ [\<lparr>dc_pkt = syn, dc_verdict = ALLOW\<rparr>] \<and>
    ensures (feed_all (inspecting W bl) as s1) (\<lambda>mid.
      (\<exists>c. find_conn mid (fv_key f) = Some c \<and> cn_state c = Wait \<and>
         cn_held c = map release_bytes (own_packets as)) \<and>
      ensures (feed (inspecting W bl) now pkt mid) (\<lambda>s'.
        let v = (if \<exists>raw \<in> set (getlines content). line_blocks raw (string_of_bytes name)
                 then BLOCK else ALLOW) in
        x_asked s' = x_asked mid @ [Some (string_of_bytes name)] \<and>
        x_decided s' = x_decided mid @ map (\<lambda>p. \<lparr>dc_pkt = p, dc_verdict = v\<rparr>)
          (map release_bytes (own_packets as) @ [pkt]) \<and>
        map_option cn_state (find_conn s' (fv_key f)) = (if v = BLOCK then Some Block else None)))"
proof -
  let ?W = "inspecting W bl" and ?key = "fv_key f"
  have W: "world_ok ?W" using assms(1) by simp
  obtain c where c: "ready s1" "find_conn s1 ?key = Some c" "cn_state c = Wait" "cn_held c = []"
    "cn_stream c = []" "x_decided s1 = x_decided s @ [\<lparr>dc_pkt = syn, dc_verdict = ALLOW\<rparr>]"
    using syn_opened [OF W assms(2), of t0 syn f] assms(4,5)
    by (auto simp: syn_opens_def inspecting_def ensures_iff)
  have len: "length (stream_of as @ data) \<le> kMaxStreamBytes" "length (enc_records rs @ post) < U32_SPAN"
    using assms(7,9) by (simp_all add: kMaxStreamBytes_def)
  have host: "hostname_in (stream_of as @ data) = Some (Found name)"
    using hostname_in_records [OF assms(11-13) len(2)] assms(7,14) by simp
  have held: "ensures (feed_all ?W as s1) (\<lambda>mid. \<exists>c. find_conn mid ?key = Some c \<and>
      cn_state c = Wait \<and> cn_held c = map release_bytes (own_packets as))"
    using segments_held [OF W c(1-3), of as] assms(6,8,10) len c(4,5)
    by (auto simp: in_order_append elim!: ensures_mono)
  have "ensures (feed_all ?W as s1) (\<lambda>mid. ensures (feed ?W now pkt mid) (settled ?W ?key
      (c\<lparr>cn_held := map release_bytes (own_packets as) @ [pkt]\<rparr>) (Some (string_of_bytes name)) mid))"
    using segments_decided [OF W c(1-3) assms(6), of "Found name"] assms(8,10) len host c(4,5)
    by (simp add: asked_for_def)
  with held have "ensures (feed_all ?W as s1) (\<lambda>mid.
      (\<exists>c. find_conn mid ?key = Some c \<and> cn_state c = Wait \<and> cn_held c = map release_bytes (own_packets as)) \<and>
      ensures (feed ?W now pkt mid) (settled ?W ?key
      (c\<lparr>cn_held := map release_bytes (own_packets as) @ [pkt]\<rparr>) (Some (string_of_bytes name)) mid))"
    by (simp add: ensures_conj)
  then show ?thesis
    unfolding Let_def policy_of_file [OF assms(3), of W, symmetric]
    by (intro conjI c(6)) (auto simp: settled_def elim!: ensures_mono)
qed

theorem connection_gets_verdict_witness:
  "\<exists>s1 mid s'. feed echo_world 4 syn_packet sample_x = Some s1 \<and>
     feed_all echo_world sample_arrivals s1 = Some mid \<and> feed echo_world 7 rest_packet mid = Some s' \<and>
     x_asked s' = x_asked mid @ [Some ''a.b''] \<and>
     x_decided s' = x_decided mid @ [\<lparr>dc_pkt = release_bytes data_packet, dc_verdict = BLOCK\<rparr>,
       \<lparr>dc_pkt = rest_packet, dc_verdict = BLOCK\<rparr>]"
proof -
  let ?rest = "tl (client_hello sample_host)"
  have W: "inspecting echo_world sample_list = echo_world"
    by (simp add: echo_world_def sample_world_def inspecting_def)
  have opens: "syn_opens echo_world 4 syn_packet syn_flow sample_x"
    using sample_tcp(3) sample_no_sweep(1)
    by (simp add: syn_opens_def isClientSyn_def kTcpSyn_def kTcpAck_def echo_world_def no_sweep_due_def)
      (simp add: sample_eval sample_x_def new_extractor_def)
  obtain s1 where s1: "feed echo_world 4 syn_packet sample_x = Some s1" "ready s1"
    using feed_safe [OF echo_world_ok sample_x_ready sample_wf(3), of 4] by (auto simp: ensures_iff)
  have "x_lastSweep s1 = 0"
    using feed_keeps_mark [OF _ s1(1)] sample_no_sweep(1)
    by (simp add: no_sweep_due_def sample_x_def new_extractor_def Let_def kSweepInterval_def)
  then have order: "in_order (inspecting echo_world sample_list) (fv_key syn_flow)
      (sample_arrivals @ [Own 7 rest_packet ?rest]) s1"
    unfolding W sample_keys using in_order_fits [OF echo_world_ok s1(2)] sample_arrivals_fit by simp
  have hello: "stream_of sample_arrivals @ ?rest = enc_records [(0x01, enc_hello (test_hello sample_host))] @ []"
    unfolding client_hello_enc [symmetric]
    by (simp add: sample_arrivals_def client_hello_def Let_def)
  have more: "hostname_in (stream_of sample_arrivals) = Some NeedMore"
    by (simp add: sample_arrivals_def hostname_in_def extractHostname_def collectHandshake_def
        host_text_def rd8_def)
  have small: "length (enc_records [(0x01, enc_hello (test_hello sample_host))] @ []) \<le> kMaxStreamBytes"
    "length (own_packets sample_arrivals) < kMaxPacketsPerConn"
    using sample_hello_length
    by (simp_all add: client_hello_enc kMaxStreamBytes_def kMaxPacketsPerConn_def sample_arrivals_def)
  have "payloads [(0x01, enc_hello (test_hello sample_host))] = enc_hello (test_hello sample_host) @ []"
    by simp
  from connection_gets_verdict [OF echo_world_ok sample_x_ready sample_file_loads opens _ order hello more
      small sample_hello_ok sample_records_ok this sample_sni] s1(1) show ?thesis
    unfolding W
    by (simp add: sample_lines sample_line_blocks sample_host_string Let_def)
      (auto simp: ensures_iff sample_arrivals_def)
qed

section \<open>Why a packet is dropped\<close>

text \<open>
  C5. In every state a worker can get to, if it has ever told the kernel to drop a packet then
  it has asked its policy about a host name that the block list blocks. With an empty block
  list, or for traffic without a host name, nothing is ever dropped.
\<close>

theorem drops_follow_blocklist:
  assumes "new_Worker K r cfg stop_fd ml rb mf mb = (Inr w0, calls)"
    "runs K (TcpTlsHostnameExtractor (inspecting W bl)) p w0 ms left w"
    "(i, NF_DROP) \<in> set (nq_log (fst w))"
  shows "\<exists>name. Some name \<in> set (x_asked (snd w)) \<and> isHostnameBlocked bl name"
proof -
  have "honest (inspecting W bl) w" using honest_runs [OF assms(2)] fresh_honest [OF assms(1)] by blast
  moreover have "dropped_any (fst w)" using assms(3) by (force simp: dropped_any_def)
  ultimately show ?thesis by (auto simp: honest_def audited_def w_decide_inspecting)
qed

theorem drops_follow_blocklist_witness:
  "\<exists>left w. runs sample_kernel (TcpTlsHostnameExtractor (inspecting sample_world sample_list)) False
      sample_worker [opening_message] left w \<and> (ntohl 5, NF_DROP) \<in> set (nq_log (fst w)) \<and>
    (\<exists>name. Some name \<in> set (x_asked (snd w)) \<and> isHostnameBlocked sample_list name)"
  using drops_follow_blocklist [OF sample_worker_built, of sample_world sample_list] sample_run
  by fastforce

section \<open>Host names\<close>

text \<open>
  C6. The host name parser, called again on a growing buffer as the segments of a stream come
  in, ends with the server name of the ClientHello: however the handshake message was
  fragmented into TLS records, whatever follows it, and however the stream was segmented.
\<close>

theorem hostname_survives_fragmentation:
  assumes "hello_ok ch" "records_ok rs" "payloads rs = enc_hello ch @ extra"
    "concat segments = enc_records rs @ post" "length (concat segments) < U32_SPAN"
  shows "run_chunks hostname_in NeedMore [] segments = Some (sni_of (ch_exts ch))"
proof -
  have "hostname_in [] = Some NeedMore"
    using conn_ok_Conn0 by (simp add: conn_ok_def Conn0_def)
  then have "run_chunks hostname_in NeedMore [] segments = hostname_in (concat segments)"
    using sni.chunks_irrelevant [of "[]" segments] assms(5) by simp
  with hostname_in_records [OF assms(1-3), of post] assms(4,5) show ?thesis by simp
qed

theorem hostname_survives_fragmentation_witness:
  "run_chunks hostname_in NeedMore []
     [take 7 (client_hello sample_host), drop 7 (client_hello sample_host) @ [0x17]] =
   Some (Found sample_host)"
  using hostname_survives_fragmentation [OF sample_hello_ok sample_records_ok, of "[]"
      "[take 7 (client_hello sample_host), drop 7 (client_hello sample_host) @ [0x17]]" "[0x17]"]
    sample_hello_length sample_sni
  by (simp add: client_hello_enc)

text \<open>
  C7. As long as the connection does not end and the flow's stream, with what is already
  buffered, stays within 32 KiB, the fate of an undecided flow depends on the bytes the client
  sent and on nothing else: two runs of callbacks that deliver the same client bytes, cut into
  different messages and interleaved with different messages from the server, ask the policy the
  same questions, decide the same packets in the same order with the same verdicts, and leave the
  flow in the same state. (Beyond the cap the flow is given up after the message that exceeds it, so
  there the cut can matter.)
\<close>

theorem segmentation_irrelevant:
  assumes "xinv {} s" "x_feeding s" "find_conn s (x_current_key s) = Some c" "cn_state c = Wait"
    "ConnectionEnd \<notin> set es \<union> set es'" "client_bytes es = client_bytes es'"
    "length (cn_stream c @ client_bytes es) \<le> kMaxStreamBytes"
  shows "\<exists>t t'. mfold (on_event W) es s = Some t \<and> mfold (on_event W) es' s = Some t' \<and>
    x_asked t = x_asked t' \<and> x_decided t = x_decided t' \<and>
    map_option cn_state (find_conn t (x_current_key s)) =
      map_option cn_state (find_conn t' (x_current_key s))"
proof -
  obtain t t' where t: "mfold (on_event W) es s = Some t" "mfold (on_event W) es' s = Some t'"
    "outcome W (x_current_key s) c (client_bytes es) s t"
    "outcome W (x_current_key s) c (client_bytes es) s t'"
    using stream_decides [OF assms(1,2) refl assms(3,4), of es W]
      stream_decides [OF assms(1,2) refl assms(3,4), of es' W] assms(5-7)
    by (auto simp: ensures_iff)
  then show ?thesis
    by (auto simp: outcome_def waiting_def settled_def split: option.splits HostnameResult.splits)
qed

theorem segmentation_irrelevant_witness:
  "\<exists>t t'. mfold (on_event sample_world) [MessageReady 0 9 [0x16, 0x03]]
       (sample_waiting\<lparr>x_feeding := True, x_current_key := sample_key\<rparr>) = Some t \<and>
     mfold (on_event sample_world) [MessageReady 0 9 [0x16], MessageReady 1 9 [0x05], MessageReady 0 9 [0x03]]
       (sample_waiting\<lparr>x_feeding := True, x_current_key := sample_key\<rparr>) = Some t' \<and>
     x_asked t = x_asked t' \<and> x_decided t = x_decided t' \<and>
     map_option cn_state (find_conn t sample_key) = map_option cn_state (find_conn t' sample_key)"
  using segmentation_irrelevant [of "sample_waiting\<lparr>x_feeding := True, x_current_key := sample_key\<rparr>"
      Conn0 "[MessageReady 0 9 [0x16, 0x03]]"
      "[MessageReady 0 9 [0x16], MessageReady 1 9 [0x05], MessageReady 0 9 [0x03]]" sample_world]
    sample_waiting_ready sample_waiting_find
  by (simp add: ready_def Conn0_def kClientSide_def kMaxStreamBytes_def)

section \<open>The worker as a service\<close>

text \<open>
  C2. The worker implements the abstract service that takes in ids, answers ids it owes and halts
  when it owes nothing: every state a worker can get to is reached by the service from its
  idle state, with the same answers in the same order, taking in exactly the ids received.
\<close>

theorem worker_implements_service:
  assumes "new_Worker K r cfg stop_fd ml rb mf mb = (Inr w0, calls)" "world_ok W"
    "runs K (TcpTlsHostnameExtractor (inspecting W bl)) p w0 ms left w"
  shows "\<exists>xs. service_run idle_service xs (worker_service left w) \<and> taken xs = mset (map message_id ms)"
proof -
  have W: "world_ok (inspecting W bl)" using assms(2) by simp
  from tcp.runs_implement [OF assms(3) fresh_solvent(1) [OF assms(1) W]]
  show ?thesis by (simp add: serves_worker_service fresh_service [OF assms(1)])
qed

theorem worker_implements_service_witness:
  "\<exists>left w. (ntohl 5, NF_DROP) \<in> set (nq_log (fst w)) \<and>
    (\<exists>xs. service_run idle_service xs (worker_service left (w :: unit extractor worker)) \<and>
      taken xs = {# message_id opening_message #})"
  using worker_implements_service [OF sample_worker_built sample_world_ok, of sample_list] sample_run
  by fastforce

section \<open>The states of a flow\<close>

text \<open>
  C11. What a worker tells the kernel are the verdicts of the abstract machine of flows, in their
  order. In every state a worker reaches, its flow table, the questions it has asked and its log
  are those of a run of the machine on the packets received: a flow is untracked, undecided with
  the packets it waits with, or blocked; a packet opens its flow, waits with it, is let
  through, or is dropped for a blocked flow; a flow is settled with what the block list says of
  its name, and all that waited get that verdict in order; only blocked flows are forgotten.
\<close>

theorem worker_speaks_for_flows:
  assumes "new_Worker K r cfg stop_fd ml rb mf mb = (Inr w0, calls)" "world_ok W"
    "runs K (TcpTlsHostnameExtractor (inspecting W bl)) False w0 ms left w"
  shows "\<exists>cs. flow_log (policy bl) cs (inspection_of (snd w)) (nq_log (fst w)) \<and>
    fed_packets cs = map message_packet ms"
proof -
  have "w_decide (inspecting W bl) = policy bl" by (simp add: inspecting_def)
  with runs_report [OF assms(3)] assms(2) new_Worker_fresh(1,2) [OF assms(1)] show ?thesis
    by (auto simp: new_extractor_ready inspection_new)
qed

theorem worker_speaks_for_flows_witness:
  "\<exists>w cs. flow_log (policy sample_list) cs (inspection_of (snd w)) (nq_log (fst w)) \<and>
     fed_packets cs = [opening_packet] \<and> (ntohl 5, NF_DROP) \<in> set (nq_log (fst (w :: unit extractor worker)))"
proof -
  obtain left w where w: "runs sample_kernel (TcpTlsHostnameExtractor sample_world) False sample_worker
      [opening_message] left w" "(ntohl 5, NF_DROP) \<in> set (nq_log (fst w))" using sample_run by blast
  with worker_speaks_for_flows [OF sample_worker_built sample_world_ok, of sample_list "[opening_message]" left w]
  show ?thesis by (auto simp: opening_message_packet)
qed

text \<open>
  C30. A worker in its loop is never stuck: every turn poll and recv can bring is handled to its end,
  and the loop is left exactly on a stop request or an error of the queue.
\<close>

theorem worker_never_stuck:
  assumes "new_Worker K r cfg stop_fd ml rb mf mb = (Inr w0, calls)" "world_ok W"
    "runs K (TcpTlsHostnameExtractor (inspecting W bl)) p w0 ms False w" "turn_ok t"
  shows "\<exists>left w'. worker_turn K (TcpTlsHostnameExtractor (inspecting W bl)) p t w = Some (left, w') \<and>
    (left \<longleftrightarrow> turn_event stop_fd t \<in> {Stop, Error})"
proof -
  have W: "world_ok (inspecting W bl)" using assms(2) by simp
  from tcp.runs_step_ok [OF assms(3) fresh_solvent(1) [OF assms(1) W]] new_Worker_fresh(6) [OF assms(1)]
  have "tcp.solvent (inspecting W bl) w" "nq_stop_fd (fst w) = stop_fd"
    by (simp_all add: tcp.step_ok_def)
  with tcp.worker_turn_ok [OF _ assms(4), of "inspecting W bl" w K p] show ?thesis
    by (auto simp: ensures_iff)
qed

theorem worker_never_stuck_witness:
  "\<exists>left w'. worker_turn sample_kernel (TcpTlsHostnameExtractor (inspecting sample_world sample_list)) False
     opening_turn sample_worker = Some (left, w') \<and> \<not> left"
  using worker_never_stuck [OF sample_worker_built sample_world_ok begin_run opening_turn_ok, of sample_list False]
  by (simp add: turn_event_def opening_turn_def packet_turn_def)

text \<open>
  C31. As long as the kernel takes every verdict, the counter of outstanding packets that the
  queue publishes is the number of packets the flows hold. (A verdict the kernel refuses stays
  counted as outstanding.)
\<close>

theorem outstanding_counts_held:
  assumes "new_Worker K r cfg stop_fd ml rb mf mb = (Inr w0, calls)" "world_ok W" "accepting K"
    "runs K (TcpTlsHostnameExtractor (inspecting W bl)) p w0 ms left w"
  shows "outstanding (fst w) = of_nat (sum_list (map (\<lambda>(k, c). length (cn_held c)) (x_conns (snd w))))"
proof -
  have W: "world_ok (inspecting W bl)" using assms(2) by simp
  note new = new_Worker_fresh [OF assms(1)]
  have "x_decided (snd w) = []"
    using runs_drained [OF assms(4)] new(1) by (simp add: new_extractor_def Let_def)
  moreover have "outstanding (fst w) = of_nat (size (debt (snd w)))"
    using tcp.outstanding_is_owed [OF assms(4) fresh_solvent(1) [OF assms(1) W] assms(3)] new
    by (simp add: new_extractor_debt)
  ultimately show ?thesis by (simp add: debt_def size_held_tags)
qed

theorem outstanding_counts_held_witness:
  "\<exists>left w. runs sample_kernel (TcpTlsHostnameExtractor (inspecting sample_world sample_list)) False
      sample_worker [opening_message] left w \<and>
    outstanding (fst w) = of_nat (sum_list (map (\<lambda>(k, c). length (cn_held c)) (x_conns (snd w))))"
  using outstanding_counts_held [OF sample_worker_built sample_world_ok sample_accepting, of sample_list]
    sample_run
  by fastforce

text \<open>
  C32. In passthrough every packet is accepted, in the order of arrival, and none is ever held.
\<close>

theorem passthrough_accepts_in_order:
  assumes "new_Worker K r cfg stop_fd ml rb mf mb = (Inr w0, calls)" "world_ok W"
    "runs K (TcpTlsHostnameExtractor (inspecting W bl)) True w0 ms left w"
  shows "nq_log (fst w) = map (\<lambda>m. (message_id m, NF_ACCEPT)) ms \<and> debt (snd w) = {#}"
proof -
  have "world_ok (inspecting W bl)" using assms(2) by simp
  with passthrough_runs [OF assms(3)] new_Worker_fresh(1,2) [OF assms(1)] show ?thesis
    by (simp add: new_extractor_ready new_extractor_debt)
qed

theorem passthrough_accepts_in_order_witness:
  "\<exists>left w. runs sample_kernel (TcpTlsHostnameExtractor (inspecting sample_world sample_list)) True
      sample_worker [opening_message] left w \<and> nq_log (fst w) = [(message_id opening_message, NF_ACCEPT)]"
proof -
  have new: "tcp.solvent sample_world sample_worker" "nq_stop_fd (fst sample_worker) = 4"
    using fresh_solvent(1) [OF sample_worker_built sample_world_ok]
      new_Worker_fresh(6) [OF sample_worker_built] by simp_all
  moreover have "turn_messages 4 opening_turn = [opening_message]"
    by (simp add: turn_messages_def turn_event_def opening_turn_def packet_turn_def)
  ultimately obtain left w where "runs sample_kernel (TcpTlsHostnameExtractor sample_world) True
      sample_worker [opening_message] left w"
    using tcp.runs_progress [OF begin_run new(1) opening_turn_ok, of sample_kernel True] by auto
  with passthrough_accepts_in_order [OF sample_worker_built sample_world_ok, of sample_list] show ?thesis
    by fastforce
qed

section \<open>Bounds\<close>

text \<open>
  C10. In every state a worker can get to the flow table is within its cap, the blocked flows with a
  key other than 0 are within theirs, and an undecided flow holds at most 32 packets, all of
  them without bytes, and at most 32 KiB of stream.
\<close>

theorem reachable_bounds:
  assumes "new_Worker K r cfg stop_fd ml rb mf mb = (Inr w0, calls)" "world_ok W"
    "runs K (TcpTlsHostnameExtractor (inspecting W bl)) p w0 ms left w"
  shows "length (x_conns (snd w)) \<le> max 1 mf \<and>
    card (blocked_keys (snd w) - {0}) \<le> (if mb = 0 then max 1 (max 1 mf div 4) else min mb (max 1 mf)) \<and>
    (\<forall>k c. find_conn (snd w) k = Some c \<longrightarrow>
      length (cn_held c) \<le> 32 \<and> length (cn_stream c) \<le> 32768 \<and> (\<forall>q \<in> set (cn_held c). \<not> has_bytes q))"
proof -
  have "world_ok (inspecting W bl)" using assms(2) by simp
  note w = reachable_inv [OF assms(1) this assms(3)]
  have caps: "x_max_flows (snd w) = max 1 mf"
    "x_max_blocked (snd w) = (if mb = 0 then max 1 (max 1 mf div 4) else min mb (max 1 mf))"
    using w by (simp_all add: new_extractor_def Let_def kDefaultBlockedShare_def max_def min_def)
  have "xinv {} (snd w)" using w by (simp add: ready_def)
  from blocked_keys_bound [OF this] ready_bounds [of "snd w"] w caps show ?thesis
    by (simp add: kMaxPacketsPerConn_def kMaxStreamBytes_def)
qed

theorem reachable_bounds_witness:
  "\<exists>left w. runs sample_kernel (TcpTlsHostnameExtractor (inspecting sample_world sample_list)) False
      sample_worker [opening_message] left w \<and> length (x_conns (snd w)) \<le> 2 \<and>
      card (blocked_keys (snd w) - {0}) \<le> 1"
  using reachable_bounds [OF sample_worker_built sample_world_ok, of sample_list] sample_run
  by fastforce

section \<open>Memory safety and termination\<close>

text \<open>
  C15. Dissecting a packet returns, reads no byte past the packet's length (the result is the same
  when the buffer ends there), and a payload it reports lies within the packet.
\<close>

theorem dissector_memory_safe:
  assumes "packet_wf pkt"
  shows "\<exists>ok f. flow_view pkt = Some (ok, f) \<and>
    dissect (map_option (take (pk_len pkt)) (packet_data pkt)) (pk_len pkt) = Some (ok, f) \<and>
    (ok \<longrightarrow> (\<exists>off. fv_payload f = Some off \<and> off + fv_payload_len f \<le> pk_len pkt))"
proof -
  obtain ok f where f: "flow_view pkt = Some (ok, f)"
    "ok \<longrightarrow> (\<exists>off. fv_payload f = Some off \<and> off + fv_payload_len f \<le> pk_len pkt)"
    using flow_view_safe [OF assms] by (auto simp: ensures_iff)
  moreover have "dissect (map_option (take (pk_len pkt)) (packet_data pkt)) (pk_len pkt) = flow_view pkt"
    using assms dissect_take [of "pk_len pkt"]
    by (cases "packet_data pkt") (auto simp: flow_view_def packet_wf_def)
  ultimately show ?thesis by simp
qed

theorem dissector_memory_safe_witness:
  "\<exists>ok f. flow_view data_packet = Some (ok, f) \<and>
    dissect (map_option (take (pk_len data_packet)) (packet_data data_packet)) (pk_len data_packet) = Some (ok, f) \<and>
    (ok \<longrightarrow> (\<exists>off. fv_payload f = Some off \<and> off + fv_payload_len f \<le> pk_len data_packet))"
  using dissector_memory_safe [OF sample_wf(1)] .

text \<open>
  C17. The host name parser returns on every buffer, without a read outside the bytes announced to
  it, and a host name it reports lies within the buffer it points into.
\<close>

theorem sni_parser_returns_in_bounds:
  assumes "len \<le> length p" "len < U32_SPAN"
  shows "\<exists>r. extractHostname p len = Some r \<and>
    (\<forall>buf start n. r = Found (buf, start, n) \<longrightarrow> start + n \<le> length buf)"
proof -
  obtain r where "extractHostname p len = Some r" "span_within r"
    using extractHostname_safe [OF assms] by (auto simp: ensures_iff)
  then show ?thesis by (intro exI [of _ r]) auto
qed

theorem sni_parser_returns_in_bounds_witness:
  "\<exists>r. extractHostname [0x16, 0x03, 0x01, 0xFF] 3 = Some r \<and>
    (\<forall>buf start n. r = Found (buf, start, n) \<longrightarrow> start + n \<le> length buf)"
  using sni_parser_returns_in_bounds [of 3 "[0x16, 0x03, 0x01, 0xFF]"] by simp

text \<open>
  C26. A packet and its reply have the same flow key.
\<close>

theorem reply_has_same_key:
  assumes "flow_view p = Some (True, f)" "flow_view q = Some (True, g)" "packet_wf p" "packet_wf q"
    "fv_ip_proto g = fv_ip_proto f" "fv_src_ip g = fv_dst_ip f" "fv_dst_ip g = fv_src_ip f"
    "fv_src_port g = fv_dst_port f" "fv_dst_port g = fv_src_port f"
  shows "flow_key q = flow_key p"
proof -
  have "fv_key f = routeKey f" "fv_key g = routeKey g"
    using flow_view_safe [OF assms(3)] flow_view_safe [OF assms(4)] assms(1,2) by simp_all
  moreover have "routeKey g = routeKey (reverse_flow f)"
    by (rule routeKey_cong) (simp_all add: reverse_flow_def assms)
  ultimately show ?thesis using assms(1,2) by (simp add: flow_key_def routeKey_reverse)
qed

theorem reply_has_same_key_witness: "flow_key reply_packet = flow_key ack_packet"
proof -
  obtain g where "flow_view reply_packet = Some (True, g)"
     "fv_ip_proto g = fv_ip_proto ack_flow" "fv_src_ip g = fv_dst_ip ack_flow" "fv_dst_ip g = fv_src_ip ack_flow"
    "fv_src_port g = fv_dst_port ack_flow" "fv_dst_port g = fv_src_port ack_flow"
    by (simp add: reply_packet_def sample_eval)
  with reply_has_same_key [OF sample_views(2) _ sample_wf(2) reply_wf] show ?thesis by blast
qed

section \<open>Shutdown, sweeps and late callbacks\<close>

text \<open>
  C23. Flushing decides every held packet exactly once and allows it, forgets every flow and has
  handed every connection back to the reassembler.
\<close>

theorem flush_releases_everything:
  assumes "world_ok W" "ready s"
  shows "ensures (flush (inspecting W bl) s) (\<lambda>s'. ready s' \<and> x_conns s' = [] \<and> x_to_close s' = [] \<and> x_flows s' = 0 \<and>
    (\<exists>ds. x_decided s' = x_decided s @ ds \<and> (\<forall>d \<in> set ds. dc_verdict d = ALLOW) \<and>
      mset (map (\<lambda>d. tag (dc_pkt d)) ds) = held_tags (x_conns s)))"
proof -
  let ?W = "inspecting W bl"
  obtain s' where s': "flush ?W s = Some s'" "ready s'" "accounts {#} s s'" "x_conns s' = []"
    "x_to_close s' = []" "x_flows s' = 0"
    using flush_ok [of ?W s] assms by (auto simp: ensures_iff)
  from flush_fail_open [of ?W s] s'(1) assms(2) obtain ds where
    ds: "x_decided s' = x_decided s @ ds" "\<forall>d \<in> set ds. dc_verdict d = ALLOW"
    by (auto simp: allows_more_def)
  have "mset (map (\<lambda>d. tag (dc_pkt d)) ds) = held_tags (x_conns s)"
    using s'(3,4) ds(1) by (simp add: accounts_def debt_def held_tags_def)
  with s' ds show ?thesis by simp
qed

theorem flush_releases_everything_witness:
  "ensures (flush (inspecting sample_world sample_list) sample_holding) (\<lambda>s'. x_conns s' = [] \<and>
    (\<exists>ds. x_decided s' = ds \<and> (\<forall>d \<in> set ds. dc_verdict d = ALLOW) \<and>
      mset (map (\<lambda>d. tag (dc_pkt d)) ds) = {# (7, True) #}))"
proof -
  have "held_tags (x_conns sample_holding) = {# (7, True) #}" "x_decided sample_holding = []"
    by (simp_all add: held_tags_def sample_holding_def put_conn_def tag_def release_bytes_def
        sample_packet_def Packet_of_def)
  with flush_releases_everything [OF sample_world_ok sample_holding_ready, of sample_list]
  show ?thesis by (auto elim!: ensures_mono)
qed

text \<open>
  C19. Callbacks that the reassembler makes while connections are closed or purged have no effect:
  the extractor does what it does with a reassembler that makes none.
\<close>

theorem late_callbacks_ignored:
  assumes "ready s"
  shows "feed (quiet W) now pkt s = feed W now pkt s \<and> tick (quiet W) now s = tick W now s \<and>
    flush (quiet W) s = flush W s"
  using assms feed_quiet tick_quiet flush_quiet by (auto simp: ready_def)

theorem late_callbacks_ignored_witness:
  "feed (quiet (sample_world\<lparr>w_close := \<lambda>r k. (r, [ConnectionEnd])\<rparr>)) 5 data_packet sample_waiting =
   feed (sample_world\<lparr>w_close := \<lambda>r k. (r, [ConnectionEnd])\<rparr>) 5 data_packet sample_waiting"
  using late_callbacks_ignored [OF sample_waiting_ready] by blast

section \<open>The block list\<close>

text \<open>
  C28. The lookup, which walks the dots of the name, answers what the two sets mean: the name is an
  exact entry, or what follows one of its dots is a wildcard entry.
\<close>

theorem blocklist_lookup:
  "isHostnameBlocked bl h \<longleftrightarrow> h \<in> set (bl_exact bl) \<or>
     (\<exists>pre suf. h = pre @ ''.'' @ suf \<and> suf \<noteq> [] \<and> suf \<in> set (bl_wildcard bl))"
  by (simp add: isHostnameBlocked_spec blocked_spec_def)

text \<open>
  C29. A file written with one entry per line blocks, once loaded, exactly the names its entries stand
  for: an entry that starts with an asterisk and a dot the names below it, any other itself.
\<close>

theorem blocklist_file_roundtrip:
  assumes "\<forall>e \<in> set es. e \<noteq> [] \<and> hd e \<noteq> CHR ''#'' \<and> (\<forall>c \<in> set e. \<not> isspace c)"
  shows "\<exists>b. load_blocklist (Some (concat (map (\<lambda>e. e @ [CHR 0x0A]) es))) = Some b \<and>
    (\<forall>h. isHostnameBlocked b h \<longleftrightarrow>
       (\<exists>e \<in> set es. if is_wildcard e then \<exists>pre. h = pre @ ''.'' @ drop 2 e else h = e))"
proof -
  have lines: "getlines (concat (map (\<lambda>e. e @ [CHR 0x0A]) es)) = es"
  proof (rule getlines_join)
    have "isspace (CHR 0x0A)" by (simp add: isspace_def)
    with assms show "list_all (\<lambda>l. CHR 0x0A \<notin> set l) es" by (auto simp: list_all_iff)
  qed
  have "line_blocks e h \<longleftrightarrow> (if is_wildcard e then \<exists>pre. h = pre @ ''.'' @ drop 2 e else h = e)"
    if "e \<in> set es" for e h
  proof -
    have "parse_line e = e" "is_entry e" using assms that by (simp_all add: parse_line_def is_entry_def)
    then show ?thesis by (simp add: line_blocks_def)
  qed
  with bl.blocked_lines [of es] lines show ?thesis by (auto simp: load_blocklist_def)
qed

theorem blocklist_file_roundtrip_witness:
  "\<exists>b. load_blocklist (Some (concat (map (\<lambda>e. e @ [CHR 0x0A]) [''a.b'', ''*.c.d'']))) = Some b \<and>
    isHostnameBlocked b ''x.c.d'' \<and> \<not> isHostnameBlocked b ''c.d''"
proof -
  have "\<forall>e \<in> set [''a.b'', ''*.c.d'']. e \<noteq> [] \<and> hd e \<noteq> CHR ''#'' \<and> (\<forall>c \<in> set e. \<not> isspace c)"
    by (simp add: isspace_def)
  from blocklist_file_roundtrip [OF this] show ?thesis
    by (force simp: is_wildcard_def Cons_eq_append_conv)
qed

section \<open>The command line and the process\<close>

text \<open>
  C38. Parsing the command line always gives a configuration within the documented ranges. It asks
  for an exit with code 0 only after printing the usage and with code 2 on an error; otherwise
  nothing is printed and the queue numbers of all workers fit in 16 bits.
\<close>

theorem parse_sound:
  "case parse argv of (r, outs) \<Rightarrow> config_ok (pr_config r) \<and>
     (if pr_should_exit r
      then pr_exit_code r \<in> {0, 2} \<and> outs \<noteq> [] \<and> (pr_exit_code r = 0 \<longleftrightarrow> outs = [Stdout usage])
      else pr_exit_code r = 0 \<and> outs = [] \<and> queues_fit (pr_config r))"
  using parse_args_ok [OF Config0_ok, of "drop 1 argv"] parse_args_exit [of Config0 "drop 1 argv"]
  by (auto simp: parse_def split: prod.splits if_splits)

text \<open>
  C34. A packet is never left in the kernel by its callback: if the callback, having returned or
  thrown, leaves the packet with its verdict outstanding, the queue accepts it, exactly once,
  and counts it as undecided.
\<close>

theorem unanswered_packet_is_accepted:
  assumes "cb (message_packet m) (q\<lparr>nq_received := nq_received q + 1\<rparr>, x) = Some (pkt, q', x')"
    "pk_pending pkt"
  shows "ensures (handle K cb m (q, x)) (\<lambda>(q'', x''). x'' = x' \<and>
    nq_log q'' = nq_log q' @ [(pk_id pkt, NF_ACCEPT)] \<and>
    packets_undecided q'' = packets_undecided q' + 1 \<and> packets_received q'' = packets_received q')"
  using assms submit_pending [OF assms(2), of K ALLOW "q'\<lparr>nq_undecided := nq_undecided q' + 1\<rparr>"]
    submit_fields [of K pkt ALLOW "q'\<lparr>nq_undecided := nq_undecided q' + 1\<rparr>"]
  by (simp add: handle_def nf_of_def packets_undecided_def packets_received_def)

theorem unanswered_packet_is_accepted_witness:
  "ensures (handle sample_kernel (\<lambda>pkt s. Some (pkt, s)) opening_message sample_worker) (\<lambda>(q, x).
    nq_log q = nq_log (fst sample_worker) @ [(ntohl 5, NF_ACCEPT)] \<and>
    packets_undecided q = packets_undecided (fst sample_worker) + 1)"
proof -
  let ?q = "(fst sample_worker)\<lparr>nq_received := nq_received (fst sample_worker) + 1\<rparr>"
  have "pk_pending (message_packet opening_message)" "pk_id (message_packet opening_message) = ntohl 5"
    by (simp_all add: message_packet_def opening_message_def Packet_of_def)
  with unanswered_packet_is_accepted [of "\<lambda>pkt s. Some (pkt, s)" opening_message "fst sample_worker"
      "snd sample_worker" "message_packet opening_message" ?q "snd sample_worker" sample_kernel]
  show ?thesis by (auto simp: packets_undecided_def elim!: ensures_mono)
qed

text \<open>
  C33. An exception that leaves feed is swallowed by the queue's handler, which sees an empty
  packet: it submits nothing and counts nothing as undecided. A packet with payload on which the
  reassembler threw is still owed its answer, being held by its flow, or decided with it if a
  callback before the exception settled the flow; any other packet is owed none, though it was
  received and never answered.
\<close>

theorem exception_in_feed:
  assumes "world_ok W" "ready x" "message_ok m" "flow_view (message_packet m) = Some (True, f)"
    "handle K (throwing_callback W at now) m (q, x) = Some (q', x')"
  shows "nq_log q' = nq_log q \<and> packets_undecided q' = packets_undecided q \<and>
    packets_received q' = packets_received q + 1 \<and>
    debt x' = debt x + (if at = Reassembling \<and> fv_payload_len f > 0 then {#(message_id m, True)#} else {#})"
  using handle_throws [OF assms] message_packet_ok(3) [OF assms(3)]
  by (simp add: survivors_def packets_undecided_def packets_received_def)

theorem exception_in_feed_witness:
  "(\<exists>q' x'. handle sample_kernel (throwing_callback sample_world Wrapping 5) opening_message
      (fst sample_worker, sample_waiting) = Some (q', x') \<and>
     nq_log q' = nq_log (fst sample_worker) \<and> debt x' = debt sample_waiting) \<and>
   (\<exists>q' x'. handle sample_kernel (throwing_callback sample_world Reassembling 5) opening_message
      (fst sample_worker, sample_waiting) = Some (q', x') \<and>
     nq_log q' = nq_log (fst sample_worker) \<and> debt x' = debt sample_waiting + {#(ntohl 5, True)#})"
proof -
  have view: "flow_view (message_packet opening_message) = Some (True, opening_flow)"
    using opening_tcp by (simp add: opening_message_packet tcp_packet_def)
  note thrown = exception_in_feed [OF sample_world_ok sample_waiting_ready opening_message_ok view]
  obtain q x q' x' where h:
    "handle sample_kernel (throwing_callback sample_world Wrapping 5) opening_message
      (fst sample_worker, sample_waiting) = Some (q, x)"
    "handle sample_kernel (throwing_callback sample_world Reassembling 5) opening_message
      (fst sample_worker, sample_waiting) = Some (q', x')"
    using sample_throw_handled by metis
  from thrown [OF h(1)] thrown [OF h(2)] h show ?thesis
    by (simp add: opening_fields opening_loop(3))
qed

text \<open>
  C35. If a queue cannot be bound the program ends with exit code 1. It prints the banner and, for
  the first worker whose queue cannot be bound, the name of the setup call that failed first and
  what its errno means. The workers built before it are destroyed as they were built: none of them
  has run, received a packet or answered one.
\<close>

theorem bind_failure_is_fatal:
  assumes "parse argv = (parsed, outs)" "\<not> pr_should_exit parsed"
    "load_blocklist (pe_file env (cf_blocklist_path (pr_config parsed))) = Some bl"
    "pe_eventfd env \<ge> 0" "i < worker_count (pr_config parsed)" "\<not> binds (pe_kernel env i)"
  shows "\<exists>j pre c ws. j \<le> i \<and> (\<forall>k < j. binds (pe_kernel env k)) \<and>
    fails_at (setup_steps (pe_kernel env j) (worker_queue (pr_config parsed) j)) pre c \<and>
    main env argv = Some (1, [Stdout (banner (pr_config parsed)),
      Stderr (''fatal: '' @ call_name c @ '': '' @
        k_strerror (pe_kernel env j) (k_errno (pe_kernel env j) c) @ newline)], ws) \<and>
    length ws = j \<and> (\<forall>k < j. make_worker env (pr_config parsed) k = Inr (ws ! k) \<and>
      nq_received (fst (ws ! k)) = 0 \<and> nq_log (fst (ws ! k)) = [])"
proof -
  let ?cfg = "pr_config parsed"
  have "\<exists>e. make_worker env ?cfg i = Inl e" using assms(6) by (simp add: make_worker_failure binds_def)
  with assms(5) obtain what ws where
    stop: "make_workers env ?cfg [0..<worker_count ?cfg] [] = Inl (what, ws)"
    using make_workers_failure [of env ?cfg "[0..<worker_count ?cfg]" "[]"] by auto
  from make_workers_stop [OF stop] obtain j where j: "j < worker_count ?cfg"
    "make_worker env ?cfg j = Inl what" "length ws = j" "\<forall>k < j. make_worker env ?cfg k = Inr (ws ! k)"
    by auto
  obtain pre c where c: "fails_at (setup_steps (pe_kernel env j) (worker_queue ?cfg j)) pre c"
    "what = call_name c @ '': '' @ k_strerror (pe_kernel env j) (k_errno (pe_kernel env j) c)"
    using make_worker_reason [OF j(2)] by blast
  have binds: "\<forall>k < j. binds (pe_kernel env k)"
    using j(4) made_worker_binds by blast
  then have "j \<le> i" using assms(6) by (meson not_le)
  moreover have "main env argv = Some (1, [Stdout (banner ?cfg), Stderr (''fatal: '' @ what @ newline)], ws)"
    using main_starts [OF assms(1-4)] stop by (simp add: Let_def)
  moreover have "\<forall>k < j. nq_received (fst (ws ! k)) = 0 \<and> nq_log (fst (ws ! k)) = []"
    using j(4) made_worker_fresh by blast
  ultimately show ?thesis using binds c j(3,4) by (intro exI conjI) (assumption | simp)+
qed

theorem bind_failure_is_fatal_witness:
  "\<exists>ws. main broken_env [''PacketInspector''] = Some (1, [Stdout (banner Config0),
      Stderr (''fatal: nfq_create_queue: error'' @ newline)], ws) \<and>
    length ws = 3 \<and> (\<forall>w \<in> set ws. nq_log (fst w) = [])"
proof -
  have env: "pe_file broken_env path = Some sample_file" "pe_eventfd broken_env = 4"
    "binds (pe_kernel broken_env k) \<longleftrightarrow> k \<noteq> 3" for path k
    by (simp_all add: broken_env_def binds_def) (simp_all add: sample_kernel_def)
  then obtain j pre c ws where j: "j \<le> 3" "\<forall>k < j. k \<noteq> 3"
    "fails_at (setup_steps (pe_kernel broken_env j) (worker_queue Config0 j)) pre c"
    "main broken_env [''PacketInspector''] = Some (1, [Stdout (banner Config0),
      Stderr (''fatal: '' @ call_name c @ '': '' @
        k_strerror (pe_kernel broken_env j) (k_errno (pe_kernel broken_env j) c) @ newline)], ws)"
    "length ws = j" "\<forall>k < j. nq_log (fst (ws ! k)) = []"
    using bind_failure_is_fatal [OF sample_parses, of broken_env sample_list 3] sample_file_loads
    unfolding sample_parsed_simps by auto
  have "j = 3 \<and> call_name c = ''nfq_create_queue''"
    using j(3) by (simp add: setup_steps_def broken_env_def split: if_splits) (simp_all add: sample_kernel_def split: if_splits)
  with j(4-6) show ?thesis
    by (intro exI [of _ ws]) (auto simp: broken_env_def sample_kernel_def all_set_conv_all_nth)
qed

text \<open>
  C9. When the command line, the block list and the queues are in order, threads can be started
  and every worker's turns end, the program ends. It prints the banner, the warnings of workers
  that could not be pinned and the final counters; each of the workers it ends with has answered each packet it
  received exactly once; and the exit code is 1 just if the queue of a worker failed.
\<close>

theorem main_answers_everything:
  fixes env :: "'r process_env"
  assumes "parse argv = (parsed, outs)" "\<not> pr_should_exit parsed"
    "load_blocklist (pe_file env (cf_blocklist_path (pr_config parsed))) = Some bl"
    "pe_eventfd env \<ge> 0" "world_ok (pe_world env)"
    "\<forall>i < worker_count (pr_config parsed). binds (pe_kernel env i) \<and>
       (\<forall>t \<in> set (pe_turns env i). turn_ok t) \<and>
       (\<exists>t \<in> set (pe_turns env i). turn_event (pe_eventfd env) t \<in> {Stop, Error})"
    "\<forall>i \<le> worker_count (pr_config parsed). pe_spawn env i = None"
  shows "\<exists>rc report ws. main env argv = Some (rc, Stdout (banner (pr_config parsed)) #
      pinning_output env (pr_config parsed) (worker_count (pr_config parsed)) @ report, ws) \<and>
    Stderr (''final: '' @ stats_line ws @ newline) \<in> set report \<and>
    length ws = worker_count (pr_config parsed) \<and>
    (\<forall>i < length ws. mset (map fst (nq_log (fst (ws ! i)))) =
       mset (map message_id (loop_messages (pe_eventfd env) (pe_turns env i)))) \<and>
    rc = (if \<exists>w \<in> set ws. failed (fst w) then 1 else 0)"
proof -
  let ?cfg = "pr_config parsed"
  obtain ws where run: "length ws = worker_count ?cfg"
    "\<forall>i < length ws. answered (pe_eventfd env) (pe_turns env i) (ws ! i)"
    "main env argv = Some (exit_code ws, Stdout (banner ?cfg) #
      pinning_output env ?cfg (length ws) @ final_report (pe_kernel env) ?cfg ws, ws)"
    using main_runs [OF assms] by blast
  have "Stderr (''final: '' @ stats_line ws @ newline) \<in> set (final_report (pe_kernel env) ?cfg ws)"
    unfolding final_report_def set_append by (intro UnI2 UnI1) simp
  moreover have "exit_code ws = (if \<exists>w \<in> set ws. failed (fst w) then 1 else 0)"
    by (simp add: exit_code_def list_ex_iff)
  ultimately show ?thesis
    using run unfolding answered_def
    by (intro exI [of _ "exit_code ws"] exI [of _ "final_report (pe_kernel env) ?cfg ws"] exI [of _ ws])
      metis
qed

theorem main_answers_everything_witness:
  "\<exists>rc report ws. main sample_env [''PacketInspector''] = Some (rc, Stdout (banner Config0) # report, ws) \<and>
    length ws = 4 \<and> (\<forall>i < 4. mset (map fst (nq_log (fst (ws ! i)))) = {# ntohl 5 #})"
proof -
  have "\<forall>i < worker_count (pr_config sample_parsed). binds (pe_kernel sample_env i) \<and>
      (\<forall>t \<in> set (pe_turns sample_env i). turn_ok t) \<and>
      (\<exists>t \<in> set (pe_turns sample_env i). turn_event (pe_eventfd sample_env) t \<in> {Stop, Error})"
    using sample_binds opening_turn_ok sample_turns_ok(2) sample_events(2) by simp
  moreover have "\<not> pr_should_exit sample_parsed" "pe_eventfd sample_env \<ge> 0" by simp_all
  moreover have "\<forall>i \<le> worker_count (pr_config sample_parsed). pe_spawn sample_env i = None" by simp
  moreover note sample_file_loads sample_world_ok
  ultimately
  obtain rc report ws where
    "main sample_env [''PacketInspector''] =
      Some (rc, Stdout (banner Config0) # pinning_output sample_env Config0 4 @ report, ws)" "length ws = 4"
    "\<forall>i < length ws. mset (map fst (nq_log (fst (ws ! i)))) =
       mset (map message_id (loop_messages 4 [opening_turn, stop_turn]))"
    using main_answers_everything [OF sample_parses, of sample_env sample_list]
    unfolding sample_env_simps sample_parsed_simps by blast
  then show ?thesis unfolding opening_loop by (intro exI conjI) (assumption | simp add: opening_loop)+
qed

text \<open>
  C21. A thread that cannot be started ends the program in order. It reports the reason of the
  first such thread and returns 1, and because it writes the stop descriptor itself, every worker
  started before leaves its loop, with no signal needed: it is enough that each gets one poll
  afterwards that is not interrupted. The workers it ends with have answered each packet
  they received exactly once, and those never started have received none.
\<close>

theorem thread_failure_ends_in_order:
  fixes env :: "'r process_env"
  assumes "parse argv = (parsed, outs)" "\<not> pr_should_exit parsed"
    "load_blocklist (pe_file env (cf_blocklist_path (pr_config parsed))) = Some bl"
    "pe_eventfd env \<ge> 0" "world_ok (pe_world env)"
    "\<forall>i < worker_count (pr_config parsed). binds (pe_kernel env i) \<and>
       (\<forall>t \<in> set (pe_turns env i) \<union> set (pe_late env i). turn_ok t) \<and>
       (\<exists>t \<in> set (pe_late env i). t_poll t \<ge> 0)"
    "\<exists>i \<in> set (threads (pr_config parsed) (worker_count (pr_config parsed))). pe_spawn env i \<noteq> None"
  shows "\<exists>j what ws. pe_spawn env j = Some what \<and> (\<forall>i < j. pe_spawn env i = None) \<and>
    main env argv = Some (1, Stdout (banner (pr_config parsed)) #
      pinning_output env (pr_config parsed) j @ [Stderr (''fatal: '' @ what @ newline)], ws) \<and>
    length ws = worker_count (pr_config parsed) \<and>
    (\<forall>i < length ws.
      if i < j then mset (map fst (nq_log (fst (ws ! i)))) =
        mset (map message_id (loop_messages (pe_eventfd env) (stopped_turns env i)))
      else nq_received (fst (ws ! i)) = 0 \<and> nq_log (fst (ws ! i)) = [])"
proof -
  let ?cfg = "pr_config parsed"
  obtain ws0 where ws0: "make_workers env ?cfg [0..<worker_count ?cfg] [] = Inr ws0"
    and made: "length ws0 = worker_count ?cfg"
      "\<And>j. j < worker_count ?cfg \<Longrightarrow> make_worker env ?cfg j = Inr (ws0 ! j)"
    using workers_made assms(6) by blast
  obtain j what where st: "start_threads env (threads ?cfg (length ws0)) = Some (j, what)"
    using assms(7) made(1) start_threads_None [of env "threads ?cfg (length ws0)"] by force
  obtain ws where ws: "run_and_report env ?cfg bl ws0 =
      Some (1, pinning_output env ?cfg j @ [Stderr (''fatal: '' @ what @ newline)], ws @ drop j ws0)"
    "length ws = j" "j \<le> length ws0" "\<forall>i < j. answered (pe_eventfd env) (stopped_turns env i) (ws ! i)"
    using thread_failure_joins [OF st assms(5) _ assms(4), of bl] made assms(6) by auto
  have "pe_spawn env i = None" if "i < j" for i
    using start_threads_first [OF st sorted_threads, of i] that ws(3) set_threads(2) [of "length ws0" ?cfg]
    by (auto dest: subsetD [of _ _ i])
  moreover have "main env argv = Some (1, Stdout (banner ?cfg) #
      pinning_output env ?cfg j @ [Stderr (''fatal: '' @ what @ newline)], ws @ drop j ws0)"
    using main_starts [OF assms(1-4)] ws0 ws(1) by (simp add: Let_def)
  moreover have "if i < j then answered (pe_eventfd env) (stopped_turns env i) ((ws @ drop j ws0) ! i)
      else nq_received (fst ((ws @ drop j ws0) ! i)) = 0 \<and> nq_log (fst ((ws @ drop j ws0) ! i)) = []"
    if "i < worker_count ?cfg" for i
    using ws(2-4) made_worker_fresh [OF made(2) [OF that]] by (simp add: nth_append)
  moreover have "length (ws @ drop j ws0) = worker_count ?cfg" using ws(2,3) made(1) by simp
  moreover have "pe_spawn env j = Some what" using start_threads_Some [OF st] by simp
  ultimately show ?thesis
    unfolding answered_def by (intro exI [of _ j] exI [of _ what] exI [of _ "ws @ drop j ws0"]) metis
qed

theorem thread_failure_ends_in_order_witness:
  "\<exists>ws. main crowded_env [''PacketInspector''] =
      Some (1, [Stdout (banner Config0), Stderr (''fatal: again'' @ newline)], ws) \<and>
    (\<forall>i < 4. mset (map fst (nq_log (fst (ws ! i)))) = (if i < 2 then {#ntohl 5#} else {#}))"
proof -
  have env: "pe_file crowded_env path = Some sample_file" "pe_eventfd crowded_env = 4"
    "pe_kernel crowded_env i = sample_kernel" "pe_world crowded_env = sample_world"
    "pe_turns crowded_env i = [opening_turn]" "pe_late crowded_env i = [idle_turn]"
    "pe_spawn crowded_env i = (if i = 2 then Some ''again'' else None)" for path i
    by (simp_all add: crowded_env_def) (simp_all add: sample_env_def)
  have ok: "\<forall>i < worker_count (pr_config sample_parsed). binds (pe_kernel crowded_env i) \<and>
      (\<forall>t \<in> set (pe_turns crowded_env i) \<union> set (pe_late crowded_env i). turn_ok t) \<and>
      (\<exists>t \<in> set (pe_late crowded_env i). t_poll t \<ge> 0)"
    using sample_binds opening_turn_ok by (simp add: env) (simp add: turn_ok_def idle_turn_def)
  have full: "\<exists>i \<in> set (threads (pr_config sample_parsed) (worker_count (pr_config sample_parsed))).
      pe_spawn crowded_env i \<noteq> None"
    by (intro bexI [of _ 2]) (simp_all add: env threads_def)
  have "load_blocklist (pe_file crowded_env (cf_blocklist_path (pr_config sample_parsed))) = Some sample_list"
    "pe_eventfd crowded_env \<ge> 0" "world_ok (pe_world crowded_env)"
    using sample_file_loads sample_world_ok by (simp_all add: env)
  from thread_failure_ends_in_order [OF sample_parses _ this ok full] obtain j what ws where
    j: "pe_spawn crowded_env j = Some what" "main crowded_env [''PacketInspector''] = Some (1, Stdout (banner Config0) #
      pinning_output crowded_env Config0 j @ [Stderr (''fatal: '' @ what @ newline)], ws)" "length ws = 4"
    "\<forall>i < length ws. if i < j then mset (map fst (nq_log (fst (ws ! i)))) =
        mset (map message_id (loop_messages 4 (stopped_turns crowded_env i)))
      else nq_received (fst (ws ! i)) = 0 \<and> nq_log (fst (ws ! i)) = []"
    unfolding sample_parsed_simps env(2) by blast
  from j(1) have jw: "j = 2" "what = ''again''" by (simp_all add: env split: if_splits)
  have "mset (map fst (nq_log (fst (ws ! i)))) = (if i < 2 then {#ntohl 5#} else {#})" if "i < 4" for i
    using spec [OF j(4), of i] that j(3) jw(1) by (simp add: crowded_messages opening_loop(3) split: if_splits)
  moreover have "pinning_output crowded_env Config0 2 = []" by (rule crowded_unpinned)
  ultimately show ?thesis using j(2) jw by auto
qed

text \<open>
  C20. One interrupt or termination signal stops every worker: after it, whatever the workers and
  further signals do in between, each worker has left its loop once it has had a turn whose poll was not interrupted.
\<close>

theorem one_signal_stops_every_worker:
  assumes "mfold (process_step K E p fd (install_signal_handlers d)) es (c, ths) = Some (c', ths')"
    "Signal SIGINT \<in> set es \<or> Signal SIGTERM \<in> set es" "fd \<ge> 0" "watches fd ths"
    "mfold (process_step K E p fd (install_signal_handlers d)) later (c', ths') = Some (c'', ths'')"
    "\<forall>i < length ths. \<exists>t. Turn i t \<in> set later \<and> t_poll t \<ge> 0"
  shows "\<forall>th \<in> set ths''. fst th"
proof -
  have len: "length ths' = length ths" "length ths'' = length ths"
    using process_length [OF assms(1)] process_length [OF assms(5)] by simp_all
  have "eventfd_readable c'" using process_keeps_readable [OF assms(1,3)] assms(2) installed_dispositions [of d] by blast
  then have "fst (ths'' ! i)" if "i < length ths" for i
    using readable_process_stops [OF assms(5,3) process_watches [OF assms(1,4)]] assms(6) that len by auto
  with len(2) show ?thesis by (metis in_set_conv_nth)
qed

theorem one_signal_stops_every_worker_witness:
  "\<exists>c ths. mfold (process_step (\<lambda>i. sample_kernel) (TcpTlsHostnameExtractor sample_world) False 4
      (install_signal_handlers (\<lambda>sig. Terminates)))
      [Signal SIGTERM, Turn 0 stop_turn] (0, [(False, sample_worker)]) = Some (c, ths) \<and> (\<forall>th \<in> set ths. fst th)"
proof -
  let ?step = "process_step (\<lambda>i. sample_kernel) (TcpTlsHostnameExtractor sample_world) False 4
      (install_signal_handlers (\<lambda>sig. Terminates))"
  have fd: "nq_stop_fd (fst sample_worker) = 4" using new_Worker_fresh(6) [OF sample_worker_built] .
  obtain left w where w: "worker_turn sample_kernel (TcpTlsHostnameExtractor sample_world) False stop_turn
      sample_worker = Some (left, w)"
    using tcp.worker_turn_ok [OF fresh_solvent(1) [OF sample_worker_built sample_world_ok] sample_turns_ok(2),
        of sample_kernel False] by (auto simp: ensures_iff)
  have sig: "mfold ?step [Signal SIGTERM] (0, [(False, sample_worker)]) = Some (1, [(False, sample_worker)])"
    by (simp add: deliver_def installed_dispositions on_signal_def eventfd_write_def)
  have turn: "mfold ?step [Turn 0 stop_turn] (1, [(False, sample_worker)]) = Some (1, [(left, w)])"
    using w by (simp add: thread_step_def polls_def eventfd_readable_def) (simp add: stop_turn_def)
  have "watches 4 [(False, sample_worker)]" "t_poll stop_turn \<ge> 0"
    using fd by (simp_all add: watches_def stop_turn_def)
  with one_signal_stops_every_worker [OF sig _ _ _ turn] have "\<forall>th \<in> set [(left, w)]. fst th" by simp
  moreover have "mfold ?step ([Signal SIGTERM] @ [Turn 0 stop_turn]) (0, [(False, sample_worker)]) =
      Some (1, [(left, w)])"
    using sig turn by (simp only: mfold_append) simp
  ultimately show ?thesis by auto
qed

text \<open>
  C39. While it is told to report, the statistics thread prints a line after every ten sleeps
  of 100 ms per second of its interval; once told to stop it neither sleeps nor prints again and has ended after two looks
  at the flag, wherever it was.
\<close>

theorem stats_thread_reports:
  "stats_thread (1000 * s) (replicate (n * (10 * s + 2)) True) Outer =
     (Outer, concat (replicate n (replicate (10 * s) Slept @ [Reported]))) \<and>
   stats_thread interval (bs @ replicate (2 + k) False) pc = (Ended, snd (stats_thread interval bs pc))"
proof
  show "stats_thread interval (bs @ replicate (2 + k) False) pc = (Ended, snd (stats_thread interval bs pc))"
    by (simp only: stats_append stats_stops) (simp add: Let_def split: prod.split)
qed (rule stats_rounds)

section \<open>How long a packet can be held\<close>

text \<open>
  C13. No flow lingers: as long as the clock does not go back, after every turn of a worker a flow in
  the table has seen a packet within its idle limit and one sweep interval, that is within 11
  seconds, or 61 if it is blocked. The packets an undecided flow holds are released within
  that time of its last packet.
\<close>

theorem no_flow_lingers:
  assumes "new_Worker K r cfg stop_fd ml rb mf mb = (Inr w0, calls)" "world_ok W"
    "\<forall>t \<in> set ts. turn_ok t" "sorted (0 # concat (map turn_times ts))" "ts \<noteq> []"
    "worker_loop K (TcpTlsHostnameExtractor (inspecting W bl)) p ts w0 = Some (False, w)"
  shows "idle_bounded (t_now (last ts)) (snd w)"
proof -
  have "on_time (inspecting W bl) 0 w0"
    using fresh_solvent(1) [OF assms(1), of "inspecting W bl"] assms(2) new_Worker_fresh(1) [OF assms(1)]
    by (simp add: on_time_def new_extractor_timely)
  from loop_timely [OF this assms(3,4,6,5)] show ?thesis .
qed

theorem no_flow_lingers_witness:
  "\<exists>w. worker_loop sample_kernel (TcpTlsHostnameExtractor sample_world) False [opening_turn] sample_worker =
     Some (False, w) \<and> x_conns (snd w) \<noteq> [] \<and> idle_bounded 6 (snd w)"
proof -
  obtain w where "worker_turn sample_kernel (TcpTlsHostnameExtractor sample_world) False opening_turn sample_worker =
      Some (False, w)" "x_conns (snd w) \<noteq> []"
    using sample_drop by auto
  moreover from this have "worker_loop sample_kernel (TcpTlsHostnameExtractor (inspecting sample_world sample_list))
      False [opening_turn] sample_worker = Some (False, w)" by simp
  from no_flow_lingers [OF sample_worker_built sample_world_ok _ _ _ this] opening_turn_ok
  have "idle_bounded 6 (snd w)" by (simp add: turn_times_def opening_turn_def packet_turn_def)
  ultimately show ?thesis by (intro exI [of _ w]) simp
qed

section \<open>The reassembler's connections\<close>

text \<open>
  C14. The reassembler's connections do not pile up. Let it report each connection when it starts
  and drop it when it is closed, and let the traffic keep connections apart: packets with the same
  flow key are of the same connection, and no connection has the key 0. Then at any time every
  connection the reassembler holds is that of an undecided flow or is queued to be closed; there are
  no more of the former than the table has room for, and after a flush the reassembler holds none.
\<close>

theorem connections_are_closed:
  assumes "world_ok W" "tracks_connections conn opn W" "opn r = {}" "list_all call_ok cs"
    "kept_apart conn (fed_packets cs)"
  shows "ensures (mfold (perform W) cs (new_extractor r mf mb)) (\<lambda>s.
    opn (x_reassembly s) \<subseteq> set (x_to_close s) \<union> waiting_keys s \<and>
    card (waiting_keys s) \<le> x_max_flows s \<and>
    (cs \<noteq> [] \<and> last cs = Flush \<longrightarrow> opn (x_reassembly s) = {}))"
proof -
  obtain tok where tok: "\<And>k. tok k \<noteq> 0" "list_all (agrees conn tok) (fed_packets cs)"
    using kept_apart_agrees [OF assms(5)] by blast
  show ?thesis
  proof (rule ensures_mono [OF performs_linked [OF assms(2,1) new_extractor_ready new_extractor_linked
        [of opn, OF assms(3)] assms(4) tok(2,1)]])
    fix s
    assume s: "ready s \<and> linked tok opn s \<and> (cs \<noteq> [] \<and> last cs = Flush \<longrightarrow> opn (x_reassembly s) = {})"
    then have "length (x_conns s) \<le> x_max_flows s" by (simp add: ready_def xinv_def table_ok_def)
    with s card_waiting_keys [of s] linked_waiting [of tok opn s]
    show "opn (x_reassembly s) \<subseteq> set (x_to_close s) \<union> waiting_keys s \<and>
        card (waiting_keys s) \<le> x_max_flows s \<and> (cs \<noteq> [] \<and> last cs = Flush \<longrightarrow> opn (x_reassembly s) = {})"
      by simp
  qed
qed

theorem connections_are_closed_witness:
  "ensures (mfold (perform counting_world) [Feed 5 syn_packet, Feed 6 data_packet, Flush] (new_extractor {} 2 1))
    (\<lambda>s. x_reassembly s = {})"
  by (rule ensures_mono [OF connections_are_closed [OF counting_world_ok counting_world_tracks]])
    (simp_all add: sample_wf sample_kept_apart)

section \<open>Instances of the properties of the components\<close>


theorem feed_isolated_witness:
  "ensures (feed sample_world 5 data_packet sample_waiting) (\<lambda>s'.
     \<exists>ds. x_decided s' = ds \<and>
       mset (map (\<lambda>d. tag (dc_pkt d)) ds) + flow_tags s' sample_key = {#(7, True)#})"
  using feed_isolated [OF sample_world_ok sample_waiting_ready sample_tcp(1) sample_no_sweep(2)]
  by (rule ensures_mono)
    (simp add: flow_tags_def sample_waiting_find Conn0_def tag_def sample_packet_def Packet_of_def)

theorem decided_on_arrival_witness:
  "ensures (feed sample_world 5 data_packet sample_blocked) (\<lambda>s'.
     x_decided s' = [\<lparr>dc_pkt = data_packet, dc_verdict = BLOCK\<rparr>])"
proof -
  have "on_arrival sample_blocked data_packet data_flow = Some BLOCK"
    by (simp add: on_arrival_def sample_blocked_facts)
  from decided_on_arrival [OF sample_tcp(1) sample_blocked_facts(2) this, of sample_world] show ?thesis
    by (rule ensures_mono) (simp add: sample_blocked_facts)
qed

theorem dissect_enc_witness:
  "\<exists>f off. dissect (Some (enc_packet sample_ip sample_segment @ [0])) 83 = Some (True, f) \<and>
     fv_ip_version f = 6 \<and> (fv_src_port f, fv_dst_port f) = (40000, 443) \<and> fv_payload f = Some off \<and>
     take (fv_payload_len f) (drop off (enc_packet sample_ip sample_segment @ [0])) = [0x16, 3]"
proof -
  have "ip_ok sample_ip sample_segment" "transport_ok sample_segment"
      "length (enc_packet sample_ip sample_segment @ [0]) = 83"
    by (simp_all add: sample_ip_def sample_segment_def net16_def kMaxV6ExtHeaders_def kV6HopByHop_def)
  then show ?thesis
    using dissect_enc [of sample_ip sample_segment "enc_packet sample_ip sample_segment @ [0]" "[0]"]
    by (auto simp: sample_ip_def sample_segment_def)
qed

theorem sweep_fail_open_witness:
  "ensures (sweep sample_world kWaitIdleTimeout sample_holding) (\<lambda>s'. allows_more sample_holding s' \<and>
    find_conn s' sample_key = None)"
proof -
  have "fail_open sample_world" by (simp add: sample_world_def)
  from sweep_fail_open [OF sample_world_ok this sample_holding_ready, of kWaitIdleTimeout]
  show ?thesis
    by (rule ensures_mono)
      (simp add: sample_holding_def conn_simps expired_at_def idle_limit_def Conn0_def)
qed

theorem refused_only_when_undecided_witness:
  "(\<exists>s'. start_tracking sample_world 5 syn_flow syn_packet sample_full = Some (Inl s')) \<and>
   length (x_conns sample_full) = x_max_flows sample_full \<and> blocked_keys sample_full \<subseteq> {0}"
proof -
  have syn: "isClientSyn syn_flow" by (simp add: isClientSyn_def kTcpSyn_def kTcpAck_def)
  have sweep: "5 - x_lastSweep sample_full < kSweepInterval"
    by (simp add: sample_full_def new_extractor_def put_conn_def Let_def kSweepInterval_def)
  have "\<exists>s'. start_tracking sample_world 5 syn_flow syn_packet sample_full = Some (Inl s')"
    using syn sweep
    by (simp add: start_tracking_def make_room_def evict_oldest_blocked_def sample_full_def
      new_extractor_def put_conn_def Let_def ring_at_def ring_store_def kSweepInterval_def)
  then obtain s' where "start_tracking sample_world 5 syn_flow syn_packet sample_full = Some (Inl s')" ..
  with refused_only_when_undecided [OF sample_full_ready sweep disjI1 [OF syn] this] show ?thesis by blast
qed

theorem materialize_ensures_witness:
  "ensures (materialize data_packet) (\<lambda>q. packet_wf q \<and> \<not> is_view q \<and> flow_view q = Some (True, data_flow))"
  by (rule ensures_mono [OF materialize_ensures [OF sample_wf(1)]]) (simp add: sample_views)

theorem new_NFQueue_failure_witness:
  "\<exists>e. new_NFQueue (sample_kernel\<lparr>k_set_mode := -1\<rparr>) 3 4 8192 1024 = (Inl e, [Nfq_open, Nfq_bind_pf,
      Nfq_create_queue 3, Nfq_set_mode 0xffff, Nfq_destroy_queue, Nfq_close]) \<and>
    se_what e = ''nfq_set_mode'' \<and> se_code e = 1"
proof -
  let ?K = "sample_kernel\<lparr>k_set_mode := -1\<rparr>"
  let ?new = "new_NFQueue ?K 3 4 8192 1024"
  obtain e calls where new: "?new = (Inl e, calls)"
    by (simp add: new_NFQueue_def sample_kernel_def bail_def Let_def)
  from new_NFQueue_failure [OF new] obtain pre c where c: "fails_at (setup_steps ?K 3) pre c"
    "se_what e = call_name c" "se_code e = k_errno ?K c" "calls = pre @ [c] @ concat (map release (rev pre))"
    by blast
  from c(1) have "pre = [Nfq_open, Nfq_bind_pf, Nfq_create_queue 3]" "c = Nfq_set_mode 0xffff"
    by (auto simp: setup_steps_def sample_kernel_def)
  with new c(2-4) show ?thesis by (simp add: sample_kernel_def)
qed

theorem parse_uint_to_string_witness: "parse_uint (to_string 4096) 1 4096 = Some 4096"
  using parse_uint_to_string [of 4096 1 4096] by simp

end
